(* ===== verification/Prelude.thy ===== *)
theory Prelude
  imports Main "HOL-Library.List_Lexorder" "HOL-Library.Char_ord"
begin

text \<open>
  Shared base of the development.  It fixes how the model represents the ways in which
  the C++ code fails, gives the sequencing combinator of fallible steps, the named
  collections used by the component proofs, and the generic list lemmas several
  components share.

  Keys of the store are \<^verbatim>\<open>std::string\<close>; \<^typ>\<open>string\<close> with the lexicographic order of
  \<^verbatim>\<open>List_Lexorder\<close> and the unsigned character order of \<^verbatim>\<open>Char_ord\<close> is the order of
  \<^verbatim>\<open>std::string::operator<\<close>.
\<close>

section \<open>Failures of the program as values\<close>

text \<open>
  \<^item> \<open>AssertFail\<close>: \<^verbatim>\<open>myAssert\<close> or \<^verbatim>\<open>CondPanic\<close> found its condition false and ended
    the process;
  \<^item> \<open>BadAccess\<close>: a null or freed pointer is followed, or a vector is indexed out of range
    (undefined behaviour in C++);
  \<^item> \<open>ArchiveError\<close>: an exception of the serialisation library leaves the function;
  \<^item> \<open>Thrown\<close>: an exception of the standard library leaves the function;
  \<^item> \<open>NoReturn\<close>: a loop is still running after the number of rounds the model allows
    (each use states why that number is enough).
\<close>

datatype error = AssertFail | BadAccess | ArchiveError | Thrown | NoReturn

type_synonym 'a res = "error + 'a"

definition andThen :: "'a res \<Rightarrow> ('a \<Rightarrow> 'b res) \<Rightarrow> 'b res" where
  "andThen m f = (case m of Inl e \<Rightarrow> Inl e | Inr x \<Rightarrow> f x)"

definition returns :: "'a res \<Rightarrow> bool" where
  "returns m = (case m of Inl _ \<Rightarrow> False | Inr _ \<Rightarrow> True)"

definition myAssert :: "bool \<Rightarrow> unit res" where
  "myAssert condition = (if \<not> condition then Inl AssertFail else Inr ())"

definition derefOpt :: "'a option \<Rightarrow> 'a res" where
  \<comment> \<open>following a pointer: the null pointer and a freed cell are \<open>None\<close>\<close>
  "derefOpt p = (case p of None \<Rightarrow> Inl BadAccess | Some x \<Rightarrow> Inr x)"

definition vecGet :: "'a list \<Rightarrow> int \<Rightarrow> 'a res" where
  \<comment> \<open>\<^verbatim>\<open>std::vector::operator[]\<close>\<close>
  "vecGet xs i = (if 0 \<le> i \<and> i < int (length xs) then Inr (xs ! nat i) else Inl BadAccess)"

definition vecSet :: "'a list \<Rightarrow> int \<Rightarrow> 'a \<Rightarrow> 'a list res" where
  "vecSet xs i x =
     (if 0 \<le> i \<and> i < int (length xs) then Inr (xs[nat i := x]) else Inl BadAccess)"

named_theorems res_simps \<open>evaluation of fallible steps\<close>
named_theorems res_dests \<open>inversion of fallible steps that returned\<close>

lemma andThen_Inl [simp, res_simps]: "andThen (Inl e) f = Inl e"
  by (simp add: andThen_def)

lemma andThen_Inr [simp, res_simps]: "andThen (Inr x) f = f x"
  by (simp add: andThen_def)

lemma returns_simps [simp, res_simps]: "returns (Inr x)" "\<not> returns (Inl e)"
  by (simp_all add: returns_def)

lemma returns_iff: "returns m \<longleftrightarrow> (\<exists>x. m = Inr x)"
  by (cases m) (auto simp: returns_def)

lemma myAssert_simps [simp, res_simps]:
  "myAssert True = Inr ()" "myAssert False = Inl AssertFail"
  by (simp_all add: myAssert_def)

lemma derefOpt_simps [simp, res_simps]:
  "derefOpt None = Inl BadAccess" "derefOpt (Some x) = Inr x"
  by (simp_all add: derefOpt_def)

lemma andThen_eq_Inr [res_dests]: "andThen m f = Inr y \<longleftrightarrow> (\<exists>x. m = Inr x \<and> f x = Inr y)"
  by (cases m) auto

lemma myAssert_eq_Inr [res_dests]: "myAssert c = Inr u \<longleftrightarrow> c"
  by (cases c) auto

lemma derefOpt_eq_Inr [res_dests]: "derefOpt p = Inr x \<longleftrightarrow> p = Some x"
  by (cases p) auto

lemma vecGet_eq_Inr [res_dests]:
  "vecGet xs i = Inr x \<longleftrightarrow> 0 \<le> i \<and> i < int (length xs) \<and> x = xs ! nat i"
  by (auto simp: vecGet_def)

lemma vecGet_in_range [res_simps]:
  "0 \<le> i \<Longrightarrow> i < int (length xs) \<Longrightarrow> vecGet xs i = Inr (xs ! nat i)"
  by (simp add: vecGet_def)

lemma vecSet_eq_Inr [res_dests]:
  "vecSet xs i x = Inr ys \<longleftrightarrow> 0 \<le> i \<and> i < int (length xs) \<and> ys = xs[nat i := x]"
  by (auto simp: vecSet_def)

lemma vecSet_in_range [res_simps]:
  "0 \<le> i \<Longrightarrow> i < int (length xs) \<Longrightarrow> vecSet xs i x = Inr (xs[nat i := x])"
  by (simp add: vecSet_def)

section \<open>Loops over a list\<close>

fun foldR :: "('a \<Rightarrow> 's \<Rightarrow> 's res) \<Rightarrow> 'a list \<Rightarrow> 's \<Rightarrow> 's res" where
  \<comment> \<open>a range-based \<^verbatim>\<open>for\<close> loop that changes a state and stops at the first failure\<close>
  "foldR f [] s = Inr s"
| "foldR f (x # xs) s = andThen (f x s) (foldR f xs)"

lemma foldR_append [simp]: "foldR f (xs @ ys) s = andThen (foldR f xs s) (foldR f ys)"
proof (induction xs arbitrary: s)
  case (Cons x xs)
  then show ?case by (cases "f x s") auto
qed simp

fun mapR :: "('a \<Rightarrow> 'b res) \<Rightarrow> 'a list \<Rightarrow> 'b list res" where
  \<comment> \<open>a loop that collects one result per element\<close>
  "mapR f [] = Inr []"
| "mapR f (x # xs) = andThen (f x) (\<lambda>y. andThen (mapR f xs) (\<lambda>ys. Inr (y # ys)))"

lemma mapR_Inr: "(\<And>x. x \<in> set xs \<Longrightarrow> f x = Inr (g x)) \<Longrightarrow> mapR f xs = Inr (map g xs)"
  by (induction xs) auto

lemma mapR_eq_Inr: "mapR f xs = Inr ys \<longleftrightarrow> list_all2 (\<lambda>x y. f x = Inr y) xs ys"
  by (induction xs arbitrary: ys) (auto simp: andThen_eq_Inr list_all2_Cons1)

section \<open>Decimal numerals\<close>

text \<open>\<^verbatim>\<open>std::to_string\<close>.\<close>

fun showNat :: "nat \<Rightarrow> string" where
  "showNat n = (if n < 10 then [char_of (48 + n)] else showNat (n div 10) @ [char_of (48 + n mod 10)])"

declare showNat.simps [simp del]

definition showInt :: "int \<Rightarrow> string" where
  "showInt i = (if i < 0 then CHR ''-'' # showNat (nat (- i)) else showNat (nat i))"

section \<open>Lists\<close>

lemma last_append_Cons: "last (as @ c # bs) = last (c # bs)"
  by simp

lemma sorted_wrt_less_takeWhile:
  fixes f :: "'a \<Rightarrow> 'k::linorder"
  assumes "sorted_wrt (<) (map f xs)"
  shows "takeWhile (\<lambda>a. f a < k) xs = filter (\<lambda>a. f a < k) xs"
  using assms
proof (induction xs)
  case (Cons a xs)
  then have "filter (\<lambda>a. f a < k) xs = []" if "\<not> f a < k"
    using that by (auto simp: filter_empty_conv dest: less_trans)
  with Cons show ?case by auto
qed simp

lemma sorted_wrt_less_inj:
  fixes f :: "'a \<Rightarrow> 'k::linorder"
  assumes "sorted_wrt (<) (map f xs)" and "a \<in> set xs" and "b \<in> set xs" and "f a = f b"
  shows "a = b"
proof -
  have "inj_on f (set xs)"
    using assms(1) by (metis distinct_map strict_sorted_iff)
  then show ?thesis using assms(2-4) by (simp add: inj_on_def)
qed

end
