(* ===== verification/SkipList.thy ===== *)
theory SkipList
  imports Prelude
begin

text \<open>
  The skip list of \<^verbatim>\<open>src/skipList/include/skipList.h\<close>, at the level of its pointers.
  A heap maps locations to nodes; every node owns the array \<^verbatim>\<open>forward_\<close> of its
  \<open>level + 1\<close> next pointers (\<open>None\<close> is \<^verbatim>\<open>nullptr\<close>).  Following a null or freed pointer and
  reading \<^verbatim>\<open>forward_[i]\<close> past the array are \<open>BadAccess\<close>.  The values \<^verbatim>\<open>rand()\<close> is going to
  return are an input of the model (\<open>rands\<close>).  Every operation holds the list's lock for its
  whole body and so is one step, except \<open>insertSetElement\<close>: it locks for each of its three
  calls in turn.  Its only caller holds a lock of its own around it, and it is modelled as
  run by one thread.
\<close>

section \<open>State\<close>

record ('k, 'v) node =
  nkey :: 'k
  nvalue :: 'v
  nlevel :: nat
  forward :: "nat option list"

type_synonym ('k, 'v) heap = "nat \<Rightarrow> ('k, 'v) node option"

record ('k, 'v) skiplist =
  maxLevel :: nat
  curLevel :: nat
  elementCount :: nat
  header :: nat
  heap :: "('k, 'v) heap"
  nextLoc :: nat
  rands :: "nat list"

section \<open>Nodes and the heap\<close>

definition newNode :: "'k \<Rightarrow> 'v \<Rightarrow> nat \<Rightarrow> ('k, 'v) node" where
  "newNode key value level =
     \<lparr>nkey = key, nvalue = value, nlevel = level, forward = replicate (level + 1) None\<rparr>"

definition getForward :: "('k, 'v) heap \<Rightarrow> nat \<Rightarrow> nat \<Rightarrow> nat option res" where
  "getForward h a i =
     andThen (derefOpt (h a)) (\<lambda>nd.
       if i < length (forward nd) then Inr (forward nd ! i) else Inl BadAccess)"

definition setForward :: "('k, 'v) heap \<Rightarrow> nat \<Rightarrow> nat \<Rightarrow> nat option \<Rightarrow> ('k, 'v) heap res" where
  "setForward h a i p =
     andThen (derefOpt (h a)) (\<lambda>nd.
       if i < length (forward nd)
       then Inr (h(a \<mapsto> nd\<lparr>forward := (forward nd)[i := p]\<rparr>)) else Inl BadAccess)"

definition createNode ::
  "'k \<Rightarrow> 'v \<Rightarrow> nat \<Rightarrow> ('k, 'v) skiplist \<Rightarrow> nat \<times> ('k, 'v) skiplist" where
  "createNode key value level s =
     (nextLoc s,
      s\<lparr>heap := (heap s)(nextLoc s \<mapsto> newNode key value level), nextLoc := Suc (nextLoc s)\<rparr>)"

definition newSkipList :: "'k \<Rightarrow> 'v \<Rightarrow> nat \<Rightarrow> nat list \<Rightarrow> ('k, 'v) skiplist" where
  \<comment> \<open>the constructor; the header holds default-constructed key and value\<close>
  "newSkipList key0 val0 maxL rs =
     \<lparr>maxLevel = maxL, curLevel = 0, elementCount = 0, header = 0,
      heap = Map.empty(0 \<mapsto> newNode key0 val0 maxL), nextLoc = 1, rands = rs\<rparr>"

section \<open>Random levels\<close>

fun countOdd :: "nat \<Rightarrow> nat list \<Rightarrow> (nat \<times> nat list) res" where
  "countOdd k [] = Inl NoReturn"
| "countOdd k (r # rs) = (if r mod 2 \<noteq> 0 then countOdd (k + 1) rs else Inr (k, rs))"

definition getRandomLevel :: "('k, 'v) skiplist \<Rightarrow> (nat \<times> ('k, 'v) skiplist) res" where
  "getRandomLevel s =
     andThen (countOdd 1 (rands s)) (\<lambda>(k, rs).
       Inr (if k < maxLevel s then k else maxLevel s, s\<lparr>rands := rs\<rparr>))"

section \<open>Searching\<close>

text \<open>
  The inner loop \<^verbatim>\<open>while(curNode->forward_[i] && curNode->forward_[i]->getKey() < key)\<close>.
  Each round moves to another node; a walk with more rounds than there are
  locations ever allocated visits a node twice and never ends, so \<open>nextLoc\<close> rounds are all
  the rounds a terminating walk can make.
\<close>

fun walk :: "nat \<Rightarrow> ('k::linorder, 'v) heap \<Rightarrow> 'k \<Rightarrow> nat \<Rightarrow> nat \<Rightarrow> nat res" where
  "walk 0 h key i cur = Inl NoReturn"
| "walk (Suc n) h key i cur =
     andThen (getForward h cur i) (\<lambda>p.
       case p of
         None \<Rightarrow> Inr cur
       | Some nxt \<Rightarrow>
           andThen (derefOpt (h nxt)) (\<lambda>nd.
             if nkey nd < key then walk n h key i nxt else Inr cur))"

text \<open>
  The outer loop from level \<open>i\<close> down to level 0, which records in \<^verbatim>\<open>update\<close> the node
  where it leaves each level.  The result is the last node and \<^verbatim>\<open>update[0..i]\<close>.
\<close>

fun descend :: "nat \<Rightarrow> ('k::linorder, 'v) heap \<Rightarrow> 'k \<Rightarrow> nat \<Rightarrow> nat \<Rightarrow> (nat \<times> nat list) res" where
  "descend n h key 0 cur = andThen (walk n h key 0 cur) (\<lambda>c. Inr (c, [c]))"
| "descend n h key (Suc i) cur =
     andThen (walk n h key (Suc i) cur) (\<lambda>c.
       andThen (descend n h key i c) (\<lambda>(d, us). Inr (d, us @ [c])))"

definition searchElement :: "'k::linorder \<Rightarrow> ('k, 'v) skiplist \<Rightarrow> 'v option res" where
  \<comment> \<open>the Boolean result and the reference parameter \<open>val\<close> together\<close>
  "searchElement key s =
     andThen (descend (nextLoc s) (heap s) key (curLevel s) (header s)) (\<lambda>(c, _).
     andThen (getForward (heap s) c 0) (\<lambda>p.
       case p of
         None \<Rightarrow> Inr None
       | Some cur \<Rightarrow>
           andThen (derefOpt (heap s cur)) (\<lambda>nd.
             Inr (if nkey nd = key then Some (nvalue nd) else None))))"

section \<open>Insertion\<close>

text \<open>\<^verbatim>\<open>for(int i = 0; i <= radomLevel; i++)\<close>, over the recorded predecessors in order.\<close>

fun linkNode :: "('k, 'v) heap \<Rightarrow> nat \<Rightarrow> nat \<Rightarrow> nat list \<Rightarrow> ('k, 'v) heap res" where
  "linkNode h a i [] = Inr h"
| "linkNode h a i (u # us) =
     andThen (getForward h u i) (\<lambda>p.
     andThen (setForward h a i p) (\<lambda>h1.
     andThen (setForward h1 u i (Some a)) (\<lambda>h2.
       linkNode h2 a (Suc i) us)))"

definition insertElementNoBlock ::
  "'k::linorder \<Rightarrow> 'v \<Rightarrow> ('k, 'v) skiplist \<Rightarrow> (int \<times> ('k, 'v) skiplist) res" where
  "insertElementNoBlock key val s =
     andThen (descend (nextLoc s) (heap s) key (curLevel s) (header s)) (\<lambda>(c, update).
     andThen (getForward (heap s) c 0) (\<lambda>p.
     andThen (case p of None \<Rightarrow> Inr False
              | Some cur \<Rightarrow> andThen (derefOpt (heap s cur)) (\<lambda>nd. Inr (nkey nd = key))) (\<lambda>found.
       if found then Inr (1, s)
       else
         andThen (getRandomLevel s) (\<lambda>(radomLevel, s1).
         let update1 = (if radomLevel > curLevel s1
                        then update @ replicate (radomLevel - curLevel s1) (header s1) else update);
             s2 = (if radomLevel > curLevel s1 then s1\<lparr>curLevel := radomLevel\<rparr> else s1);
             (a, s3) = createNode key val radomLevel s2
         in andThen (linkNode (heap s3) a 0 (take (radomLevel + 1) update1)) (\<lambda>h.
              Inr (0, s3\<lparr>heap := h, elementCount := elementCount s3 + 1\<rparr>))))))"

definition insertElement ::
  "'k::linorder \<Rightarrow> 'v \<Rightarrow> ('k, 'v) skiplist \<Rightarrow> (int \<times> ('k, 'v) skiplist) res" where
  "insertElement key val s = insertElementNoBlock key val s"

section \<open>Deletion\<close>

text \<open>\<^verbatim>\<open>for(int i = 0; i <= curLevel_; i++)\<close> with its \<^verbatim>\<open>break\<close>.\<close>

fun unlinkNode :: "('k, 'v) heap \<Rightarrow> nat \<Rightarrow> nat \<Rightarrow> nat list \<Rightarrow> ('k, 'v) heap res" where
  "unlinkNode h a i [] = Inr h"
| "unlinkNode h a i (u # us) =
     andThen (getForward h u i) (\<lambda>p.
       if p \<noteq> Some a then Inr h
       else
         andThen (getForward h a i) (\<lambda>q.
         andThen (setForward h u i q) (\<lambda>h1. unlinkNode h1 a (Suc i) us)))"

text \<open>\<^verbatim>\<open>while (curLevel_ > 0 && !header_->forward_[curLevel_]) curLevel_--;\<close>\<close>

fun lowerLevel :: "('k, 'v) heap \<Rightarrow> nat \<Rightarrow> nat \<Rightarrow> nat res" where
  "lowerLevel h hdr 0 = Inr 0"
| "lowerLevel h hdr (Suc l) =
     andThen (getForward h hdr (Suc l)) (\<lambda>p.
       if p = None then lowerLevel h hdr l else Inr (Suc l))"

definition deleteElement :: "'k::linorder \<Rightarrow> ('k, 'v) skiplist \<Rightarrow> ('k, 'v) skiplist res" where
  "deleteElement key s =
     andThen (descend (nextLoc s) (heap s) key (curLevel s) (header s)) (\<lambda>(c, update).
     andThen (getForward (heap s) c 0) (\<lambda>p.
       case p of
         None \<Rightarrow> Inr s
       | Some cur \<Rightarrow>
           andThen (derefOpt (heap s cur)) (\<lambda>nd.
             if nkey nd \<noteq> key then Inr s
             else
               andThen (unlinkNode (heap s) cur 0 update) (\<lambda>h.
               andThen (lowerLevel h (header s) (curLevel s)) (\<lambda>l.
                 Inr (s\<lparr>heap := h(cur := None), curLevel := l,
                        elementCount := elementCount s - 1\<rparr>))))))"

definition insertSetElement ::
  "'k::linorder \<Rightarrow> 'v \<Rightarrow> ('k, 'v) skiplist \<Rightarrow> ('k, 'v) skiplist res" where
  "insertSetElement key val s =
     andThen (searchElement key s) (\<lambda>old.
     andThen (if old \<noteq> None then deleteElement key s else Inr s) (\<lambda>s1.
     andThen (insertElement key val s1) (\<lambda>(_, s2). Inr s2)))"

section \<open>Dump, load and destruction\<close>

text \<open>\<^verbatim>\<open>SkipListDump\<close>: the two vectors, and \<^verbatim>\<open>insert\<close> which appends to both.\<close>

type_synonym ('k, 'v) dump = "'k list \<times> 'v list"

definition dumpInsert :: "('k, 'v) node \<Rightarrow> ('k, 'v) dump \<Rightarrow> ('k, 'v) dump" where
  "dumpInsert nd d = (fst d @ [nkey nd], snd d @ [nvalue nd])"

fun dumpLoop ::
  "nat \<Rightarrow> ('k, 'v) heap \<Rightarrow> nat option \<Rightarrow> ('k, 'v) dump \<Rightarrow> ('k, 'v) dump res" where
  "dumpLoop n h None d = Inr d"
| "dumpLoop 0 h (Some a) d = Inl NoReturn"
| "dumpLoop (Suc n) h (Some a) d =
     andThen (derefOpt (h a)) (\<lambda>nd.
     andThen (getForward h a 0) (\<lambda>p. dumpLoop n h p (dumpInsert nd d)))"

definition collectDump :: "('k, 'v) skiplist \<Rightarrow> ('k, 'v) dump res" where
  "collectDump s =
     andThen (getForward (heap s) (header s) 0) (\<lambda>p. dumpLoop (nextLoc s) (heap s) p ([], []))"

text \<open>
  The text archive of the Boost library is a parameter: \<open>oar\<close> writes a dump object as a
  string, \<open>iar\<close> reads one back (\<open>None\<close> when it throws).
\<close>

definition dumpFile :: "(('k, 'v) dump \<Rightarrow> string) \<Rightarrow> ('k, 'v) skiplist \<Rightarrow> string res" where
  "dumpFile oar s = andThen (collectDump s) (\<lambda>d. Inr (oar d))"

fun loadLoop ::
  "'k::linorder list \<Rightarrow> 'v list \<Rightarrow> ('k, 'v) skiplist \<Rightarrow> ('k, 'v) skiplist res" where
  "loadLoop [] vs s = Inr s"
| "loadLoop (k # ks) [] s = Inl BadAccess"
| "loadLoop (k # ks) (v # vs) s =
     andThen (insertElementNoBlock k v s) (\<lambda>(_, s1). loadLoop ks vs s1)"

definition loadFile ::
  "(string \<Rightarrow> ('k::linorder, 'v) dump option) \<Rightarrow> string \<Rightarrow> ('k, 'v) skiplist
     \<Rightarrow> ('k, 'v) skiplist res" where
  "loadFile iar dumpStr s =
     (if dumpStr = [] then Inr s
      else case iar dumpStr of
             None \<Rightarrow> Inl ArchiveError
           | Some d \<Rightarrow> loadLoop (fst d) (snd d) s)"

text \<open>\<^verbatim>\<open>clear\<close> deletes the successor chain first, then the node; the destructor adds the header.\<close>

fun clearNodes :: "nat \<Rightarrow> ('k, 'v) heap \<Rightarrow> nat \<Rightarrow> ('k, 'v) heap res" where
  "clearNodes 0 h a = Inl NoReturn"
| "clearNodes (Suc n) h a =
     andThen (getForward h a 0) (\<lambda>p.
     andThen (case p of None \<Rightarrow> Inr h | Some b \<Rightarrow> clearNodes n h b) (\<lambda>h1.
     andThen (derefOpt (h1 a)) (\<lambda>_. Inr (h1(a := None)))))"

definition destroySkipList :: "('k, 'v) skiplist \<Rightarrow> ('k, 'v) heap res" where
  "destroySkipList s =
     andThen (getForward (heap s) (header s) 0) (\<lambda>p.
     andThen (case p of None \<Rightarrow> Inr (heap s) | Some a \<Rightarrow> clearNodes (nextLoc s) (heap s) a) (\<lambda>h.
     andThen (derefOpt (h (header s))) (\<lambda>_. Inr (h(header s := None)))))"

text \<open>\<^verbatim>\<open>displayList\<close>: the lines it prints, one per level, as lists of pairs.\<close>

fun displayLevel ::
  "nat \<Rightarrow> ('k, 'v) heap \<Rightarrow> nat \<Rightarrow> nat option \<Rightarrow> ('k \<times> 'v) list res" where
  "displayLevel n h i None = Inr []"
| "displayLevel 0 h i (Some a) = Inl NoReturn"
| "displayLevel (Suc n) h i (Some a) =
     andThen (derefOpt (h a)) (\<lambda>nd.
     andThen (getForward h a i) (\<lambda>p.
     andThen (displayLevel n h i p) (\<lambda>r. Inr ((nkey nd, nvalue nd) # r))))"

fun displayFrom :: "('k, 'v) skiplist \<Rightarrow> nat \<Rightarrow> ('k \<times> 'v) list list res" where
  "displayFrom s 0 =
     andThen (getForward (heap s) (header s) 0) (\<lambda>p.
     andThen (displayLevel (nextLoc s) (heap s) 0 p) (\<lambda>r. Inr [r]))"
| "displayFrom s (Suc i) =
     andThen (displayFrom s i) (\<lambda>rs.
     andThen (getForward (heap s) (header s) (Suc i)) (\<lambda>p.
     andThen (displayLevel (nextLoc s) (heap s) (Suc i) p) (\<lambda>r. Inr (rs @ [r]))))"

definition displayList :: "('k, 'v) skiplist \<Rightarrow> ('k \<times> 'v) list list res" where
  "displayList s = displayFrom s (curLevel s)"

end
