(* ===== verification/SkipListInv.thy ===== *)
theory SkipListInv
  imports SkipList
begin

text \<open>
  The shape invariant of the skip list and the facts its operations share: chains of next
  pointers per level, what one pointer assignment does to them, and where the search loop
  leaves each level.
\<close>

section \<open>Next pointers\<close>

definition nxt :: "('k, 'v) heap \<Rightarrow> nat \<Rightarrow> nat \<Rightarrow> nat option option" where
  "nxt h a i = (case h a of None \<Rightarrow> None
     | Some nd \<Rightarrow> if i < length (forward nd) then Some (forward nd ! i) else None)"

definition keyOf :: "('k, 'v) heap \<Rightarrow> nat \<Rightarrow> 'k" where
  "keyOf h a = nkey (the (h a))"

definition valOf :: "('k, 'v) heap \<Rightarrow> nat \<Rightarrow> 'v" where
  "valOf h a = nvalue (the (h a))"

definition lvlOf :: "('k, 'v) heap \<Rightarrow> nat \<Rightarrow> nat" where
  "lvlOf h a = nlevel (the (h a))"

definition putForward :: "('k, 'v) heap \<Rightarrow> nat \<Rightarrow> nat \<Rightarrow> nat option \<Rightarrow> ('k, 'v) heap" where
  "putForward h a i p = h(a \<mapsto> (the (h a))\<lparr>forward := (forward (the (h a)))[i := p]\<rparr>)"

text \<open>Two heaps with the same nodes up to where their pointers lead.\<close>

definition sameNodes :: "('k, 'v) heap \<Rightarrow> ('k, 'v) heap \<Rightarrow> bool" where
  "sameNodes h h' \<longleftrightarrow>
     (\<forall>b. map_option (\<lambda>nd. (nkey nd, nvalue nd, nlevel nd, length (forward nd))) (h' b) =
          map_option (\<lambda>nd. (nkey nd, nvalue nd, nlevel nd, length (forward nd))) (h b))"

lemma getForward_nxt: "getForward h a i = derefOpt (nxt h a i)"
  by (auto simp: getForward_def nxt_def split: option.splits)

lemma setForward_put: "nxt h a i \<noteq> None \<Longrightarrow> setForward h a i p = Inr (putForward h a i p)"
  by (auto simp: setForward_def nxt_def putForward_def split: option.splits if_splits)

lemma nxt_put:
  "nxt h a i \<noteq> None \<Longrightarrow> nxt (putForward h a i p) b j = (if b = a \<and> j = i then Some p else nxt h b j)"
  by (auto simp: nxt_def putForward_def split: option.splits if_splits)

lemma sameNodes_refl: "sameNodes h h"
  by (simp add: sameNodes_def)

lemma sameNodes_trans: "sameNodes h h' \<Longrightarrow> sameNodes h' h'' \<Longrightarrow> sameNodes h h''"
  by (simp add: sameNodes_def)

lemma sameNodes_put: "nxt h a i \<noteq> None \<Longrightarrow> sameNodes h (putForward h a i p)"
  by (auto simp: sameNodes_def nxt_def putForward_def split: option.splits if_splits)

lemma sameNodes_node:
  assumes "sameNodes h h'"
  shows "h' b = None \<longleftrightarrow> h b = None"
    and "h b \<noteq> None \<Longrightarrow> keyOf h' b = keyOf h b \<and> valOf h' b = valOf h b \<and> lvlOf h' b = lvlOf h b \<and>
           length (forward (the (h' b))) = length (forward (the (h b)))"
proof -
  have eq: "map_option (\<lambda>nd. (nkey nd, nvalue nd, nlevel nd, length (forward nd))) (h' b) =
          map_option (\<lambda>nd. (nkey nd, nvalue nd, nlevel nd, length (forward nd))) (h b)"
    using assms by (simp add: sameNodes_def)
  then show "h' b = None \<longleftrightarrow> h b = None" by (cases "h b"; cases "h' b") auto
  from eq show "h b \<noteq> None \<Longrightarrow> keyOf h' b = keyOf h b \<and> valOf h' b = valOf h b \<and>
      lvlOf h' b = lvlOf h b \<and> length (forward (the (h' b))) = length (forward (the (h b)))"
    by (cases "h b"; cases "h' b") (auto simp: keyOf_def valOf_def lvlOf_def)
qed

lemma sameNodes_dom: "sameNodes h h' \<Longrightarrow> dom h' = dom h"
  by (simp add: dom_def sameNodes_node(1))

section \<open>Chains\<close>

text \<open>\<open>links h i a xs\<close>: the level-\<open>i\<close> pointers lead from \<open>a\<close> through \<open>xs\<close> to null;
  \<open>path h i a xs\<close>: they lead from \<open>a\<close> through \<open>xs\<close>.\<close>

primrec links :: "('k, 'v) heap \<Rightarrow> nat \<Rightarrow> nat \<Rightarrow> nat list \<Rightarrow> bool" where
  "links h i a [] \<longleftrightarrow> nxt h a i = Some None"
| "links h i a (b # bs) \<longleftrightarrow> nxt h a i = Some (Some b) \<and> links h i b bs"

primrec path :: "('k, 'v) heap \<Rightarrow> nat \<Rightarrow> nat \<Rightarrow> nat list \<Rightarrow> bool" where
  "path h i a [] \<longleftrightarrow> True"
| "path h i a (b # bs) \<longleftrightarrow> nxt h a i = Some (Some b) \<and> path h i b bs"

lemma links_append: "links h i a (xs @ ys) \<longleftrightarrow> path h i a xs \<and> links h i (last (a # xs)) ys"
  by (induction xs arbitrary: a) auto

lemma links_cong:
  "(\<And>b. b \<in> insert a (set xs) \<Longrightarrow> nxt h' b i = nxt h b i) \<Longrightarrow> links h' i a xs = links h i a xs"
  by (induction xs arbitrary: a) auto

lemma path_cong:
  "(\<And>b. b \<in> set (butlast (a # xs)) \<Longrightarrow> nxt h' b i = nxt h b i) \<Longrightarrow> path h' i a xs = path h i a xs"
proof (induction xs arbitrary: a)
  case (Cons b bs)
  then have "path h' i b bs = path h i b bs" by auto
  with Cons.prems[of a] show ?case by simp
qed simp

lemma links_nxt_Some: "links h i a xs \<Longrightarrow> b \<in> insert a (set xs) \<Longrightarrow> nxt h b i \<noteq> None"
  by (induction xs arbitrary: a) auto

lemma links_nxt_hd: "links h i a xs \<Longrightarrow> nxt h a i = Some (case xs of [] \<Rightarrow> None | b # _ \<Rightarrow> Some b)"
  by (cases xs) auto

lemma links_redirect:
  \<comment> \<open>a new start with the same first link, the rest of the chain untouched\<close>
  assumes "links h i p zs" and "nxt h' a i = nxt h p i"
    and "\<And>b. b \<in> set zs \<Longrightarrow> nxt h' b i = nxt h b i"
  shows "links h' i a zs"
proof (cases zs)
  case (Cons b bs)
  then have "links h' i b bs = links h i b bs" using assms(3) by (intro links_cong) auto
  with Cons assms(1,2) show ?thesis by simp
qed (use assms in simp)

lemma walk_links:
  assumes "links h i a zs" and "\<forall>b\<in>set zs. h b \<noteq> None" and "length zs < n"
  shows "walk n h k i a = Inr (last (a # takeWhile (\<lambda>b. keyOf h b < k) zs))"
  using assms
proof (induction zs arbitrary: a n)
  case Nil
  then show ?case by (cases n) (auto simp: getForward_nxt)
next
  case (Cons b bs)
  then obtain m where n: "n = Suc m" by (cases n) auto
  from Cons.prems obtain nd where nd: "h b = Some nd" by auto
  from Cons n have "walk m h k i b = Inr (last (b # takeWhile (\<lambda>b. keyOf h b < k) bs))"
    by simp
  with Cons.prems n nd show ?case by (simp add: getForward_nxt keyOf_def)
qed

section \<open>The invariant\<close>

definition tower :: "('k, 'v) heap \<Rightarrow> nat list \<Rightarrow> nat \<Rightarrow> nat list" where
  "tower h xs i = filter (\<lambda>a. i \<le> lvlOf h a) xs"

text \<open>
  \<open>sl_inv s xs\<close>: the nodes of the list are \<open>xs\<close> in order; level \<open>i\<close> links exactly those with
  at least that level; keys increase strictly; every array has its node's length; the
  heap holds these nodes and the header and nothing else; the counters are right.
\<close>

definition sl_inv :: "('k::linorder, 'v) skiplist \<Rightarrow> nat list \<Rightarrow> bool" where
  "sl_inv s xs \<longleftrightarrow>
     distinct (header s # xs) \<and>
     dom (heap s) = insert (header s) (set xs) \<and>
     (\<forall>a\<in>dom (heap s). a < nextLoc s) \<and>
     (\<forall>a\<in>dom (heap s). length (forward (the (heap s a))) = Suc (lvlOf (heap s) a)) \<and>
     lvlOf (heap s) (header s) = maxLevel s \<and>
     (\<forall>a\<in>set xs. lvlOf (heap s) a \<le> curLevel s) \<and>
     curLevel s \<le> maxLevel s \<and>
     (\<forall>i\<le>maxLevel s. links (heap s) i (header s) (tower (heap s) xs i)) \<and>
     sorted_wrt (<) (map (keyOf (heap s)) xs) \<and>
     elementCount s = length xs \<and>
     (0 < curLevel s \<longrightarrow> (\<exists>a\<in>set xs. lvlOf (heap s) a = curLevel s))"

definition sl_wf :: "('k::linorder, 'v) skiplist \<Rightarrow> bool" where
  "sl_wf s \<longleftrightarrow> (\<exists>xs. sl_inv s xs)"

text \<open>The abstraction: the map the level-0 chain holds, and its keys in order.\<close>

definition lookupKV :: "('k, 'v) skiplist \<Rightarrow> 'k \<Rightarrow> 'v option" where
  "lookupKV s = (case collectDump s of Inl _ \<Rightarrow> Map.empty | Inr d \<Rightarrow> map_of (zip (fst d) (snd d)))"

definition kvList :: "('k, 'v) heap \<Rightarrow> nat list \<Rightarrow> ('k \<times> 'v) list" where
  "kvList h xs = map (\<lambda>a. (keyOf h a, valOf h a)) xs"

lemma tower_append: "tower h (xs @ ys) i = tower h xs i @ tower h ys i"
  by (simp add: tower_def)

lemma tower_Cons:
  "tower h (c # xs) i = (if i \<le> lvlOf h c then c # tower h xs i else tower h xs i)"
  by (simp add: tower_def)

lemma set_tower: "set (tower h xs i) \<subseteq> set xs"
  by (auto simp: tower_def)

lemma tower_cong: "(\<And>a. a \<in> set xs \<Longrightarrow> lvlOf h' a = lvlOf h a) \<Longrightarrow> tower h' xs i = tower h xs i"
  by (auto simp: tower_def intro: filter_cong)

lemma tower_0: "tower h xs 0 = xs"
  by (simp add: tower_def)

named_theorems slI \<open>consequences of the skip list invariant\<close>

lemma sl_inv_links [slI]: "sl_inv s xs \<Longrightarrow> i \<le> maxLevel s \<Longrightarrow> links (heap s) i (header s) (tower (heap s) xs i)"
  by (simp add: sl_inv_def)

lemma sl_inv_sorted [slI]: "sl_inv s xs \<Longrightarrow> sorted_wrt (<) (map (keyOf (heap s)) xs)"
  by (simp add: sl_inv_def)

lemma sl_inv_distinct [slI]: "sl_inv s xs \<Longrightarrow> distinct (header s # xs)"
  by (simp add: sl_inv_def)

lemma sl_inv_alloc [slI]: "sl_inv s xs \<Longrightarrow> a \<in> insert (header s) (set xs) \<Longrightarrow> heap s a \<noteq> None"
  by (auto simp: sl_inv_def set_eq_iff dom_def)

lemma sl_invI:
  assumes "distinct (header s # xs)" "dom (heap s) = insert (header s) (set xs)"
    and "\<And>a. a \<in> insert (header s) (set xs) \<Longrightarrow> a < nextLoc s"
    and "\<And>a. a \<in> insert (header s) (set xs) \<Longrightarrow>
           length (forward (the (heap s a))) = Suc (lvlOf (heap s) a)"
    and "lvlOf (heap s) (header s) = maxLevel s"
    and "\<And>a. a \<in> set xs \<Longrightarrow> lvlOf (heap s) a \<le> curLevel s" "curLevel s \<le> maxLevel s"
    and "\<And>i. i \<le> maxLevel s \<Longrightarrow> links (heap s) i (header s) (tower (heap s) xs i)"
    and "sorted_wrt (<) (map (keyOf (heap s)) xs)" "elementCount s = length xs"
    and "0 < curLevel s \<Longrightarrow> \<exists>a\<in>set xs. lvlOf (heap s) a = curLevel s"
  shows "sl_inv s xs"
  unfolding sl_inv_def using assms by blast

lemma sl_invD:
  assumes "sl_inv s xs"
  shows "\<And>a. a \<in> insert (header s) (set xs) \<Longrightarrow> a < nextLoc s"
    and "\<And>a. a \<in> insert (header s) (set xs) \<Longrightarrow>
           length (forward (the (heap s a))) = Suc (lvlOf (heap s) a)"
    and "lvlOf (heap s) (header s) = maxLevel s"
    and "\<And>a. a \<in> set xs \<Longrightarrow> lvlOf (heap s) a \<le> curLevel s"
    and "curLevel s \<le> maxLevel s" and "elementCount s = length xs"
    and "dom (heap s) = insert (header s) (set xs)"
    and "0 < curLevel s \<Longrightarrow> \<exists>a\<in>set xs. lvlOf (heap s) a = curLevel s"
  using assms unfolding sl_inv_def by blast+

lemma sl_inv_length: "sl_inv s xs \<Longrightarrow> length xs < nextLoc s"
proof -
  assume inv: "sl_inv s xs"
  then have "set (header s # xs) \<subseteq> {..<nextLoc s}" by (auto simp: sl_inv_def)
  then have "card (set (header s # xs)) \<le> nextLoc s"
    using card_mono[of "{..<nextLoc s}"] by fastforce
  with inv show ?thesis by (simp add: sl_inv_def distinct_card)
qed

lemma sl_inv_nxt_Some:
  assumes "sl_inv s xs" and "a \<in> insert (header s) (set xs)" and "i \<le> lvlOf (heap s) a"
  shows "nxt (heap s) a i \<noteq> None"
proof -
  obtain nd where nd: "heap s a = Some nd" using sl_inv_alloc[OF assms(1,2)] by auto
  then have "length (forward nd) = Suc (lvlOf (heap s) a)"
    using assms(1) unfolding sl_inv_def by (metis domI option.sel)
  with nd assms(3) show ?thesis by (simp add: nxt_def)
qed

lemma sl_inv_sorted_tower: "sl_inv s xs \<Longrightarrow> sorted_wrt (<) (map (keyOf (heap s)) (tower (heap s) xs i))"
  unfolding tower_def
  by (metis (no_types, lifting) sl_inv_sorted filter_map sorted_wrt_filter sorted_wrt_map)

section \<open>Where the search leaves each level\<close>

definition below :: "('k::linorder, 'v) heap \<Rightarrow> nat list \<Rightarrow> 'k \<Rightarrow> nat list" where
  "below h xs k = filter (\<lambda>a. keyOf h a < k) xs"

definition rest :: "('k::linorder, 'v) heap \<Rightarrow> nat list \<Rightarrow> 'k \<Rightarrow> nat list" where
  "rest h xs k = dropWhile (\<lambda>a. keyOf h a < k) xs"

definition pred :: "('k::linorder, 'v) skiplist \<Rightarrow> nat list \<Rightarrow> 'k \<Rightarrow> nat \<Rightarrow> nat" where
  "pred s xs k i = last (header s # tower (heap s) (below (heap s) xs k) i)"

lemma below_rest: "sl_inv s xs \<Longrightarrow> xs = below (heap s) xs k @ rest (heap s) xs k"
  unfolding below_def rest_def
  by (metis sl_inv_sorted sorted_wrt_less_takeWhile takeWhile_dropWhile_id)

lemma tower_below: "tower h (below h xs k) i = filter (\<lambda>a. keyOf h a < k) (tower h xs i)"
  by (simp add: tower_def below_def conj_commute)

lemma pred_cases:
  "pred s xs k i = header s \<or>
   pred s xs k i \<in> set xs \<and> keyOf (heap s) (pred s xs k i) < k \<and> i \<le> lvlOf (heap s) (pred s xs k i)"
proof -
  have "pred s xs k i \<in> insert (header s) (set (tower (heap s) (below (heap s) xs k) i))"
    unfolding pred_def using last_in_set[of "header s # tower (heap s) (below (heap s) xs k) i"] by simp
  then show ?thesis by (auto simp: tower_def below_def)
qed

text \<open>A list at whose node a search stands splits there: the nodes before it were passed.\<close>

lemma walk_from:
  assumes "cur = hd0 \<or> cur \<in> set T \<and> P cur"
  obtains as zs where "hd0 # T = as @ cur # zs"
    and "filter P T = filter P (tl (as @ [cur])) @ filter P zs"
    and "last (hd0 # filter P (tl (as @ [cur]))) = cur"
proof (cases "cur = hd0")
  case True
  show thesis by (rule that[of "[]" T]) (use True in auto)
next
  case False
  with assms have "cur \<in> set T" by simp
  then obtain bs zs where "T = bs @ cur # zs" by (meson split_list)
  with False assms show thesis by (intro that[of "hd0 # bs" zs]) auto
qed

lemma walk_pred:
  assumes inv: "sl_inv s xs" and i: "i \<le> maxLevel s"
    and cur: "cur = header s \<or> cur \<in> set xs \<and> keyOf (heap s) cur < k \<and> i \<le> lvlOf (heap s) cur"
  shows "walk (nextLoc s) (heap s) k i cur = Inr (pred s xs k i)"
proof -
  let ?T = "tower (heap s) xs i" and ?lt = "\<lambda>b. keyOf (heap s) b < k"
  have links: "links (heap s) i (header s) ?T" using inv i by (rule sl_inv_links)
  have len: "length ?T < nextLoc s"
    using sl_inv_length[OF inv] length_filter_le[of _ xs] le_less_trans unfolding tower_def by blast
  have sorted: "sorted_wrt (<) (map (keyOf (heap s)) ?T)" using inv by (rule sl_inv_sorted_tower)
  obtain as zs where split: "header s # ?T = as @ cur # zs"
    and pre: "filter ?lt ?T = filter ?lt (tl (as @ [cur])) @ filter ?lt zs"
    and last: "last (header s # filter ?lt (tl (as @ [cur]))) = cur"
    by (rule walk_from[of cur "header s" ?T ?lt]) (use cur in \<open>auto simp: tower_def\<close>)
  have linkz: "links (heap s) i cur zs"
  proof (cases as)
    case Nil
    with split links show ?thesis by simp
  next
    case (Cons a0 as')
    with split have "?T = (as' @ [cur]) @ zs" by simp
    with links have "links (heap s) i (last (header s # as' @ [cur])) zs"
      by (simp only: links_append)
    then show ?thesis by simp
  qed
  have zsT: "\<exists>bs. ?T = bs @ zs" using split by (cases as) auto
  then have "sorted_wrt (<) (map (keyOf (heap s)) zs)"
    using sorted by (auto simp: sorted_wrt_append)
  then have tw: "takeWhile ?lt zs = filter ?lt zs" by (rule sorted_wrt_less_takeWhile)
  have sub: "set zs \<subseteq> set xs" using zsT set_tower[of "heap s" xs i] by auto
  have "\<forall>b\<in>set zs. heap s b \<noteq> None" using sub sl_inv_alloc[OF inv] by blast
  moreover have "length zs < nextLoc s" using zsT len by auto
  ultimately have "walk (nextLoc s) (heap s) k i cur = Inr (last (cur # filter ?lt zs))"
    using walk_links[OF linkz, of "nextLoc s" k] by (simp only: tw)
  moreover have "pred s xs k i = last (cur # filter ?lt zs)"
  proof (cases "filter ?lt zs")
    case Nil
    with pre last show ?thesis by (simp add: pred_def tower_below)
  next
    case (Cons b bs)
    with pre show ?thesis by (simp add: pred_def tower_below)
  qed
  ultimately show ?thesis by simp
qed

lemma descend_pred:
  assumes "sl_inv s xs" and "i \<le> maxLevel s"
    and "cur = header s \<or> cur \<in> set xs \<and> keyOf (heap s) cur < k \<and> i \<le> lvlOf (heap s) cur"
  shows "descend (nextLoc s) (heap s) k i cur = Inr (pred s xs k 0, map (pred s xs k) [0..<Suc i])"
  using assms
proof (induction i arbitrary: cur)
  case 0
  then show ?case by (simp add: walk_pred)
next
  case (Suc i)
  have "descend (nextLoc s) (heap s) k i (pred s xs k (Suc i)) =
      Inr (pred s xs k 0, map (pred s xs k) [0..<Suc i])"
    using Suc.IH Suc.prems(1,2) pred_cases[of s xs k "Suc i"] by auto
  with walk_pred[OF Suc.prems] show ?case by simp
qed

lemma descend_top:
  "sl_inv s xs \<Longrightarrow> descend (nextLoc s) (heap s) k (curLevel s) (header s) =
     Inr (pred s xs k 0, map (pred s xs k) [0..<Suc (curLevel s)])"
  by (rule descend_pred) (auto simp: sl_inv_def)

text \<open>The link that leaves the predecessor leads to the first node not below the key.\<close>

lemma links_pred:
  assumes "sl_inv s xs" and "i \<le> maxLevel s"
  shows "path (heap s) i (header s) (tower (heap s) (below (heap s) xs k) i)"
    and "links (heap s) i (pred s xs k i) (tower (heap s) (rest (heap s) xs k) i)"
proof -
  have "tower (heap s) xs i =
      tower (heap s) (below (heap s) xs k) i @ tower (heap s) (rest (heap s) xs k) i"
    using below_rest[OF assms(1), of k] by (metis tower_append)
  with sl_inv_links[OF assms] show
    "path (heap s) i (header s) (tower (heap s) (below (heap s) xs k) i)"
    "links (heap s) i (pred s xs k i) (tower (heap s) (rest (heap s) xs k) i)"
    by (simp_all add: links_append pred_def)
qed

lemma rest_hd:
  assumes inv: "sl_inv s xs" and r: "rest (heap s) xs k = c # zs"
  shows "c \<in> set xs" "k \<le> keyOf (heap s) c" "\<forall>z\<in>set zs. keyOf (heap s) c < keyOf (heap s) z"
    and "k \<in> keyOf (heap s) ` set xs \<longleftrightarrow> keyOf (heap s) c = k"
proof -
  have xs: "xs = below (heap s) xs k @ c # zs" using below_rest[OF inv, of k] r by simp
  then show c: "c \<in> set xs" by (metis in_set_conv_decomp)
  show le: "k \<le> keyOf (heap s) c"
    using r hd_dropWhile[of "\<lambda>a. keyOf (heap s) a < k" xs] unfolding rest_def by (metis list.discI list.sel(1) not_less)
  have "sorted_wrt (<) (map (keyOf (heap s)) (below (heap s) xs k @ c # zs))"
    using sl_inv_sorted[OF inv] xs by simp
  then show gt: "\<forall>z\<in>set zs. keyOf (heap s) c < keyOf (heap s) z"
    by (auto simp: sorted_wrt_append)
  have "keyOf (heap s) c = k" if "a \<in> set xs" "keyOf (heap s) a = k" for a
  proof -
    have "a \<notin> set (below (heap s) xs k)" using that by (auto simp: below_def)
    then have "a = c \<or> a \<in> set zs" using that xs by (metis Un_iff set_ConsD set_append)
    with gt le that show ?thesis by force
  qed
  with c show "k \<in> keyOf (heap s) ` set xs \<longleftrightarrow> keyOf (heap s) c = k" by blast
qed

lemma rest_Nil:
  assumes "sl_inv s xs" and "rest (heap s) xs k = []"
  shows "k \<notin> keyOf (heap s) ` set xs"
proof -
  from assms have "set xs = set (below (heap s) xs k)" using below_rest[of s xs k] by simp
  then have "\<forall>a\<in>set xs. keyOf (heap s) a < k" by (simp add: below_def) blast
  then show ?thesis by (metis image_iff less_irrefl)
qed

end
