(* ===== verification/SkipListOps.thy ===== *)
theory SkipListOps
  imports SkipListInv
begin

text \<open>
  What each operation of the skip list does to the nodes: lookup and traversal, linking and
  unlinking, the new invariant and the new contents.
\<close>

section \<open>Lookup and traversal\<close>

lemma pred_forward:
  assumes "sl_inv s xs"
  shows "getForward (heap s) (pred s xs k 0) 0 =
      Inr (case rest (heap s) xs k of [] \<Rightarrow> None | c # _ \<Rightarrow> Some c)"
  using links_nxt_hd[OF links_pred(2)[OF assms, of 0 k]] by (simp add: getForward_nxt tower_0)

lemma dumpLoop_links:
  assumes "links h 0 a (c # xs)" and "\<forall>b\<in>set (c # xs). h b \<noteq> None" and "length xs < n"
  shows "dumpLoop n h (Some c) d = Inr (fst d @ map (keyOf h) (c # xs), snd d @ map (valOf h) (c # xs))"
  using assms
proof (induction xs arbitrary: a c n d)
  case Nil
  then show ?case
    by (cases n) (auto simp: getForward_nxt dumpInsert_def keyOf_def valOf_def)
next
  case (Cons b bs)
  then obtain m nd where n: "n = Suc m" and nd: "h c = Some nd" by (cases n) auto
  have "dumpLoop m h (Some b) (dumpInsert nd d) =
      Inr (fst (dumpInsert nd d) @ map (keyOf h) (b # bs), snd (dumpInsert nd d) @ map (valOf h) (b # bs))"
    using Cons.prems n by (intro Cons.IH[of c]) auto
  with Cons.prems n nd show ?case
    by (simp add: getForward_nxt dumpInsert_def keyOf_def valOf_def)
qed

lemma collectDump_eq:
  assumes inv: "sl_inv s xs"
  shows "collectDump s = Inr (map (keyOf (heap s)) xs, map (valOf (heap s)) xs)"
proof -
  have l: "links (heap s) 0 (header s) xs" using sl_inv_links[OF inv, of 0] by (simp add: tower_0)
  show ?thesis
  proof (cases xs)
    case Nil
    with l show ?thesis by (simp add: collectDump_def getForward_nxt)
  next
    case (Cons c cs)
    moreover have "\<forall>b\<in>set xs. heap s b \<noteq> None" using sl_inv_alloc[OF inv] by blast
    ultimately show ?thesis
      using l sl_inv_length[OF inv] dumpLoop_links[of "heap s" "header s" c cs "nextLoc s" "([], [])"]
      by (simp add: collectDump_def getForward_nxt)
  qed
qed

lemma lookupKV_map_of: "sl_inv s xs \<Longrightarrow> lookupKV s = map_of (kvList (heap s) xs)"
  by (simp add: lookupKV_def collectDump_eq kvList_def zip_map_map zip_same_conv_map comp_def)

lemma map_fst_kvList: "map fst (kvList h xs) = map (keyOf h) xs"
  by (simp add: kvList_def)

lemma kvList_distinct: "sl_inv s xs \<Longrightarrow> distinct (map fst (kvList (heap s) xs))"
  using sl_inv_sorted strict_sorted_iff by (auto simp: map_fst_kvList)

lemma lookupKV_in:
  assumes "sl_inv s xs" and "c \<in> set xs"
  shows "lookupKV s (keyOf (heap s) c) = Some (valOf (heap s) c)"
  unfolding lookupKV_map_of[OF assms(1)]
  by (rule map_of_is_SomeI[OF kvList_distinct[OF assms(1)]]) (use assms(2) in \<open>auto simp: kvList_def\<close>)

lemma lookupKV_notin:
  assumes "sl_inv s xs" and "k \<notin> keyOf (heap s) ` set xs"
  shows "lookupKV s k = None"
  using assms(2) unfolding lookupKV_map_of[OF assms(1)]
  by (auto simp: map_of_eq_None_iff kvList_def image_image)

lemma lookupKV_rest:
  assumes inv: "sl_inv s xs"
  shows "lookupKV s k = (case rest (heap s) xs k of [] \<Rightarrow> None
     | c # _ \<Rightarrow> if keyOf (heap s) c = k then Some (valOf (heap s) c) else None)"
proof (cases "rest (heap s) xs k")
  case Nil
  with rest_Nil[OF inv] lookupKV_notin[OF inv] show ?thesis by auto
next
  case (Cons c zs)
  with rest_hd[OF inv Cons] lookupKV_in[OF inv] lookupKV_notin[OF inv] show ?thesis by auto
qed

lemma searchElement_eq:
  assumes inv: "sl_inv s xs"
  shows "searchElement k s = Inr (lookupKV s k)"
proof (cases "rest (heap s) xs k")
  case Nil
  then show ?thesis
    by (simp add: searchElement_def descend_top[OF inv] pred_forward[OF inv] lookupKV_rest[OF inv])
next
  case (Cons c zs)
  then obtain nd where "heap s c = Some nd" using rest_hd(1)[OF inv Cons] sl_inv_alloc[OF inv] by blast
  with Cons show ?thesis
    by (simp add: searchElement_def descend_top[OF inv] pred_forward[OF inv] lookupKV_rest[OF inv]
        keyOf_def valOf_def)
qed

section \<open>Linking a new node\<close>

lemma linkNode_steps:
  assumes "\<forall>j<length us. us ! j \<noteq> a \<and> nxt h (us ! j) (i + j) \<noteq> None \<and> nxt h a (i + j) \<noteq> None"
  shows "\<exists>h'. linkNode h a i us = Inr h' \<and> sameNodes h h' \<and>
    (\<forall>b j. nxt h' b j =
       (if i \<le> j \<and> j < i + length us
        then if b = us ! (j - i) then Some (Some a)
             else if b = a then nxt h (us ! (j - i)) j else nxt h b j
        else nxt h b j))"
  using assms
proof (induction us arbitrary: i h)
  case Nil
  then show ?case by (auto simp: sameNodes_refl)
next
  case (Cons u us)
  from Cons.prems have u: "u \<noteq> a" "nxt h u i \<noteq> None" "nxt h a i \<noteq> None" by force+
  then obtain p where p: "nxt h u i = Some p" by auto
  define h1 where "h1 = putForward h a i p"
  define h2 where "h2 = putForward h1 u i (Some a)"
  have n1: "nxt h1 b j = (if b = a \<and> j = i then Some p else nxt h b j)" for b j
    using u(3) by (simp add: h1_def nxt_put)
  with u have n2: "nxt h2 b j =
      (if b = u \<and> j = i then Some (Some a) else if b = a \<and> j = i then Some p else nxt h b j)" for b j
    unfolding h2_def by (subst nxt_put) auto
  have same: "sameNodes h h2"
    unfolding h2_def h1_def using u n1 sameNodes_put[of h a i p] sameNodes_put[of h1 u i "Some a"]
    by (auto simp: h1_def intro: sameNodes_trans)
  have "\<forall>j<length us. us ! j \<noteq> a \<and> nxt h2 (us ! j) (Suc i + j) \<noteq> None \<and> nxt h2 a (Suc i + j) \<noteq> None"
    using Cons.prems by (force simp: n2)
  from Cons.IH[OF this] obtain h' where h': "linkNode h2 a (Suc i) us = Inr h'" "sameNodes h2 h'"
    and n': "\<And>b j. nxt h' b j =
       (if Suc i \<le> j \<and> j < Suc i + length us
        then if b = us ! (j - Suc i) then Some (Some a)
             else if b = a then nxt h2 (us ! (j - Suc i)) j else nxt h2 b j
        else nxt h2 b j)" by blast
  have "linkNode h a i (u # us) = Inr h'"
    using h'(1) u n1 by (simp add: getForward_nxt p setForward_put h1_def[symmetric] h2_def[symmetric])
  moreover have "nxt h' b j =
       (if i \<le> j \<and> j < i + length (u # us)
        then if b = (u # us) ! (j - i) then Some (Some a)
             else if b = a then nxt h ((u # us) ! (j - i)) j else nxt h b j
        else nxt h b j)" for b j
  proof (cases "j = i")
    case True
    with p u show ?thesis by (simp add: n' n2)
  next
    case False
    then have "Suc i \<le> j \<Longrightarrow> (u # us) ! (j - i) = us ! (j - Suc i)" by (simp add: nth_Cons')
    with False show ?thesis by (auto simp: n' n2)
  qed
  ultimately show ?case using same h'(2) sameNodes_trans by blast
qed

lemma unlinkNode_steps:
  assumes "\<forall>j<length us. us ! j \<noteq> a \<and> nxt h (us ! j) (i + j) \<noteq> None \<and>
      (nxt h (us ! j) (i + j) = Some (Some a) \<longleftrightarrow> i + j \<le> m)"
    and "\<forall>j\<le>m. nxt h a j \<noteq> None"
  shows "\<exists>h'. unlinkNode h a i us = Inr h' \<and> sameNodes h h' \<and>
    (\<forall>b j. nxt h' b j =
       (if i \<le> j \<and> j < i + length us \<and> j \<le> m \<and> b = us ! (j - i) then nxt h a j else nxt h b j))"
  using assms
proof (induction us arbitrary: i h)
  case Nil
  then show ?case by (auto simp: sameNodes_refl)
next
  case (Cons u us)
  from Cons.prems have u: "u \<noteq> a" "nxt h u i \<noteq> None" "nxt h u i = Some (Some a) \<longleftrightarrow> i \<le> m" by force+
  show ?case
  proof (cases "i \<le> m")
    case False
    with u obtain p where "nxt h u i = Some p" "p \<noteq> Some a" by auto
    with False show ?thesis by (auto simp: getForward_nxt sameNodes_refl)
  next
    case True
    with Cons.prems(2) obtain q where q: "nxt h a i = Some q" by auto
    define h1 where "h1 = putForward h u i q"
    have n1: "nxt h1 b j = (if b = u \<and> j = i then Some q else nxt h b j)" for b j
      using u(2) by (simp add: h1_def nxt_put)
    have same: "sameNodes h h1" using u(2) by (simp add: h1_def sameNodes_put)
    have "\<forall>j<length us. us ! j \<noteq> a \<and> nxt h1 (us ! j) (Suc i + j) \<noteq> None \<and>
        (nxt h1 (us ! j) (Suc i + j) = Some (Some a) \<longleftrightarrow> Suc i + j \<le> m)"
      using Cons.prems(1) by (force simp: n1)
    moreover have "\<forall>j\<le>m. nxt h1 a j \<noteq> None" using Cons.prems(2) u(1) by (simp add: n1)
    ultimately obtain h' where h': "unlinkNode h1 a (Suc i) us = Inr h'" "sameNodes h1 h'"
      and n': "\<And>b j. nxt h' b j =
        (if Suc i \<le> j \<and> j < Suc i + length us \<and> j \<le> m \<and> b = us ! (j - Suc i)
         then nxt h1 a j else nxt h1 b j)" using Cons.IH[of h1 "Suc i"] by blast
    have "unlinkNode h a i (u # us) = Inr h'"
      using h'(1) u True q by (simp add: getForward_nxt setForward_put h1_def[symmetric])
    moreover have "nxt h' b j =
        (if i \<le> j \<and> j < i + length (u # us) \<and> j \<le> m \<and> b = (u # us) ! (j - i)
         then nxt h a j else nxt h b j)" for b j
    proof (cases "j = i")
      case True
      with q \<open>i \<le> m\<close> show ?thesis by (simp add: n' n1)
    next
      case False
      then have "Suc i \<le> j \<Longrightarrow> (u # us) ! (j - i) = us ! (j - Suc i)" by (simp add: nth_Cons')
      with False u(1) show ?thesis by (auto simp: n' n1)
    qed
    ultimately show ?thesis using same h'(2) sameNodes_trans by blast
  qed
qed

lemma lowerLevel_spec:
  assumes "\<forall>j\<le>l. nxt h hdr j \<noteq> None"
  shows "\<exists>l'. lowerLevel h hdr l = Inr l' \<and> l' \<le> l \<and>
    (\<forall>j. l' < j \<and> j \<le> l \<longrightarrow> nxt h hdr j = Some None) \<and> (0 < l' \<longrightarrow> nxt h hdr l' \<noteq> Some None)"
  using assms
proof (induction l)
  case (Suc l)
  then obtain p where p: "nxt h hdr (Suc l) = Some p" by auto
  from Suc obtain l' where l': "lowerLevel h hdr l = Inr l'" "l' \<le> l"
    "\<forall>j. l' < j \<and> j \<le> l \<longrightarrow> nxt h hdr j = Some None" "0 < l' \<longrightarrow> nxt h hdr l' \<noteq> Some None" by auto
  show ?case
  proof (cases p)
    case None
    with p l' have "\<forall>j. l' < j \<and> j \<le> Suc l \<longrightarrow> nxt h hdr j = Some None" by (auto simp: le_Suc_eq)
    with None p l' show ?thesis by (simp add: getForward_nxt)
  next
    case (Some b)
    with p show ?thesis by (auto simp: getForward_nxt)
  qed
qed simp

end
