(* ===== verification/SkipListCorrect.thy ===== *)
theory SkipListCorrect
  imports SkipListOps
begin

text \<open>
  Correctness of the skip list: every operation returns on a well-formed list, keeps the
  shape invariant, and acts on the map the list represents as the operation of a map.
\<close>

section \<open>Insertion\<close>

text \<open>
  Of a heap \<open>h'\<close> with a new node \<open>a\<close> of level \<open>rl\<close> linked after the predecessors of \<open>k\<close>:
  its chains and the new invariant.
\<close>

text \<open>A level stays linked when its pointers change only at the predecessor, which now leads to the new node.\<close>

lemma path_redirect:
  assumes "distinct (hd0 # Y)" and "path h j hd0 Y" and "p = last (hd0 # Y)"
    and "\<And>b. b \<in> insert hd0 (set Y) \<Longrightarrow> b \<noteq> p \<Longrightarrow> nxt h' b j = nxt h b j"
  shows "path h' j hd0 Y"
proof -
  have "path h' j hd0 Y = path h j hd0 Y"
  proof (rule path_cong)
    fix b assume b: "b \<in> set (butlast (hd0 # Y))"
    then have "b \<noteq> p"
      unfolding assms(3) using assms(1) by (metis distinct_append distinct_butlast not_distinct_conv_prefix
          append_butlast_last_id append_Cons list.distinct(1) disjoint_iff list.set_intros(1))
    moreover have "b \<in> insert hd0 (set Y)" using in_set_butlastD[OF b] by simp
    ultimately show "nxt h' b j = nxt h b j" using assms(4) by blast
  qed
  then show ?thesis using assms(2) by simp
qed

lemma insert_links:
  assumes inv: "sl_inv s xs"
    and a: "a \<notin> insert (header s) (set xs)"
    and old: "\<And>b. b \<in> insert (header s) (set xs) \<Longrightarrow> lvlOf h' b = lvlOf (heap s) b"
    and new: "lvlOf h' a = rl" "rl \<le> maxLevel s"
    and n: "\<And>b j. j \<le> maxLevel s \<Longrightarrow> nxt h' b j =
         (if j \<le> rl then if b = pred s xs k j then Some (Some a)
             else if b = a then nxt (heap s) (pred s xs k j) j else nxt (heap s) b j
          else if b = a then None else nxt (heap s) b j)"
    and j: "j \<le> maxLevel s"
  shows "links h' j (header s) (tower h' (below (heap s) xs k @ a # rest (heap s) xs k) j)"
proof -
  let ?ys = "below (heap s) xs k" and ?zs = "rest (heap s) xs k"
  let ?Y = "tower (heap s) ?ys j" and ?Z = "tower (heap s) ?zs j"
  have split: "set xs = set ?ys \<union> set ?zs" using below_rest[OF inv, of k] by (metis set_append)
  have d: "distinct (header s # ?ys @ ?zs)" using sl_inv_distinct[OF inv] below_rest[OF inv, of k] by simp
  have tY: "tower h' ?ys j = ?Y" "tower h' ?zs j = ?Z"
    using split old by (auto intro!: tower_cong)
  have sub: "set ?Y \<subseteq> set ?ys" "set ?Z \<subseteq> set ?zs" by (auto simp: tower_def)
  have dY: "distinct (header s # ?Y @ ?Z)" using d sub by (auto simp: tower_def)
  have links: "path (heap s) j (header s) ?Y" "links (heap s) j (pred s xs k j) ?Z"
    using links_pred[OF inv j] by blast+
  have p_in: "pred s xs k j \<in> insert (header s) (set ?Y)"
    unfolding pred_def by (metis last_in_set list.distinct(1) list.set(2))
  then have p_a: "pred s xs k j \<noteq> a" using a sub split by auto
  have p_notin: "pred s xs k j \<notin> set ?Z" using p_in dY by auto
  have notin_a: "a \<notin> set ?Y" "a \<notin> set ?Z" using a sub split by auto
  show ?thesis
  proof (cases "j \<le> rl")
    case True
    have "path h' j (header s) ?Y"
      by (rule path_redirect[OF _ links(1) pred_def])
        (use dY True j notin_a a in \<open>auto simp: n\<close>)
    moreover have "nxt h' (pred s xs k j) j = Some (Some a)" using True j by (simp add: n)
    moreover have "links h' j a ?Z"
      using links(2) True j p_a p_notin notin_a by (intro links_redirect[OF links(2)]) (auto simp: n)
    ultimately have "links h' j (header s) (?Y @ a # ?Z)"
      using links(1) by (simp only: links_append links.simps pred_def[symmetric] simp_thms)
    with True show ?thesis by (simp add: tower_append tY new(1)) (simp add: tower_def new(1) tY[unfolded tower_def])
  next
    case False
    have "links h' j (header s) (?Y @ ?Z) = links (heap s) j (header s) (?Y @ ?Z)"
      using False j notin_a a by (intro links_cong) (auto simp: n)
    moreover have "links (heap s) j (header s) (?Y @ ?Z)"
      using links by (simp add: links_append pred_def)
    ultimately show ?thesis
      using False by (simp add: tower_append tY) (simp add: tower_def new(1) tY[unfolded tower_def])
  qed
qed

lemma createNode_nxt:
  assumes "createNode k v l s = (a, s')"
  shows "nxt (heap s') b j =
    (if b = a then if j \<le> l then Some None else None else nxt (heap s) b j)"
  using assms by (auto simp: createNode_def nxt_def newNode_def nth_Cons')

text \<open>The towers of the predecessors above the current level are empty.\<close>

lemma pred_above: "sl_inv s xs \<Longrightarrow> curLevel s < j \<Longrightarrow> pred s xs k j = header s"
  by (fastforce simp: pred_def tower_def below_def sl_inv_def filter_empty_conv)

lemma updates_eq:
  assumes "sl_inv s xs" and "rl \<le> maxLevel s"
  shows "take (rl + 1) (if rl > curLevel s
      then map (pred s xs k) [0..<Suc (curLevel s)] @ replicate (rl - curLevel s) (header s)
      else map (pred s xs k) [0..<Suc (curLevel s)]) = map (pred s xs k) [0..<Suc rl]"
proof (cases "rl > curLevel s")
  case True
  have "map (pred s xs k) [0..<Suc rl] =
      map (pred s xs k) [0..<Suc (curLevel s)] @ map (pred s xs k) [Suc (curLevel s)..<Suc rl]"
    using True upt_add_eq_append[of 0 "Suc (curLevel s)" "rl - curLevel s"] by (simp del: upt_Suc)
  moreover have "map (pred s xs k) [Suc (curLevel s)..<Suc rl] = replicate (rl - curLevel s) (header s)"
    using pred_above[OF assms(1)] by (auto simp: list_eq_iff_nth_eq nth_append simp del: upt_Suc)
  ultimately show ?thesis using True by (simp del: upt_Suc)
next
  case False
  then show ?thesis by (simp add: take_map min_def del: upt_Suc)
qed

lemma sorted_insert:
  assumes inv: "sl_inv s xs" and k: "k \<notin> keyOf (heap s) ` set xs"
    and key: "\<And>b. b \<in> set xs \<Longrightarrow> keyOf h' b = keyOf (heap s) b" "keyOf h' a = k"
  shows "sorted_wrt (<) (map (keyOf h') (below (heap s) xs k @ a # rest (heap s) xs k))"
proof -
  let ?ys = "below (heap s) xs k" and ?zs = "rest (heap s) xs k"
  have xs: "xs = ?ys @ ?zs" by (rule below_rest[OF inv])
  then have sub: "set ?ys \<subseteq> set xs" "set ?zs \<subseteq> set xs" by (metis Un_upper1 Un_upper2 set_append)+
  have "map (keyOf h') ?ys = map (keyOf (heap s)) ?ys" "map (keyOf h') ?zs = map (keyOf (heap s)) ?zs"
    using sub key(1) by auto
  then have eq: "map (keyOf h') (?ys @ a # ?zs) =
      map (keyOf (heap s)) ?ys @ k # map (keyOf (heap s)) ?zs"
    using key(2) by (simp only: map_append list.map)
  have "sorted_wrt (<) (map (keyOf (heap s)) ?ys @ map (keyOf (heap s)) ?zs)"
    using sl_inv_sorted[OF inv] xs by (metis map_append)
  moreover have "\<forall>z\<in>set ?zs. k < keyOf (heap s) z"
  proof (cases ?zs)
    case (Cons c zs)
    with rest_hd[OF inv Cons] k sub show ?thesis by fastforce
  qed simp
  moreover have "\<forall>y\<in>set ?ys. keyOf (heap s) y < k" by (simp add: below_def)
  ultimately show ?thesis
    unfolding eq by (auto simp: sorted_wrt_append)
qed

definition sl_same_params :: "('k, 'v) skiplist \<Rightarrow> ('k, 'v) skiplist \<Rightarrow> bool" where
  "sl_same_params s s' \<longleftrightarrow> maxLevel s' = maxLevel s \<and> header s' = header s"

text \<open>The nodes of \<open>xs\<close> and the header as they were, and the new node \<open>a\<close>.\<close>

definition node_data :: "('k, 'v) heap \<Rightarrow> nat \<Rightarrow> 'k \<times> 'v \<times> nat \<times> nat" where
  "node_data h b = (keyOf h b, valOf h b, lvlOf h b, length (forward (the (h b))))"

lemma below_rest_set:
  assumes "sl_inv s xs"
  shows "set xs = set (below (heap s) xs k) \<union> set (rest (heap s) xs k)"
    and "distinct (header s # below (heap s) xs k @ rest (heap s) xs k)"
    and "length (below (heap s) xs k @ rest (heap s) xs k) = elementCount s"
  using below_rest[OF assms, of k] sl_inv_distinct[OF assms] sl_invD(6)[OF assms]
  by (metis set_append)+

lemma insert_inv:
  assumes inv: "sl_inv s xs" and k: "k \<notin> keyOf (heap s) ` set xs"
    and a: "a \<notin> insert (header s) (set xs)" and l: "l \<le> maxLevel s"
    and dom: "dom (heap s') = insert a (insert (header s) (set xs))"
    and nodes: "\<And>b. b \<in> insert (header s) (set xs) \<Longrightarrow> node_data (heap s') b = node_data (heap s) b"
    and node_a: "node_data (heap s') a = (k, v, l, Suc l)"
    and n: "\<And>b j. j \<le> maxLevel s \<Longrightarrow> nxt (heap s') b j =
         (if j \<le> l then if b = pred s xs k j then Some (Some a)
             else if b = a then nxt (heap s) (pred s xs k j) j else nxt (heap s) b j
          else if b = a then None else nxt (heap s) b j)"
    and fields: "header s' = header s" "maxLevel s' = maxLevel s" "curLevel s' = max (curLevel s) l"
      "elementCount s' = Suc (elementCount s)" "nextLoc s \<le> nextLoc s'" "a < nextLoc s'"
  shows "sl_inv s' (below (heap s) xs k @ a # rest (heap s) xs k)"
proof (rule sl_invI, goal_cases)
  note sets = below_rest_set[OF inv, of k]
  have mem: "b = a \<or> b \<in> set xs" if "b \<in> set (below (heap s) xs k @ a # rest (heap s) xs k)" for b
    using that sets(1) by auto
  have old: "keyOf (heap s') b = keyOf (heap s) b" "lvlOf (heap s') b = lvlOf (heap s) b"
    if "b \<in> insert (header s) (set xs)" for b
    using nodes[OF that] by (simp_all add: node_data_def)
  have new: "keyOf (heap s') a = k" "lvlOf (heap s') a = l" using node_a by (simp_all add: node_data_def)
  {
    case 1 show ?case using sets(1,2) a by (auto simp: fields)
  next
    case 2 show ?case using dom sets(1) by (auto simp: fields)
  next
    case (3 b) then show ?case using sl_invD(1)[OF inv, of b] mem[of b] fields by fastforce
  next
    case (4 b) then show ?case
      using sl_invD(2)[OF inv, of b] mem[of b] nodes[of b] node_a by (auto simp: fields node_data_def)
  next
    case 5 show ?case using old(2)[of "header s"] sl_invD(3)[OF inv] by (simp add: fields)
  next
    case (6 b) then show ?case
      using mem[OF 6] old(2)[of b] new sl_invD(4)[OF inv, of b] by (auto simp: fields le_max_iff_disj)
  next
    case 7 show ?case using sl_invD(5)[OF inv] l by (simp add: fields)
  next
    case (8 j) then show ?case
      using insert_links[OF inv a old(2) new(2) l n] by (simp add: fields)
  next
    case 9 show ?case using old(1) new(1) by (intro sorted_insert[OF inv k]) simp_all
  next
    case 10 show ?case using sets(3) by (simp add: fields)
  next
    case 11
    show ?case
    proof (cases "l \<le> curLevel s \<and> 0 < curLevel s")
      case True
      then obtain b where "b \<in> set xs" "lvlOf (heap s) b = curLevel s" using sl_invD(8)[OF inv] by auto
      then show ?thesis using True old(2)[of b] sets(1) by (auto simp: fields)
    qed (use new(2) 11 in \<open>auto simp: fields\<close>)
  }
qed

text \<open>The pointers after a new node was linked behind the predecessors of its key.\<close>

lemma insert_pointers:
  assumes inv: "sl_inv s xs" and l: "l \<le> maxLevel s"
    and s1: "heap s1 = heap s" "nextLoc s1 = nextLoc s" and s2: "createNode k v l s1 = (nextLoc s, s2)"
  obtains h where "linkNode (heap s2) (nextLoc s) 0 (map (pred s xs k) [0..<Suc l]) = Inr h"
    and "dom h = insert (nextLoc s) (insert (header s) (set xs))"
    and "\<And>b. b \<in> insert (header s) (set xs) \<Longrightarrow> node_data h b = node_data (heap s) b"
    and "node_data h (nextLoc s) = (k, v, l, Suc l)"
    and "\<And>b j. j \<le> maxLevel s \<Longrightarrow> nxt h b j = (if j \<le> l then if b = pred s xs k j then Some (Some (nextLoc s))
       else if b = nextLoc s then nxt (heap s) (pred s xs k j) j else nxt (heap s) b j
     else if b = nextLoc s then None else nxt (heap s) b j)"
proof -
  let ?a = "nextLoc s" and ?us = "map (pred s xs k) [0..<Suc l]"
  have a: "?a \<notin> insert (header s) (set xs)" using inv by (auto simp: sl_inv_def)
  have heap2: "heap s2 = (heap s)(?a \<mapsto> newNode k v l)" using s2 s1 by (auto simp: createNode_def)
  have n2: "nxt (heap s2) b j =
      (if b = ?a then if j \<le> l then Some None else None else nxt (heap s) b j)" for b j
    using createNode_nxt[OF s2] by (simp add: s1)
  have us: "?us ! j = pred s xs k j" if "j \<le> l" for j using that by (simp del: upt_Suc)
  have p: "pred s xs k j \<noteq> ?a \<and> nxt (heap s) (pred s xs k j) j \<noteq> None" if "j \<le> maxLevel s" for j
    using pred_cases[of s xs k j] a that sl_inv_nxt_Some[OF inv] inv by (auto simp: sl_inv_def)
  have "\<forall>j<length ?us. ?us ! j \<noteq> ?a \<and> nxt (heap s2) (?us ! j) (0 + j) \<noteq> None \<and>
      nxt (heap s2) ?a (0 + j) \<noteq> None"
    using p us l by (auto simp: n2 simp del: upt_Suc)
  from linkNode_steps[OF this] obtain h where h: "linkNode (heap s2) ?a 0 ?us = Inr h"
    "sameNodes (heap s2) h"
    and nh: "\<And>b j. nxt h b j = (if j < Suc l
        then if b = ?us ! j then Some (Some ?a)
             else if b = ?a then nxt (heap s2) (?us ! j) j else nxt (heap s2) b j
        else nxt (heap s2) b j)" by (auto simp del: upt_Suc)
  show thesis
  proof (rule that[OF h(1)])
    show "dom h = insert ?a (insert (header s) (set xs))"
      using sameNodes_dom[OF h(2)] sl_invD(7)[OF inv] by (auto simp: heap2)
    show "node_data h b = node_data (heap s) b" if "b \<in> insert (header s) (set xs)" for b
    proof -
      have "heap s2 b = heap s b" "heap s2 b \<noteq> None" using a that sl_inv_alloc[OF inv that] by (auto simp: heap2)
      with sameNodes_node(2)[OF h(2), of b] show ?thesis
        by (simp add: node_data_def keyOf_def valOf_def lvlOf_def)
    qed
    show "node_data h ?a = (k, v, l, Suc l)"
      using sameNodes_node(2)[OF h(2), of ?a]
      by (simp add: heap2 keyOf_def valOf_def lvlOf_def newNode_def node_data_def)
    show "nxt h b j = (if j \<le> l then if b = pred s xs k j then Some (Some ?a)
         else if b = ?a then nxt (heap s) (pred s xs k j) j else nxt (heap s) b j
       else if b = ?a then None else nxt (heap s) b j)" if "j \<le> maxLevel s" for b j
      using p[OF that] us[of j] by (simp add: nh n2 less_Suc_eq_le del: upt_Suc)
  qed
qed

text \<open>The search for a key that is absent stops before a node with another key, or at the end.\<close>

lemma absent_stop:
  assumes inv: "sl_inv s xs" and k: "k \<notin> keyOf (heap s) ` set xs"
  shows "(case (case rest (heap s) xs k of [] \<Rightarrow> None | c # _ \<Rightarrow> Some c) of None \<Rightarrow> Inr False
     | Some cur \<Rightarrow> andThen (derefOpt (heap s cur)) (\<lambda>nd. Inr (nkey nd = k))) = Inr False"
proof (cases "rest (heap s) xs k")
  case (Cons c zs)
  have c: "c \<in> set xs" using rest_hd(1)[OF inv Cons] .
  then obtain nd where "heap s c = Some nd" using sl_inv_alloc[OF inv] by blast
  moreover have "keyOf (heap s) c \<noteq> k" using c k by auto
  ultimately show ?thesis using Cons by (simp add: keyOf_def)
qed simp

lemma insertElement_new:
  assumes inv: "sl_inv s xs" and k: "k \<notin> keyOf (heap s) ` set xs"
    and rnd: "countOdd 1 (rands s) = Inr (n, rs)"
  obtains s' a where "insertElementNoBlock k v s = Inr (0, s')"
    and "sl_inv s' (below (heap s) xs k @ a # rest (heap s) xs k)"
    and "kvList (heap s') (below (heap s) xs k @ a # rest (heap s) xs k) =
           kvList (heap s) (below (heap s) xs k) @ (k, v) # kvList (heap s) (rest (heap s) xs k)"
    and "rands s' = rs" and "sl_same_params s s'"
proof -
  let ?ys = "below (heap s) xs k" and ?zs = "rest (heap s) xs k"
  let ?a = "nextLoc s"
  define l where "l = (if n < maxLevel s then n else maxLevel s)"
  have l: "l \<le> maxLevel s" by (simp add: l_def)
  have grl: "getRandomLevel s = Inr (l, s\<lparr>rands := rs\<rparr>)" using rnd by (simp add: getRandomLevel_def l_def)
  define s1 where "s1 = s\<lparr>rands := rs, curLevel := (if l > curLevel s then l else curLevel s)\<rparr>"
  obtain s2 where s2: "createNode k v l s1 = (?a, s2)" by (simp add: createNode_def s1_def)
  have s1: "heap s1 = heap s" "nextLoc s1 = nextLoc s" by (simp_all add: s1_def)
  from insert_pointers[OF inv l s1 s2] obtain h where
    h: "linkNode (heap s2) ?a 0 (map (pred s xs k) [0..<Suc l]) = Inr h"
    and domh: "dom h = insert ?a (insert (header s) (set xs))"
    and nodes: "\<And>b. b \<in> insert (header s) (set xs) \<Longrightarrow> node_data h b = node_data (heap s) b"
    and node_a: "node_data h ?a = (k, v, l, Suc l)"
    and nn: "\<And>b j. j \<le> maxLevel s \<Longrightarrow> nxt h b j = (if j \<le> l then if b = pred s xs k j then Some (Some ?a)
       else if b = ?a then nxt (heap s) (pred s xs k j) j else nxt (heap s) b j
     else if b = ?a then None else nxt (heap s) b j)" by blast
  define s' where "s' = s2\<lparr>heap := h, elementCount := elementCount s + 1\<rparr>"
  have ec: "elementCount s2 = elementCount s" using s2 by (auto simp: createNode_def s1_def)
  have ret: "insertElementNoBlock k v s = Inr (0, s')"
  proof -
    have s1_alt: "(if curLevel s < l then s\<lparr>rands := rs, curLevel := l\<rparr> else s\<lparr>rands := rs\<rparr>) = s1"
      by (simp add: s1_def)
    have c1: "\<not> curLevel s < l \<Longrightarrow> \<not> curLevel s1 < l" by (simp add: s1_def)
    show ?thesis
      unfolding insertElementNoBlock_def descend_top[OF inv] andThen_Inr prod.case pred_forward[OF inv] absent_stop[OF inv k]
        grl Let_def
      using h s2 updates_eq[OF inv l, of k] s1_alt ec c1
      by (cases "curLevel s < l") (simp_all add: s'_def del: upt_Suc)
  qed
  have fields: "header s' = header s" "maxLevel s' = maxLevel s" "nextLoc s' = Suc ?a" "rands s' = rs"
    "curLevel s' = max (curLevel s) l" "heap s' = h" "elementCount s' = Suc (elementCount s)"
    using s2 by (auto simp: createNode_def s1_def s'_def)
  have "?a \<notin> insert (header s) (set xs)" using inv by (auto simp: sl_inv_def)
  then have "sl_inv s' (?ys @ ?a # ?zs)"
    using domh nodes node_a nn by (intro insert_inv[OF inv k _ l, of _ s' v]) (simp_all add: fields)
  moreover have "kvList (heap s') (?ys @ ?a # ?zs) = kvList (heap s) ?ys @ (k, v) # kvList (heap s) ?zs"
    using nodes node_a below_rest_set(1)[OF inv, of k] by (auto simp: kvList_def fields node_data_def)
  ultimately show ?thesis using ret fields that by (simp add: sl_same_params_def)
qed

lemma insertElement_old:
  assumes inv: "sl_inv s xs" and k: "k \<in> keyOf (heap s) ` set xs"
  shows "insertElementNoBlock k v s = Inr (1, s)"
proof (cases "rest (heap s) xs k")
  case Nil
  with rest_Nil[OF inv Nil] k show ?thesis by simp
next
  case (Cons c zs)
  then obtain nd where nd: "heap s c = Some nd" using rest_hd(1)[OF inv Cons] sl_inv_alloc[OF inv] by blast
  moreover have "nkey nd = k" using nd k rest_hd(4)[OF inv Cons] by (simp add: keyOf_def)
  ultimately show ?thesis
    using Cons by (simp add: insertElementNoBlock_def descend_top[OF inv] pred_forward[OF inv])
qed

section \<open>Deletion\<close>

text \<open>
  Of a heap \<open>h'\<close> in which the predecessors of \<open>c\<close> point past it: the chains without \<open>c\<close>.
\<close>

lemma delete_links:
  assumes inv: "sl_inv s xs" and r: "rest (heap s) xs k = c # zs"
    and old: "\<And>b. b \<in> set (below (heap s) xs k @ zs) \<Longrightarrow> lvlOf h' b = lvlOf (heap s) b"
    and n: "\<And>b. b \<in> set (header s # below (heap s) xs k @ zs) \<Longrightarrow> nxt h' b j =
         (if j \<le> lvlOf (heap s) c \<and> b = pred s xs k j then nxt (heap s) c j else nxt (heap s) b j)"
    and j: "j \<le> maxLevel s"
  shows "links h' j (header s) (tower h' (below (heap s) xs k @ zs) j)"
proof -
  let ?ys = "below (heap s) xs k"
  let ?Y = "tower (heap s) ?ys j" and ?Z = "tower (heap s) zs j" and ?p = "pred s xs k j"
  have d: "distinct (header s # ?ys @ c # zs)"
    using sl_inv_distinct[OF inv] below_rest[OF inv, of k] r by simp
  have tY: "tower h' ?ys j = ?Y" "tower h' zs j = ?Z" using old by (auto intro!: tower_cong)
  have sub: "set ?Y \<subseteq> set ?ys" "set ?Z \<subseteq> set zs" by (auto simp: tower_def)
  have dY: "distinct (header s # ?Y @ ?Z)" using d sub by (auto simp: tower_def)
  have links: "path (heap s) j (header s) ?Y" "links (heap s) j ?p (tower (heap s) (c # zs) j)"
    using links_pred[OF inv j, of k] r by simp_all
  have p_in: "?p \<in> insert (header s) (set ?Y)"
    unfolding pred_def by (metis last_in_set list.distinct(1) list.set(2))
  then have p_notin: "?p \<notin> set ?Z" and p_mem: "?p \<in> set (header s # ?ys @ zs)" using dY sub by auto
  have "path h' j (header s) ?Y = path (heap s) j (header s) ?Y"
  proof (rule path_cong)
    fix b assume b: "b \<in> set (butlast (header s # ?Y))"
    then have neq: "b \<noteq> ?p"
      unfolding pred_def using dY by (metis distinct_append distinct_butlast not_distinct_conv_prefix
          append_butlast_last_id append_Cons list.distinct(1) disjoint_iff list.set_intros(1))
    have "b \<in> set (header s # ?ys @ zs)" using in_set_butlastD[OF b] sub by auto
    from n[OF this] neq show "nxt h' b j = nxt (heap s) b j" by simp
  qed
  moreover have nz: "nxt h' b j = nxt (heap s) b j" if "b \<in> set ?Z" for b
    using n[of b] that p_notin sub by auto
  have "links h' j ?p ?Z"
  proof (cases "j \<le> lvlOf (heap s) c")
    case True
    then have "links (heap s) j c ?Z" using links(2) by (simp add: tower_def)
    then show ?thesis by (rule links_redirect) (use True n[OF p_mem] nz in simp_all)
  next
    case False
    then have "links (heap s) j ?p ?Z" using links(2) by (simp add: tower_def)
    then show ?thesis by (rule links_redirect) (use False n[OF p_mem] nz in simp_all)
  qed
  ultimately have "links h' j (header s) (?Y @ ?Z)"
    using links(1) by (simp only: links_append pred_def[symmetric] simp_thms)
  then show ?thesis by (simp add: tower_append tY)
qed

lemma kvList_append: "kvList h (xs @ ys) = kvList h xs @ kvList h ys"
  by (simp add: kvList_def)

lemma kvList_cong:
  "(\<And>b. b \<in> set xs \<Longrightarrow> keyOf h' b = keyOf h b \<and> valOf h' b = valOf h b) \<Longrightarrow> kvList h' xs = kvList h xs"
  by (auto simp: kvList_def)

lemma nxt_delete: "b \<noteq> c \<Longrightarrow> nxt (h(c := None)) b j = nxt h b j"
  by (simp add: nxt_def)

lemma nodes_delete:
  "b \<noteq> c \<Longrightarrow> keyOf (h(c := None)) b = keyOf h b \<and> valOf (h(c := None)) b = valOf h b \<and>
     lvlOf (h(c := None)) b = lvlOf h b"
  by (simp add: keyOf_def valOf_def lvlOf_def)

lemma unlinked_data:
  assumes "sl_inv s xs" "rest (heap s) xs k = c # zs" "b \<in> set (header s # below (heap s) xs k @ zs)"
  shows "b \<noteq> c" and "b \<in> insert (header s) (set xs)"
  using assms(2,3) below_rest_set(1,2)[OF assms(1), of k] by auto

text \<open>A level whose first pointer is null has no node, and the nodes that stay keep their order.\<close>

lemma null_level:
  assumes "links h j a (tower h ys j)"
  shows "nxt h a j = Some None \<longleftrightarrow> (\<forall>b\<in>set ys. lvlOf h b < j)"
proof -
  have "nxt h a j = Some None \<longleftrightarrow> tower h ys j = []"
    using links_nxt_hd[OF assms] by (auto split: list.splits)
  then show ?thesis by (auto simp: tower_def filter_empty_conv not_le)
qed

lemma delete_sorted:
  assumes "sl_inv s xs" and "rest (heap s) xs k = c # zs"
  shows "sorted_wrt (<) (map (keyOf (heap s)) (below (heap s) xs k @ zs))"
proof -
  have "xs = below (heap s) xs k @ c # zs" using below_rest[OF assms(1), of k] assms(2) by simp
  then have "sorted_wrt (<) (map (keyOf (heap s)) (below (heap s) xs k @ c # zs))"
    using sl_inv_sorted[OF assms(1)] by metis
  then show ?thesis by (simp add: sorted_wrt_append)
qed

lemma delete_inv:
  assumes inv: "sl_inv s xs" and r: "rest (heap s) xs k = c # zs"
    and dom: "dom (heap s') = insert (header s) (set xs) - {c}"
    and nodes: "\<And>b. b \<in> set (header s # below (heap s) xs k @ zs) \<Longrightarrow>
           node_data (heap s') b = node_data (heap s) b"
    and n: "\<And>b j. j \<le> maxLevel s \<Longrightarrow> b \<in> set (header s # below (heap s) xs k @ zs) \<Longrightarrow>
         nxt (heap s') b j =
         (if j \<le> lvlOf (heap s) c \<and> b = pred s xs k j then nxt (heap s) c j else nxt (heap s) b j)"
    and lvl: "curLevel s' \<le> curLevel s"
      "\<And>j. curLevel s' < j \<Longrightarrow> j \<le> curLevel s \<Longrightarrow> nxt (heap s') (header s) j = Some None"
      "0 < curLevel s' \<Longrightarrow> nxt (heap s') (header s) (curLevel s') \<noteq> Some None"
    and fields: "header s' = header s" "maxLevel s' = maxLevel s" "nextLoc s' = nextLoc s"
      "elementCount s' = elementCount s - 1"
  shows "sl_inv s' (below (heap s) xs k @ zs)"
proof (rule sl_invI, goal_cases)
  let ?ys = "below (heap s) xs k"
  note sets = below_rest_set[OF inv, of k, unfolded r]
  note data = unlinked_data[OF inv r]
  have old: "keyOf (heap s') b = keyOf (heap s) b" "lvlOf (heap s') b = lvlOf (heap s) b"
    if "b \<in> set (header s # ?ys @ zs)" for b
    using nodes[OF that] by (simp_all add: node_data_def)
  have lk: "links (heap s') j (header s) (tower (heap s') (?ys @ zs) j)" if "j \<le> maxLevel s" for j
    by (rule delete_links[OF inv r _ n[OF that] that]) (use old(2) in auto)
  have top: "lvlOf (heap s') b \<le> curLevel s'" if "b \<in> set (?ys @ zs)" for b
  proof (rule ccontr)
    let ?j = "lvlOf (heap s') b"
    assume "\<not> ?j \<le> curLevel s'"
    moreover have "?j \<le> curLevel s"
      using that old(2)[of b] sl_invD(4)[OF inv, of b] sets(1) by auto
    ultimately show False
      using lvl(2)[of ?j] sl_invD(5)[OF inv] null_level[OF lk[of ?j]] that by auto
  qed
  {
    case 1 show ?case using sets(2) by (auto simp: fields)
  next
    case 2 show ?case using dom sets by (auto simp: fields)
  next
    case (3 b) then show ?case using sl_invD(1)[OF inv, of b] data(2)[of b] by (simp add: fields)
  next
    case (4 b) then show ?case
      using sl_invD(2)[OF inv, of b] data(2)[of b] nodes[of b] by (simp add: fields node_data_def)
  next
    case 5 show ?case using old(2)[of "header s"] sl_invD(3)[OF inv] by (simp add: fields)
  next
    case (6 b) then show ?case by (rule top)
  next
    case 7 show ?case using lvl(1) sl_invD(5)[OF inv] by (simp add: fields)
  next
    case (8 j) then show ?case using lk by (simp add: fields)
  next
    case 9
    have "map (keyOf (heap s')) (?ys @ zs) = map (keyOf (heap s)) (?ys @ zs)" using old(1) by auto
    then show ?case using delete_sorted[OF inv r] by (simp only:)
  next
    case 10 show ?case using sets(3) by (simp add: fields)
  next
    case 11
    have "curLevel s' \<le> maxLevel s" using lvl(1) sl_invD(5)[OF inv] by simp
    then obtain b where "b \<in> set (?ys @ zs)" "curLevel s' \<le> lvlOf (heap s') b"
      using lvl(3)[OF 11] null_level[OF lk] by (auto simp: not_less)
    then show ?case using top le_antisym by blast
  }
qed

text \<open>The pointers after the node was unlinked from its predecessors.\<close>

lemma unlink_pointers:
  assumes inv: "sl_inv s xs" and r: "rest (heap s) xs k = c # zs" and k: "keyOf (heap s) c = k"
  obtains h where "unlinkNode (heap s) c 0 (map (pred s xs k) [0..<Suc (curLevel s)]) = Inr h"
    and "sameNodes (heap s) h"
    and "\<And>b j. nxt h b j =
      (if j \<le> lvlOf (heap s) c \<and> b = pred s xs k j then nxt (heap s) c j else nxt (heap s) b j)"
proof -
  let ?us = "map (pred s xs k) [0..<Suc (curLevel s)]" and ?m = "lvlOf (heap s) c"
  have c: "c \<in> set xs" using rest_hd(1)[OF inv r] .
  have dist: "c \<noteq> header s" "c \<notin> set zs"
    using unlinked_data(1)[OF inv r] by auto
  have cur: "curLevel s \<le> maxLevel s" "?m \<le> curLevel s"
    using sl_invD(4,5)[OF inv] c by auto
  have us: "?us ! j = pred s xs k j" if "j \<le> curLevel s" for j using that by (simp del: upt_Suc)
  have p: "pred s xs k j \<noteq> c \<and> nxt (heap s) (pred s xs k j) j \<noteq> None \<and>
      (nxt (heap s) (pred s xs k j) j = Some (Some c) \<longleftrightarrow> j \<le> ?m)" if "j \<le> maxLevel s" for j
  proof -
    have "pred s xs k j \<noteq> c" using pred_cases[of s xs k j] dist(1) k by auto
    moreover have "nxt (heap s) (pred s xs k j) j =
        Some (case tower (heap s) (c # zs) j of [] \<Rightarrow> None | b # _ \<Rightarrow> Some b)"
      using links_nxt_hd[OF links_pred(2)[OF inv that, of k]] r by simp
    moreover have "(case tower (heap s) (c # zs) j of [] \<Rightarrow> None | b # _ \<Rightarrow> Some b) = Some c \<longleftrightarrow> j \<le> ?m"
      using dist(2) set_tower[of "heap s" zs j] by (auto simp: tower_Cons split: list.splits)
    ultimately show ?thesis by simp
  qed
  have nc: "\<forall>j\<le>?m. nxt (heap s) c j \<noteq> None" using sl_inv_nxt_Some[OF inv] c by blast
  have "\<forall>j<length ?us. ?us ! j \<noteq> c \<and> nxt (heap s) (?us ! j) (0 + j) \<noteq> None \<and>
      (nxt (heap s) (?us ! j) (0 + j) = Some (Some c) \<longleftrightarrow> 0 + j \<le> ?m)"
    using p us cur by (simp del: upt_Suc)
  from unlinkNode_steps[OF this nc] obtain h where h: "unlinkNode (heap s) c 0 ?us = Inr h"
    "sameNodes (heap s) h"
    and nh: "\<And>b j. nxt h b j = (if j < length ?us \<and> j \<le> ?m \<and> b = ?us ! j
         then nxt (heap s) c j else nxt (heap s) b j)" by auto
  have nn: "nxt h b j = (if j \<le> ?m \<and> b = pred s xs k j then nxt (heap s) c j else nxt (heap s) b j)" for b j
    using us[of j] cur(2) by (cases "j \<le> curLevel s") (simp_all add: nh less_Suc_eq_le del: upt_Suc)
  with h that show thesis by blast
qed

lemma deleteElement_found:
  assumes inv: "sl_inv s xs" and r: "rest (heap s) xs k = c # zs" and k: "keyOf (heap s) c = k"
  obtains s' where "deleteElement k s = Inr s'" and "sl_inv s' (below (heap s) xs k @ zs)"
    and "kvList (heap s') (below (heap s) xs k @ zs) =
           kvList (heap s) (below (heap s) xs k) @ kvList (heap s) zs"
    and "rands s' = rands s" and "sl_same_params s s'"
proof -
  let ?ys = "below (heap s) xs k" and ?us = "map (pred s xs k) [0..<Suc (curLevel s)]"
  let ?m = "lvlOf (heap s) c"
  have c: "c \<in> set xs" using rest_hd(1)[OF inv r] .
  obtain nd where nd: "heap s c = Some nd" using sl_inv_alloc[OF inv] c by blast
  have dist: "c \<noteq> header s" "c \<notin> set ?ys" "c \<notin> set zs"
    using unlinked_data(1)[OF inv r] by auto
  have cur: "curLevel s \<le> maxLevel s" "?m \<le> curLevel s"
    using sl_invD(4,5)[OF inv] c by auto
  have nc: "\<forall>j\<le>?m. nxt (heap s) c j \<noteq> None" using sl_inv_nxt_Some[OF inv] c by blast
  from unlink_pointers[OF inv r k] obtain h where h: "unlinkNode (heap s) c 0 ?us = Inr h" "sameNodes (heap s) h"
    and nn: "\<And>b j. nxt h b j = (if j \<le> ?m \<and> b = pred s xs k j then nxt (heap s) c j else nxt (heap s) b j)"
    by blast
  have hd: "\<forall>j\<le>curLevel s. nxt h (header s) j \<noteq> None"
    using nn nc sl_inv_nxt_Some[OF inv, of "header s"] sl_invD(3)[OF inv] cur by simp
  from lowerLevel_spec[OF hd] obtain l' where l': "lowerLevel h (header s) (curLevel s) = Inr l'"
    "l' \<le> curLevel s" "\<And>j. l' < j \<Longrightarrow> j \<le> curLevel s \<Longrightarrow> nxt h (header s) j = Some None"
    "0 < l' \<Longrightarrow> nxt h (header s) l' \<noteq> Some None" by auto
  define s' where "s' = s\<lparr>heap := h(c := None), curLevel := l', elementCount := elementCount s - 1\<rparr>"
  have "deleteElement k s = Inr s'"
    using r nd k h(1) l'(1)
    by (simp add: deleteElement_def descend_top[OF inv] pred_forward[OF inv] keyOf_def s'_def del: upt_Suc)
  moreover have data: "node_data (heap s') b = node_data (heap s) b" if "b \<in> set (header s # ?ys @ zs)" for b
    using sameNodes_node(2)[OF h(2), of b] unlinked_data[OF inv r that] sl_inv_alloc[OF inv, of b]
    by (simp add: s'_def node_data_def keyOf_def valOf_def lvlOf_def)
  moreover have "sl_inv s' (?ys @ zs)"
  proof (rule delete_inv[OF inv r _ data])
    show "dom (heap s') = insert (header s) (set xs) - {c}"
      using sameNodes_dom[OF h(2)] sl_invD(7)[OF inv] by (simp add: s'_def)
    show "nxt (heap s') b j = (if j \<le> ?m \<and> b = pred s xs k j then nxt (heap s) c j else nxt (heap s) b j)"
      if "b \<in> set (header s # ?ys @ zs)" for b j
      using unlinked_data(1)[OF inv r that] nn by (simp add: s'_def nxt_delete)
  qed (use l' dist in \<open>simp_all add: s'_def nxt_delete\<close>)
  moreover have "kvList (heap s') (?ys @ zs) = kvList (heap s) ?ys @ kvList (heap s) zs"
    using data by (auto simp: kvList_def node_data_def)
  ultimately show ?thesis using that by (simp add: s'_def sl_same_params_def)
qed

lemma deleteElement_absent:
  assumes inv: "sl_inv s xs" and k: "lookupKV s k = None"
  shows "deleteElement k s = Inr s"
proof (cases "rest (heap s) xs k")
  case Nil
  then show ?thesis by (simp add: deleteElement_def descend_top[OF inv] pred_forward[OF inv])
next
  case (Cons c zs)
  then obtain nd where nd: "heap s c = Some nd" using rest_hd(1)[OF inv Cons] sl_inv_alloc[OF inv] by blast
  moreover have "nkey nd \<noteq> k" using nd k Cons by (auto simp: lookupKV_rest[OF inv] keyOf_def split: if_splits)
  ultimately show ?thesis
    using Cons by (simp add: deleteElement_def descend_top[OF inv] pred_forward[OF inv])
qed

end
