(* ===== verification/SkipListMap.thy ===== *)
theory SkipListMap
  imports SkipListCorrect
begin

text \<open>
  The skip list as a map.  The interface its clients rely on is the locale \<open>kv_map\<close>
  (lookup and replacing insertion) and its extension \<open>kv_loader\<close> (insertion of absent keys);
  both are interpreted on the pointer-level operations.  Then dump, load and destruction.
\<close>

section \<open>The interface of a key-value map\<close>

text \<open>
  \<open>budget\<close> is the number of insertions the given random numbers suffice for.
\<close>

locale kv_map =
  fixes lookup :: "'s \<Rightarrow> 'k \<Rightarrow> 'v option"
    and wf :: "'s \<Rightarrow> bool"
    and budget :: "'s \<Rightarrow> nat"
    and search :: "'k \<Rightarrow> 's \<Rightarrow> 'v option res"
    and insertSet :: "'k \<Rightarrow> 'v \<Rightarrow> 's \<Rightarrow> 's res"
  assumes search_law: "wf s \<Longrightarrow> search k s = Inr (lookup s k)"
    and insertSet_law: "wf s \<Longrightarrow> 0 < budget s \<Longrightarrow>
      \<exists>s'. insertSet k v s = Inr s' \<and> wf s' \<and> lookup s' = (lookup s)(k \<mapsto> v) \<and>
           budget s' = budget s - 1"
begin

text \<open>Read, compute a new value, write it back: the pattern of the append operation.\<close>

lemma update_with:
  assumes "wf s" and "0 < budget s"
  shows "\<exists>s'. andThen (search k s) (\<lambda>old. insertSet k (f old) s) = Inr s' \<and> wf s' \<and>
    lookup s' = (lookup s)(k \<mapsto> f (lookup s k)) \<and> budget s' = budget s - 1"
  using insertSet_law[OF assms, of k "f (lookup s k)"] search_law[OF assms(1), of k] by simp

lemma insertSet_search:
  assumes "wf s" and "0 < budget s" and "insertSet k v s = Inr s'"
  shows "search k' s' = Inr (if k' = k then Some v else lookup s k')"
  using insertSet_law[OF assms(1,2), of k v] assms(3) search_law[of s' k'] by auto

lemma insertSet_all:
  assumes "wf s" and "length kvs \<le> budget s"
  shows "\<exists>s'. foldR (\<lambda>(k, v). insertSet k v) kvs s = Inr s' \<and> wf s' \<and>
    lookup s' = lookup s ++ map_of (rev kvs) \<and> budget s' = budget s - length kvs"
  using assms
proof (induction kvs arbitrary: s)
  case (Cons kv kvs)
  obtain k v where kv: "kv = (k, v)" by fastforce
  from Cons.prems obtain s1 where s1: "insertSet k v s = Inr s1" "wf s1"
    "lookup s1 = (lookup s)(k \<mapsto> v)" "budget s1 = budget s - 1"
    using insertSet_law[of s k v] by auto
  moreover from Cons.prems s1 have "length kvs \<le> budget s1" by simp
  ultimately obtain s2 where "foldR (\<lambda>(k, v). insertSet k v) kvs s1 = Inr s2" "wf s2"
    "lookup s2 = lookup s1 ++ map_of (rev kvs)" "budget s2 = budget s1 - length kvs"
    using Cons.IH by blast
  with s1 kv show ?case by simp
qed simp

end

locale kv_loader = kv_map +
  fixes insertNew :: "'k \<Rightarrow> 'v \<Rightarrow> 's \<Rightarrow> (int \<times> 's) res"
  assumes insertNew_law: "wf s \<Longrightarrow> 0 < budget s \<Longrightarrow>
      \<exists>s'. insertNew k v s = Inr (if lookup s k = None then 0 else 1, s') \<and> wf s' \<and>
           lookup s' = (if lookup s k = None then (lookup s)(k \<mapsto> v) else lookup s) \<and>
           budget s - 1 \<le> budget s'"
begin

text \<open>Loading a sequence of pairs keeps what is there: the first value of a key wins.\<close>

lemma insertNew_all:
  assumes "wf s" and "length kvs \<le> budget s"
  shows "\<exists>s'. foldR (\<lambda>(k, v) t. andThen (insertNew k v t) (\<lambda>(_, t'). Inr t')) kvs s = Inr s' \<and> wf s' \<and>
    lookup s' = map_of kvs ++ lookup s \<and> budget s - length kvs \<le> budget s'"
  using assms
proof (induction kvs arbitrary: s)
  case (Cons kv kvs)
  obtain k v where kv: "kv = (k, v)" by fastforce
  from Cons.prems insertNew_law[of s k v] obtain r s1 where s1: "insertNew k v s = Inr (r, s1)" "wf s1"
    "lookup s1 = (if lookup s k = None then (lookup s)(k \<mapsto> v) else lookup s)"
    "budget s - 1 \<le> budget s1" by force
  with Cons.prems have "length kvs \<le> budget s1" by simp
  with s1 obtain s2 where s2: "foldR (\<lambda>(k, v) t. andThen (insertNew k v t) (\<lambda>(_, t'). Inr t')) kvs s1 = Inr s2"
    "wf s2" "lookup s2 = map_of kvs ++ lookup s1" "budget s1 - length kvs \<le> budget s2"
    using Cons.IH by blast
  have "map_of kvs ++ lookup s1 = map_of (kv # kvs) ++ lookup s"
    by (rule ext) (auto simp: kv s1(3) map_add_def split: option.splits)
  moreover have "budget s - length (kv # kvs) \<le> budget s2" using s1(4) s2(4) by simp
  moreover have "foldR (\<lambda>(k, v) t. andThen (insertNew k v t) (\<lambda>(_, t'). Inr t')) (kv # kvs) s = Inr s2"
    using s1(1) s2(1) kv by simp
  ultimately show ?case using s2(2,3) by metis
qed simp

end

section \<open>The skip list provides it\<close>

text \<open>How many random levels the remaining values of \<^verbatim>\<open>rand()\<close> give: one per even value.\<close>

definition levelBudget :: "('k, 'v) skiplist \<Rightarrow> nat" where
  "levelBudget s = length (filter even (rands s))"

lemma countOdd_even:
  "0 < length (filter even rs) \<Longrightarrow>
   \<exists>n rs'. countOdd k rs = Inr (n, rs') \<and> length (filter even rs') = length (filter even rs) - 1"
  by (induction k rs rule: countOdd.induct) (auto split: if_splits)

lemma lookup_split:
  assumes inv: "sl_inv s xs"
  shows "lookupKV s = map_of (kvList (heap s) (below (heap s) xs k) @ kvList (heap s) (rest (heap s) xs k))"
  using lookupKV_map_of[OF inv] below_rest[OF inv, of k] by (metis kvList_append)

lemma below_not_key: "map_of (kvList h (below h xs k)) k = None"
  by (auto simp: map_of_eq_None_iff kvList_def below_def)

lemma insertNew_correct:
  assumes "sl_wf s" and "0 < levelBudget s"
  shows "\<exists>s'. insertElement k v s = Inr (if lookupKV s k = None then 0 else 1, s') \<and> sl_wf s' \<and>
    lookupKV s' = (if lookupKV s k = None then (lookupKV s)(k \<mapsto> v) else lookupKV s) \<and>
    levelBudget s - 1 \<le> levelBudget s' \<and>
    elementCount s' = (if lookupKV s k = None then elementCount s + 1 else elementCount s) \<and>
    (lookupKV s k = None \<longrightarrow> levelBudget s' = levelBudget s - 1)"
proof -
  from assms(1) obtain xs where inv: "sl_inv s xs" by (auto simp: sl_wf_def)
  show ?thesis
  proof (cases "k \<in> keyOf (heap s) ` set xs")
    case True
    then have "lookupKV s k \<noteq> None" using lookupKV_in[OF inv] by auto
    with insertElement_old[OF inv True] assms show ?thesis by (auto simp: insertElement_def)
  next
    case False
    then have none: "lookupKV s k = None" by (rule lookupKV_notin[OF inv])
    obtain n rs where rnd: "countOdd 1 (rands s) = Inr (n, rs)"
      "length (filter even rs) = levelBudget s - 1"
      using countOdd_even[of "rands s" 1] assms(2) unfolding levelBudget_def by blast
    from insertElement_new[OF inv False rnd(1), of v] obtain s' a where
      s': "insertElementNoBlock k v s = Inr (0, s')"
      "sl_inv s' (below (heap s) xs k @ a # rest (heap s) xs k)"
      "kvList (heap s') (below (heap s) xs k @ a # rest (heap s) xs k) =
         kvList (heap s) (below (heap s) xs k) @ (k, v) # kvList (heap s) (rest (heap s) xs k)"
      "rands s' = rs" by blast
    have "lookupKV s' = (lookupKV s)(k \<mapsto> v)"
      unfolding lookupKV_map_of[OF s'(2)] s'(3) lookup_split[OF inv, of k]
      using below_not_key[of "heap s" xs k] by (auto simp: map_add_def fun_eq_iff split: option.splits)
    moreover have "elementCount s' = elementCount s + 1"
      using sl_invD(6)[OF s'(2)] below_rest_set(3)[OF inv, of k] by simp
    ultimately show ?thesis
      using s' none rnd(2) by (auto simp: sl_wf_def insertElement_def levelBudget_def)
  qed
qed

lemma delete_correct:
  assumes "sl_wf s"
  shows "\<exists>s'. deleteElement k s = Inr s' \<and> sl_wf s' \<and> lookupKV s' = (lookupKV s)(k := None) \<and>
    levelBudget s' = levelBudget s \<and>
    elementCount s' = (if lookupKV s k = None then elementCount s else elementCount s - 1)"
proof -
  from assms obtain xs where inv: "sl_inv s xs" by (auto simp: sl_wf_def)
  show ?thesis
  proof (cases "lookupKV s k")
    case None
    with deleteElement_absent[OF inv] assms show ?thesis by (auto simp: fun_upd_idem)
  next
    case (Some v)
    with lookupKV_rest[OF inv, of k] obtain c zs where r: "rest (heap s) xs k = c # zs"
      and k: "keyOf (heap s) c = k" by (auto split: list.splits if_splits)
    from deleteElement_found[OF inv r k] obtain s' where s': "deleteElement k s = Inr s'"
      "sl_inv s' (below (heap s) xs k @ zs)"
      "kvList (heap s') (below (heap s) xs k @ zs) = kvList (heap s) (below (heap s) xs k) @ kvList (heap s) zs"
      "rands s' = rands s" by blast
    have "map_of (kvList (heap s) zs) k = None"
      using rest_hd(3)[OF inv r] k by (auto simp: map_of_eq_None_iff kvList_def)
    with k have "lookupKV s' = (lookupKV s)(k := None)"
      unfolding lookupKV_map_of[OF s'(2)] s'(3) lookup_split[OF inv, of k] r
      using below_not_key[of "heap s" xs k]
      by (auto simp: map_add_def fun_eq_iff kvList_def split: option.splits)
    moreover have "elementCount s' = elementCount s - 1"
      using sl_invD(6)[OF s'(2)] below_rest_set(3)[OF inv, of k] r by simp
    ultimately show ?thesis using s' Some by (auto simp: sl_wf_def levelBudget_def)
  qed
qed

lemma search_correct: "sl_wf s \<Longrightarrow> searchElement k s = Inr (lookupKV s k)"
  using searchElement_eq by (auto simp: sl_wf_def)

lemma insertSet_correct:
  assumes "sl_wf s" and "0 < levelBudget s"
  shows "\<exists>s'. insertSetElement k v s = Inr s' \<and> sl_wf s' \<and> lookupKV s' = (lookupKV s)(k \<mapsto> v) \<and>
    levelBudget s' = levelBudget s - 1"
proof -
  obtain s1 where s1: "(if lookupKV s k \<noteq> None then deleteElement k s else Inr s) = Inr s1" "sl_wf s1"
    "lookupKV s1 = (lookupKV s)(k := None)" "levelBudget s1 = levelBudget s"
  proof (cases "lookupKV s k")
    case None
    then have "lookupKV s = (lookupKV s)(k := None)" by (simp add: fun_upd_idem)
    with None that[of s] assms(1) show ?thesis by simp
  next
    case (Some v')
    with delete_correct[OF assms(1), of k] that show ?thesis by auto
  qed
  have none: "lookupKV s1 k = None" and bud: "0 < levelBudget s1" using s1(3,4) assms(2) by simp_all
  obtain s2 where s2: "insertElement k v s1 = Inr (0, s2)" "sl_wf s2"
    "lookupKV s2 = (lookupKV s1)(k \<mapsto> v)" "levelBudget s2 = levelBudget s1 - 1"
    using insertNew_correct[OF s1(2) bud, of k v] none by force
  have "insertSetElement k v s = Inr s2"
    using search_correct[OF assms(1), of k] s1(1) s2(1) by (simp add: insertSetElement_def)
  moreover have "lookupKV s2 = (lookupKV s)(k \<mapsto> v)" using s2(3) s1(3) by simp
  ultimately show ?thesis using s2(2,4) s1(4) by metis
qed

interpretation sl: kv_loader lookupKV sl_wf levelBudget searchElement insertSetElement insertElement
proof unfold_locales
  fix s :: "('a::linorder, 'b) skiplist" and k v
  assume wf: "sl_wf s"
  then show "searchElement k s = Inr (lookupKV s k)" by (rule search_correct)
  assume "0 < levelBudget s"
  with wf show "\<exists>s'. insertSetElement k v s = Inr s' \<and> sl_wf s' \<and>
      lookupKV s' = (lookupKV s)(k \<mapsto> v) \<and> levelBudget s' = levelBudget s - 1"
    and "\<exists>s'. insertElement k v s = Inr (if lookupKV s k = None then 0 else 1, s') \<and> sl_wf s' \<and>
      lookupKV s' = (if lookupKV s k = None then (lookupKV s)(k \<mapsto> v) else lookupKV s) \<and>
      levelBudget s - 1 \<le> levelBudget s'"
    using insertSet_correct[of s k v] insertNew_correct[of s k v] by blast+
qed

lemma sl_inv_new: "sl_inv (newSkipList k0 v0 m rs) []"
  by (auto simp: newSkipList_def sl_inv_def lvlOf_def newNode_def tower_def nxt_def nth_Cons' split: if_splits)

lemma new_correct: "sl_wf (newSkipList k0 v0 m rs) \<and> lookupKV (newSkipList k0 v0 m rs) = Map.empty \<and>
    levelBudget (newSkipList k0 v0 m rs) = length (filter even rs)"
  using sl_inv_new[of k0 v0 m rs] lookupKV_map_of[OF sl_inv_new[of k0 v0 m rs]]
  by (auto simp: sl_wf_def kvList_def levelBudget_def newSkipList_def)

end
