(* ===== verification/SkipListDump.thy ===== *)
theory SkipListDump
  imports SkipListMap "HOL-Library.Sublist"
begin

text \<open>
  What the operations that go through the whole list do: dumping, loading, destruction and
  display.
\<close>

section \<open>Dump and load\<close>

lemma collectDump_map:
  assumes "sl_wf s"
  shows "\<exists>ks vs. collectDump s = Inr (ks, vs) \<and> length ks = length vs \<and> length ks = elementCount s \<and>
    sorted_wrt (<) ks \<and> map_of (zip ks vs) = lookupKV s"
proof -
  from assms obtain xs where inv: "sl_inv s xs" by (auto simp: sl_wf_def)
  have "lookupKV s = map_of (zip (map (keyOf (heap s)) xs) (map (valOf (heap s)) xs))"
    by (simp add: lookupKV_def collectDump_eq[OF inv])
  then show ?thesis using collectDump_eq[OF inv] sl_inv_sorted[OF inv] sl_invD(6)[OF inv] by simp
qed

lemma loadLoop_foldR:
  "length ks \<le> length vs \<Longrightarrow> loadLoop ks vs s =
     foldR (\<lambda>(k, v) t. andThen (insertElement k v t) (\<lambda>(_, t'). Inr t')) (zip ks vs) s"
proof (induction ks vs s rule: loadLoop.induct)
  case (3 k ks v vs s)
  then show ?case by (cases "insertElementNoBlock k v s") (auto simp: insertElement_def)
qed simp_all

lemma loadLoop_map:
  assumes "sl_wf s" and "length ks \<le> length vs" and "length ks \<le> levelBudget s"
  shows "\<exists>s'. loadLoop ks vs s = Inr s' \<and> sl_wf s' \<and> lookupKV s' = map_of (zip ks vs) ++ lookupKV s"
  using sl.insertNew_all[OF assms(1), of "zip ks vs"] assms(2,3) unfolding loadLoop_foldR[OF assms(2)]
  by auto

lemma loadLoop_short:
  "length vs < length ks \<Longrightarrow> \<not> returns (loadLoop ks vs s)"
  by (induction ks vs s rule: loadLoop.induct) (auto simp: returns_iff andThen_eq_Inr)

section \<open>Destruction\<close>

lemma clearNodes_links:
  assumes "links h 0 a xs" and "\<forall>b\<in>set (a # xs). h b \<noteq> None" and "distinct (a # xs)"
    and "length xs < n"
  shows "clearNodes n h a = Inr (h |` (- set (a # xs)))"
  using assms
proof (induction xs arbitrary: a n)
  case Nil
  then obtain m where "n = Suc m" by (cases n) auto
  with Nil show ?case
    by (auto simp: getForward_nxt restrict_map_def fun_eq_iff)
next
  case (Cons b bs)
  then obtain m where n: "n = Suc m" by (cases n) auto
  from Cons.prems n have "clearNodes m h b = Inr (h |` (- set (b # bs)))"
    by (intro Cons.IH) auto
  with Cons.prems n show ?case
    by (auto simp: getForward_nxt restrict_map_def fun_eq_iff)
qed

lemma destroy_frees:
  assumes "sl_wf s"
  shows "destroySkipList s = Inr Map.empty"
proof -
  from assms obtain xs where inv: "sl_inv s xs" by (auto simp: sl_wf_def)
  have links: "links (heap s) 0 (header s) xs"
    using sl_inv_links[OF inv, of 0] by (simp add: tower_0)
  have alloc: "\<forall>b\<in>insert (header s) (set xs). heap s b \<noteq> None"
    using sl_inv_alloc[OF inv] by blast
  have dist: "header s \<notin> set xs" "distinct xs" using sl_inv_distinct[OF inv] by auto
  have dom: "dom (heap s) = insert (header s) (set xs)" using inv by (simp add: sl_inv_def)
  have gone: "heap s b = None" if "b \<noteq> header s" "b \<notin> set xs" for b using dom that by blast
  show ?thesis
  proof (cases xs)
    case Nil
    with links alloc gone show ?thesis by (auto simp: destroySkipList_def getForward_nxt fun_eq_iff)
  next
    case (Cons a ys)
    have "length ys < nextLoc s" using sl_inv_length[OF inv] Cons by simp
    with Cons links alloc dist have "clearNodes (nextLoc s) (heap s) a = Inr (heap s |` (- set xs))"
      using clearNodes_links[of "heap s" a ys "nextLoc s"] by auto
    with Cons links alloc dist gone show ?thesis
      by (auto simp: destroySkipList_def getForward_nxt restrict_map_def fun_eq_iff)
  qed
qed

section \<open>Display\<close>

lemma displayLevel_links:
  assumes "links h i a (c # ys)" and "\<forall>b\<in>set (c # ys). h b \<noteq> None" and "length ys < n"
  shows "displayLevel n h i (Some c) = Inr (kvList h (c # ys))"
  using assms
proof (induction ys arbitrary: a c n)
  case Nil
  then obtain m where "n = Suc m" by (cases n) auto
  with Nil show ?case by (auto simp: getForward_nxt kvList_def keyOf_def valOf_def)
next
  case (Cons b bs)
  then obtain m where n: "n = Suc m" by (cases n) auto
  from Cons.prems n have "displayLevel m h i (Some b) = Inr (kvList h (b # bs))"
    by (intro Cons.IH[of c]) auto
  with Cons.prems n show ?case by (auto simp: getForward_nxt kvList_def keyOf_def valOf_def)
qed

lemma displayLevel_tower:
  assumes inv: "sl_inv s xs" and i: "i \<le> maxLevel s"
  shows "andThen (getForward (heap s) (header s) i) (\<lambda>p.
      andThen (displayLevel (nextLoc s) (heap s) i p) f) = f (kvList (heap s) (tower (heap s) xs i))"
proof -
  have links: "links (heap s) i (header s) (tower (heap s) xs i)" using inv i by (rule sl_inv_links)
  have alloc: "\<forall>b\<in>set (tower (heap s) xs i). heap s b \<noteq> None"
    using sl_inv_alloc[OF inv] set_tower by fastforce
  have len: "length (tower (heap s) xs i) < nextLoc s"
    using sl_inv_length[OF inv] length_filter_le[of "\<lambda>a. i \<le> lvlOf (heap s) a" xs]
    unfolding tower_def by linarith
  show ?thesis
  proof (cases "tower (heap s) xs i")
    case Nil
    with links show ?thesis by (simp add: getForward_nxt kvList_def)
  next
    case (Cons c ys)
    with links alloc len displayLevel_links[of "heap s" i "header s" c ys "nextLoc s"]
    show ?thesis by (simp add: getForward_nxt)
  qed
qed

lemma displayFrom_towers:
  "sl_inv s xs \<Longrightarrow> i \<le> maxLevel s \<Longrightarrow>
   displayFrom s i = Inr (map (\<lambda>j. kvList (heap s) (tower (heap s) xs j)) [0..<Suc i])"
proof (induction i)
  case (Suc i)
  then show ?case using displayLevel_tower[of s xs "Suc i"] by simp
qed (simp add: displayLevel_tower)

lemma displayList_levels:
  assumes "sl_wf s" and "collectDump s = Inr (ks, vs)"
  shows "\<exists>rows. displayList s = Inr rows \<and> length rows = Suc (curLevel s) \<and> rows ! 0 = zip ks vs \<and>
    (\<forall>i<curLevel s. subseq (rows ! Suc i) (rows ! i)) \<and>
    (0 < curLevel s \<longrightarrow> rows ! curLevel s \<noteq> [])"
proof -
  from assms obtain xs where inv: "sl_inv s xs" by (auto simp: sl_wf_def)
  have cur: "curLevel s \<le> maxLevel s" using inv by (simp add: sl_inv_def)
  let ?row = "\<lambda>j. kvList (heap s) (tower (heap s) xs j)"
  have row0: "?row 0 = zip ks vs"
    using assms(2) collectDump_eq[OF inv] by (auto simp: tower_0 kvList_def zip_map_map zip_same_conv_map)
  have sub: "subseq (?row (Suc i)) (?row i)" for i
  proof -
    have "tower (heap s) xs (Suc i) = filter (\<lambda>a. Suc i \<le> lvlOf (heap s) a) (tower (heap s) xs i)"
      unfolding tower_def by (auto intro: filter_cong)
    then show ?thesis unfolding kvList_def by (simp add: subseq_map)
  qed
  have top: "0 < curLevel s \<longrightarrow> ?row (curLevel s) \<noteq> []"
    using inv unfolding sl_inv_def kvList_def tower_def
    by (metis (no_types, lifting) filter_empty_conv order_refl map_is_Nil_conv)
  show ?thesis
    using displayFrom_towers[OF inv cur] row0 sub top
    by (auto simp: displayList_def nth_append less_Suc_eq_le simp del: upt_Suc)
qed

end
