(* ===== verification/SkipListTheorems.thy ===== *)
theory SkipListTheorems
  imports SkipListDump "HOL-Library.Countable"
begin

text \<open>
  The contract of the skip list as its users see it: whole sequences of calls against a
  finite map, the functional behaviour of the single operations, the dump round trip, and
  the absence of leaks.
\<close>

section \<open>Sequences of calls\<close>

datatype ('k, 'v) slCmd = Insert 'k 'v | InsertSet 'k 'v | Delete 'k | Search 'k

datatype 'v slOut = Code int | Done | Found "'v option"

fun slStep :: "('k::linorder, 'v) slCmd \<Rightarrow> ('k, 'v) skiplist \<Rightarrow> ('v slOut \<times> ('k, 'v) skiplist) res" where
  "slStep (Insert k v) s = andThen (insertElement k v s) (\<lambda>(r, s'). Inr (Code r, s'))"
| "slStep (InsertSet k v) s = andThen (insertSetElement k v s) (\<lambda>s'. Inr (Done, s'))"
| "slStep (Delete k) s = andThen (deleteElement k s) (\<lambda>s'. Inr (Done, s'))"
| "slStep (Search k) s = andThen (searchElement k s) (\<lambda>r. Inr (Found r, s))"

fun mapStep :: "('k, 'v) slCmd \<Rightarrow> ('k \<Rightarrow> 'v option) \<Rightarrow> 'v slOut \<times> ('k \<Rightarrow> 'v option)" where
  "mapStep (Insert k v) m = (if m k = None then (Code 0, m(k \<mapsto> v)) else (Code 1, m))"
| "mapStep (InsertSet k v) m = (Done, m(k \<mapsto> v))"
| "mapStep (Delete k) m = (Done, m(k := None))"
| "mapStep (Search k) m = (Found (m k), m)"

fun slRun :: "('k::linorder, 'v) slCmd list \<Rightarrow> ('k, 'v) skiplist \<Rightarrow> ('v slOut list \<times> ('k, 'v) skiplist) res" where
  "slRun [] s = Inr ([], s)"
| "slRun (c # cs) s = andThen (slStep c s) (\<lambda>(x, s1). andThen (slRun cs s1) (\<lambda>(xs, s2). Inr (x # xs, s2)))"

fun mapRun :: "('k, 'v) slCmd list \<Rightarrow> ('k \<Rightarrow> 'v option) \<Rightarrow> 'v slOut list \<times> ('k \<Rightarrow> 'v option)" where
  "mapRun [] m = ([], m)"
| "mapRun (c # cs) m = (let (x, m1) = mapStep c m; (xs, m2) = mapRun cs m1 in (x # xs, m2))"

lemma slStep_map:
  assumes "sl_wf s" and "0 < levelBudget s"
  shows "\<exists>x s'. slStep c s = Inr (x, s') \<and> sl_wf s' \<and> mapStep c (lookupKV s) = (x, lookupKV s') \<and>
    levelBudget s - 1 \<le> levelBudget s'"
proof (cases c)
  case (Insert k v)
  with insertNew_correct[OF assms, of k v] show ?thesis by (cases "lookupKV s k") auto
next
  case (InsertSet k v)
  with insertSet_correct[OF assms, of k v] show ?thesis by auto
next
  case (Delete k)
  with delete_correct[OF assms(1), of k] show ?thesis by auto
next
  case (Search k)
  with search_correct[OF assms(1), of k] assms show ?thesis by auto
qed

lemma slRun_map:
  assumes "sl_wf s" and "length cs \<le> levelBudget s"
  shows "\<exists>xs s'. slRun cs s = Inr (xs, s') \<and> sl_wf s' \<and> mapRun cs (lookupKV s) = (xs, lookupKV s')"
  using assms
proof (induction cs arbitrary: s)
  case (Cons c cs)
  then obtain x s1 where s1: "slStep c s = Inr (x, s1)" "sl_wf s1"
    "mapStep c (lookupKV s) = (x, lookupKV s1)" "levelBudget s - 1 \<le> levelBudget s1"
    using slStep_map[of s c] by auto
  with Cons.prems have "length cs \<le> levelBudget s1" by simp
  with Cons.IH[OF s1(2)] s1 show ?case by (auto split: prod.splits)
qed simp

lemma elementCount_card:
  assumes "sl_wf s" shows "elementCount s = card (dom (lookupKV s))"
proof -
  from collectDump_map[OF assms] obtain ks vs where d: "length ks = length vs"
    "length ks = elementCount s" "sorted_wrt (<) ks" "map_of (zip ks vs) = lookupKV s" by blast
  have "dom (map_of (zip ks vs)) = set ks" using d(1) by (simp add: dom_map_of_zip)
  moreover have "distinct ks" using d(3) by (simp add: strict_sorted_iff)
  ultimately show ?thesis using d by (metis distinct_card)
qed

lemma new_budget: "levelBudget (newSkipList k0 v0 m rs) = length (filter even rs)"
  by (simp add: levelBudget_def newSkipList_def)

lemmas new_wf = new_correct[THEN conjunct1]

definition sampleList :: "(int, string) skiplist" where
  \<comment> \<open>a small instance for the examples\<close>
  "sampleList = newSkipList 0 ''v'' 6 [3, 3, 2, 1, 0]"

lemma sampleList_facts: "sl_wf sampleList" "levelBudget sampleList = 2" "elementCount sampleList = 0"
  by (simp_all add: sampleList_def new_wf new_budget) (simp add: newSkipList_def)

text \<open>C7: from the constructor on, every sequence of inserts, replacing inserts, deletes and
  searches returns (given one even random number per call), answers exactly as a finite map
  does, leaves a well-formed list that represents that map, and counts its elements.\<close>

theorem skiplist_refines_map:
  assumes "length cs \<le> length (filter even rs)"
  shows "\<exists>xs s. slRun cs (newSkipList k0 v0 m rs) = Inr (xs, s) \<and> sl_wf s \<and>
    mapRun cs Map.empty = (xs, lookupKV s) \<and> elementCount s = card (dom (lookupKV s))"
  using slRun_map[OF new_wf, of cs k0 v0 m rs] new_correct[of k0 v0 m rs] assms
  using elementCount_card by (metis (no_types, lifting))

theorem skiplist_refines_map_witness:
  "\<exists>xs s. slRun [Insert (3::int) ''a'', InsertSet 3 ''b'', Insert 1 ''c'', Delete 3, Search 1]
      (newSkipList 0 [] 6 [1, 2, 4, 3, 3, 6, 8, 0]) = Inr (xs, s) \<and> sl_wf s \<and>
    mapRun [Insert 3 ''a'', InsertSet 3 ''b'', Insert 1 ''c'', Delete 3, Search 1] Map.empty = (xs, lookupKV s) \<and>
    elementCount s = card (dom (lookupKV s))"
  by (rule skiplist_refines_map) simp

section \<open>The single operations\<close>

text \<open>\<open>insertElement\<close> on a well-formed list returns 0 and adds the pair when the key is absent;
  when the key is present it returns 1 and changes nothing.\<close>

lemma insertElement_contract:
  assumes "sl_wf s" and "0 < levelBudget s"
  shows "\<exists>s'. insertElement k v s = Inr (if lookupKV s k = None then 0 else 1, s') \<and> sl_wf s' \<and>
    (if lookupKV s k = None
     then lookupKV s' = (lookupKV s)(k \<mapsto> v) \<and> elementCount s' = elementCount s + 1
     else s' = s)"
proof (cases "lookupKV s k")
  case None
  with insertNew_correct[OF assms, of k v] show ?thesis by auto
next
  case (Some v')
  from assms(1) obtain xs where inv: "sl_inv s xs" by (auto simp: sl_wf_def)
  then have "k \<in> keyOf (heap s) ` set xs" using lookupKV_notin[OF inv, of k] Some by auto
  with insertElement_old[OF inv] Some assms(1) show ?thesis by (auto simp: insertElement_def)
qed

lemma insertElement_contract_witness:
  "\<exists>s'. insertElement 5 ''x'' sampleList = Inr (if lookupKV sampleList 5 = None then 0 else 1, s') \<and>
    sl_wf s' \<and>
    (if lookupKV sampleList 5 = None
     then lookupKV s' = (lookupKV sampleList)(5 \<mapsto> ''x'') \<and> elementCount s' = elementCount sampleList + 1
     else s' = sampleList)"
  by (rule insertElement_contract) (simp_all add: sampleList_facts)

text \<open>\<open>deleteElement\<close> removes exactly the given key, keeps the list well-formed, decrements
  the counter exactly when the key was there, and never touches freed memory.\<close>

lemma deleteElement_contract:
  assumes "sl_wf s"
  shows "\<exists>s'. deleteElement k s = Inr s' \<and> sl_wf s' \<and> lookupKV s' = (lookupKV s)(k := None) \<and>
    elementCount s' = (if lookupKV s k = None then elementCount s else elementCount s - 1)"
  using delete_correct[OF assms, of k] by blast

lemma deleteElement_sample:
  "\<exists>s'. deleteElement 5 sampleList = Inr s' \<and> sl_wf s' \<and> lookupKV s' = (lookupKV sampleList)(5 := None) \<and>
    elementCount s' = (if lookupKV sampleList 5 = None then elementCount sampleList
      else elementCount sampleList - 1)"
  by (rule deleteElement_contract) (rule sampleList_facts)

text \<open>\<open>getRandomLevel\<close> draws until the first even number; the level is one more than the odd
  numbers drawn, capped at \<open>maxLevel\<close>, and it returns exactly if an even number comes.\<close>

lemma getRandomLevel_spec:
  "getRandomLevel s =
     (if \<exists>r\<in>set (rands s). even r
      then Inr (min (Suc (length (takeWhile odd (rands s)))) (maxLevel s),
                s\<lparr>rands := tl (dropWhile odd (rands s))\<rparr>)
      else Inl NoReturn)"
proof -
  have "countOdd k rs =
      (if \<exists>r\<in>set rs. even r then Inr (k + length (takeWhile odd rs), tl (dropWhile odd rs))
       else Inl NoReturn)" for k rs
  proof (induction rs arbitrary: k)
    case (Cons r rs)
    then show ?case by (cases "even r") (auto simp: odd_iff_mod_2_eq_one even_iff_mod_2_eq_zero)
  qed simp
  from this[of 1 "rands s"] show ?thesis by (auto simp: getRandomLevel_def min_def)
qed

section \<open>Dump and load\<close>

text \<open>What the archive library promises: an object written is read back as it was, and the text
  is not empty.\<close>

definition archive_ok :: "('d \<Rightarrow> string) \<Rightarrow> (string \<Rightarrow> 'd option) \<Rightarrow> bool" where
  "archive_ok oar iar \<longleftrightarrow> (\<forall>d. iar (oar d) = Some d \<and> oar d \<noteq> [])"

lemma dumpFile_loadLoop:
  assumes "archive_ok oar iar" and "sl_wf s"
  shows "\<exists>ks vs. dumpFile oar s = Inr (oar (ks, vs)) \<and>
    loadFile iar (oar (ks, vs)) t = loadLoop ks vs t \<and> length ks = length vs \<and>
    length ks = elementCount s \<and> map_of (zip ks vs) = lookupKV s"
proof -
  from collectDump_map[OF assms(2)] obtain ks vs where d: "collectDump s = Inr (ks, vs)"
    "length ks = length vs" "length ks = elementCount s" "map_of (zip ks vs) = lookupKV s" by blast
  then show ?thesis using assms(1)
    by (intro exI[of _ ks] exI[of _ vs]) (simp add: dumpFile_def loadFile_def archive_ok_def)
qed

text \<open>C29: dumping a list and loading the text gives, whatever the target list held, a well-formed
  list that has every key of the dump; keys the target held before keep their \<^emph>\<open>old\<close> values, so
  into an empty list the round trip is the identity on the map.\<close>

theorem dump_load_merge:
  assumes "archive_ok oar iar" and "sl_wf s" and "sl_wf t"
    and "elementCount s \<le> levelBudget t"
  shows "\<exists>text t'. dumpFile oar s = Inr text \<and> loadFile iar text t = Inr t' \<and> sl_wf t' \<and>
    lookupKV t' = lookupKV s ++ lookupKV t \<and>
    (lookupKV t = Map.empty \<longrightarrow> lookupKV t' = lookupKV s \<and> elementCount t' = elementCount s)"
proof -
  from dumpFile_loadLoop[OF assms(1,2), of t] obtain ks vs where d: "dumpFile oar s = Inr (oar (ks, vs))"
    "loadFile iar (oar (ks, vs)) t = loadLoop ks vs t" "length ks = length vs"
    "length ks = elementCount s" "map_of (zip ks vs) = lookupKV s" by blast
  with loadLoop_map[OF assms(3), of ks vs] assms(4) obtain t' where t': "loadLoop ks vs t = Inr t'"
    "sl_wf t'" "lookupKV t' = lookupKV s ++ lookupKV t" by auto
  then have "lookupKV t = Map.empty \<longrightarrow> elementCount t' = elementCount s"
    using elementCount_card[OF t'(2)] elementCount_card[OF assms(2)] by simp
  with d t' show ?thesis by auto
qed

definition sampleWrite :: "'d::countable \<Rightarrow> string" where
  "sampleWrite d = replicate (Suc (to_nat d)) CHR ''.''"

definition sampleRead :: "string \<Rightarrow> 'd::countable option" where
  "sampleRead text = (if text = [] then None else Some (from_nat (length text - 1)))"

lemma sampleArchive_ok: "archive_ok sampleWrite sampleRead"
  by (simp add: archive_ok_def sampleWrite_def sampleRead_def)

theorem dump_load_merge_witness:
  "\<exists>text t'. dumpFile sampleWrite sampleList = Inr text \<and> loadFile sampleRead text sampleList = Inr t' \<and>
    sl_wf t' \<and> lookupKV t' = lookupKV sampleList ++ lookupKV sampleList \<and>
    (lookupKV sampleList = Map.empty \<longrightarrow>
       lookupKV t' = lookupKV sampleList \<and> elementCount t' = elementCount sampleList)"
  by (rule dump_load_merge[OF sampleArchive_ok]) (simp_all add: sampleList_facts)

section \<open>Destruction and display\<close>

text \<open>C30: after any sequence of operations the destructor frees every node exactly once: no cell of
  the heap remains, and no freed or unallocated cell is followed.\<close>

theorem destroy_after_run:
  assumes "length cs \<le> length (filter even rs)"
    and "slRun cs (newSkipList k0 v0 m rs) = Inr (xs, s)"
  shows "destroySkipList s = Inr Map.empty"
  using slRun_map[OF new_wf, of cs k0 v0 m rs] assms new_budget[of k0 v0 m rs]
  by (auto intro: destroy_frees)

theorem destroy_after_run_witness:
  "\<exists>xs s. slRun [Insert (3::int) ''a'', Insert 1 ''b'', Delete 3] (newSkipList 0 [] 2 [3, 2, 2, 2]) = Inr (xs, s)
     \<and> destroySkipList s = Inr Map.empty"
proof -
  let ?cs = "[Insert (3::int) ''a'', Insert 1 ''b'', Delete 3]" and ?rs = "[3, 2, 2, 2::nat]"
  have "length ?cs \<le> levelBudget (newSkipList (0::int) ([]::string) 2 ?rs)" by (simp add: new_budget)
  from slRun_map[OF new_wf this] obtain xs s where run: "slRun ?cs (newSkipList 0 [] 2 ?rs) = Inr (xs, s)"
    by metis
  have "length ?cs \<le> length (filter even ?rs)" by simp
  from destroy_after_run[OF this run] run show ?thesis by blast
qed

text \<open>\<open>displayList\<close> prints one row per level; row 0 is the whole content in key order, each row
  is a subsequence of the one below, and the top row of a list with levels is not empty.\<close>

theorem displayList_rows:
  assumes "sl_wf s"
  shows "\<exists>rows ks vs. displayList s = Inr rows \<and> length rows = Suc (curLevel s) \<and>
    rows ! 0 = zip ks vs \<and> sorted_wrt (<) ks \<and> map_of (zip ks vs) = lookupKV s \<and>
    (\<forall>i<curLevel s. subseq (rows ! Suc i) (rows ! i)) \<and> (0 < curLevel s \<longrightarrow> rows ! curLevel s \<noteq> [])"
proof -
  from collectDump_map[OF assms] obtain ks vs where d: "collectDump s = Inr (ks, vs)"
    "sorted_wrt (<) ks" "map_of (zip ks vs) = lookupKV s" by blast
  from displayList_levels[OF assms d(1)] d(2,3) show ?thesis by metis
qed

theorem displayList_rows_witness:
  "\<exists>rows ks vs. displayList sampleList = Inr rows \<and> length rows = Suc (curLevel sampleList) \<and>
    rows ! 0 = zip ks vs \<and> sorted_wrt (<) ks \<and> map_of (zip ks vs) = lookupKV sampleList \<and>
    (\<forall>i<curLevel sampleList. subseq (rows ! Suc i) (rows ! i)) \<and>
    (0 < curLevel sampleList \<longrightarrow> rows ! curLevel sampleList \<noteq> [])"
  by (rule displayList_rows) (rule sampleList_facts)

end
