(* ===== verification/Persister.thy ===== *)
theory Persister
  imports Prelude
begin

text \<open>
  The persister of \<^verbatim>\<open>src/raftCore/Persisiter.cpp\<close>: two files per server, each replaced by
  writing a temporary file and renaming it.  The file system is a map from names to contents.
  What the operating system answers to a write is an input (\<open>ioOutcomes\<close>; an exhausted list
  means success).
\<close>

section \<open>State\<close>

type_synonym disk = "string \<rightharpoonup> string"

text \<open>How one write of a file can go: the temporary file is not opened; only \<open>n\<close> bytes reach it
  (the result of \<^verbatim>\<open>write\<close> and \<^verbatim>\<open>close\<close> is not looked at); \<^verbatim>\<open>rename\<close> fails.\<close>

datatype ioOutcome = IoOk | OpenFails | ShortWrite nat | RenameFails

record persister =
  raftStateFileName :: string
  raftSnapshotFileName :: string
  raftStateSize :: int
  disk :: disk
  ioOutcomes :: "ioOutcome list"

definition nextIo :: "persister \<Rightarrow> ioOutcome \<times> persister" where
  "nextIo p = (case ioOutcomes p of [] \<Rightarrow> (IoOk, p) | x # xs \<Rightarrow> (x, p\<lparr>ioOutcomes := xs\<rparr>))"

section \<open>Operations\<close>

definition tempName :: "string \<Rightarrow> string" where
  "tempName fileName = fileName @ ''.temp''"

definition newPersister :: "int \<Rightarrow> disk \<Rightarrow> ioOutcome list \<Rightarrow> persister" where
  "newPersister raftId d io =
     (let stateFile = ''raftstate'' @ showInt raftId @ ''.txt'';
          snapFile = ''raftsnap'' @ showInt raftId @ ''.txt''
      in case d stateFile of
           Some content \<Rightarrow> \<lparr>raftStateFileName = stateFile, raftSnapshotFileName = snapFile,
             raftStateSize = int (length content), disk = d, ioOutcomes = io\<rparr>
         | None \<Rightarrow> \<lparr>raftStateFileName = stateFile, raftSnapshotFileName = snapFile,
             raftStateSize = 0, disk = d(stateFile \<mapsto> []), ioOutcomes = io\<rparr>)"

definition ReadRawData :: "string \<Rightarrow> disk \<Rightarrow> string" where
  "ReadRawData fileName d = (case d fileName of None \<Rightarrow> [] | Some buf \<Rightarrow> buf)"

definition renameTemp :: "string \<Rightarrow> string \<Rightarrow> disk \<Rightarrow> disk" where
  "renameTemp fileName content d = d(tempName fileName := None, fileName \<mapsto> content)"

definition atomicWrite :: "string \<Rightarrow> string \<Rightarrow> persister \<Rightarrow> persister" where
  "atomicWrite fileName content p =
     (case nextIo p of
        (IoOk, p1) \<Rightarrow> p1\<lparr>disk := renameTemp fileName content (disk p1)\<rparr>
      | (OpenFails, p1) \<Rightarrow> p1
      | (ShortWrite n, p1) \<Rightarrow> p1\<lparr>disk := renameTemp fileName (take n content) (disk p1)\<rparr>
      | (RenameFails, p1) \<Rightarrow> p1\<lparr>disk := (disk p1)(tempName fileName \<mapsto> content)\<rparr>)"

definition SaveRaftState :: "string \<Rightarrow> persister \<Rightarrow> persister" where
  "SaveRaftState state p =
     (let p1 = atomicWrite (raftStateFileName p) state p
      in p1\<lparr>raftStateSize := int (length state)\<rparr>)"

definition Save :: "string \<Rightarrow> string \<Rightarrow> persister \<Rightarrow> persister" where
  "Save state snapShot p =
     (let p1 = atomicWrite (raftStateFileName p) state p;
          p2 = atomicWrite (raftSnapshotFileName p1) snapShot p1
      in p2\<lparr>raftStateSize := int (length state)\<rparr>)"

definition ReadRaftState :: "persister \<Rightarrow> string" where
  "ReadRaftState p = ReadRawData (raftStateFileName p) (disk p)"

definition ReadSnapshot :: "persister \<Rightarrow> string" where
  "ReadSnapshot p = ReadRawData (raftSnapshotFileName p) (disk p)"

definition RaftStateSize :: "persister \<Rightarrow> int" where
  "RaftStateSize p = raftStateSize p"

section \<open>Crash points\<close>

text \<open>The disks a crash inside one undisturbed write can leave behind, in order: nothing done, the
  temporary file with any part of the data, the file renamed.\<close>

definition writePoints :: "string \<Rightarrow> string \<Rightarrow> disk \<Rightarrow> disk list" where
  "writePoints fileName content d =
     d # map (\<lambda>n. d(tempName fileName \<mapsto> take n content)) [0..<Suc (length content)] @
     [renameTemp fileName content d]"

definition savePoints :: "string \<Rightarrow> string \<Rightarrow> persister \<Rightarrow> disk list" where
  "savePoints state snapShot p =
     (let ps = writePoints (raftStateFileName p) state (disk p)
      in ps @ writePoints (raftSnapshotFileName p) snapShot (last ps))"

section \<open>What a write does to the files\<close>

text \<open>Different names, neither of which is the other's temporary file.\<close>

definition p_wf :: "persister \<Rightarrow> bool" where
  "p_wf p \<longleftrightarrow> raftStateFileName p \<noteq> raftSnapshotFileName p \<and>
     raftStateFileName p \<noteq> tempName (raftSnapshotFileName p) \<and>
     raftSnapshotFileName p \<noteq> tempName (raftStateFileName p)"

definition p_ok :: "persister \<Rightarrow> bool" where
  \<comment> \<open>well-formed, and no write is going to fail\<close>
  "p_ok p \<longleftrightarrow> p_wf p \<and> ioOutcomes p = []"

lemma tempName_neq [simp]: "tempName f \<noteq> f" "f \<noteq> tempName f"
  by (simp_all add: tempName_def)

lemma newPersister_wf: "p_wf (newPersister i d io)"
  by (auto simp: p_wf_def newPersister_def Let_def tempName_def split: option.splits)

lemma newPersister_ok: "p_ok (newPersister i d [])"
  using newPersister_wf[of i d "[]"]
  by (auto simp: p_ok_def newPersister_def Let_def split: option.splits)

lemma atomicWrite_fields [simp]:
  "raftStateFileName (atomicWrite f x p) = raftStateFileName p"
  "raftSnapshotFileName (atomicWrite f x p) = raftSnapshotFileName p"
  "raftStateSize (atomicWrite f x p) = raftStateSize p"
  by (auto simp: atomicWrite_def nextIo_def split: list.splits ioOutcome.splits)

lemma atomicWrite_ok:
  "ioOutcomes p = [] \<Longrightarrow> atomicWrite f x p = p\<lparr>disk := renameTemp f x (disk p)\<rparr>"
  by (simp add: atomicWrite_def nextIo_def)

lemma ReadRawData_rename:
  "g \<noteq> tempName f \<Longrightarrow> ReadRawData g (renameTemp f x d) = (if g = f then x else ReadRawData g d)"
  by (simp add: ReadRawData_def renameTemp_def)

lemma SaveRaftState_read:
  assumes "p_ok p"
  shows "ReadRaftState (SaveRaftState x p) = x" "ReadSnapshot (SaveRaftState x p) = ReadSnapshot p"
    "p_ok (SaveRaftState x p)" "RaftStateSize (SaveRaftState x p) = int (length x)"
  using assms
  by (auto simp: SaveRaftState_def p_ok_def p_wf_def Let_def ReadRaftState_def ReadSnapshot_def
      atomicWrite_ok ReadRawData_rename RaftStateSize_def)

lemma Save_read:
  assumes "p_ok p"
  shows "ReadRaftState (Save x y p) = x" "ReadSnapshot (Save x y p) = y" "p_ok (Save x y p)"
    "RaftStateSize (Save x y p) = int (length x)"
  using assms
  by (auto simp: Save_def p_ok_def p_wf_def Let_def ReadRaftState_def ReadSnapshot_def
      atomicWrite_ok ReadRawData_rename RaftStateSize_def)

lemma writePoints_read:
  assumes "d' \<in> set (writePoints f x d)" and "g \<noteq> tempName f"
  shows "ReadRawData g d' = ReadRawData g d \<or> g = f \<and> ReadRawData g d' = x"
proof -
  from assms(1) consider "d' = d" | n where "d' = d(tempName f \<mapsto> take n x)" | "d' = renameTemp f x d"
    by (fastforce simp: writePoints_def simp del: upt_Suc)
  then show ?thesis
  proof cases
    case 2
    with assms(2) show ?thesis by (simp add: ReadRawData_def)
  qed (use assms(2) in \<open>auto simp: ReadRawData_rename\<close>)
qed

lemma writePoints_last [simp]: "last (writePoints f x d) = renameTemp f x d"
  by (simp add: writePoints_def)

section \<open>Crashes and failing writes\<close>


definition samplePersister :: persister where
  \<comment> \<open>server 3 on an empty disk, for the examples\<close>
  "samplePersister = newPersister 3 Map.empty []"


text \<open>What \<open>SaveRaftState\<close> leaves for the next start, for every answer of the operating system:
  the new state after success, the old one when the temporary file cannot be opened or not be
  renamed, and a truncated state when the write stops short; the size reported afterwards is
  that of the new state in every case.\<close>

theorem SaveRaftState_outcomes:
  assumes "p_wf p"
  shows "ReadRaftState (SaveRaftState x p) =
      (case fst (nextIo p) of IoOk \<Rightarrow> x | OpenFails \<Rightarrow> ReadRaftState p | ShortWrite n \<Rightarrow> take n x
       | RenameFails \<Rightarrow> ReadRaftState p) \<and>
    ReadSnapshot (SaveRaftState x p) = ReadSnapshot p \<and>
    RaftStateSize (SaveRaftState x p) = int (length x) \<and> p_wf (SaveRaftState x p)"
  using assms
  by (auto simp: SaveRaftState_def Let_def atomicWrite_def nextIo_def ReadRaftState_def ReadSnapshot_def
      RaftStateSize_def p_wf_def ReadRawData_rename ReadRawData_def renameTemp_def tempName_def
      split: list.splits ioOutcome.splits)

theorem SaveRaftState_outcomes_witness:
  "ReadRaftState (SaveRaftState ''abc'' (samplePersister\<lparr>ioOutcomes := [ShortWrite 2]\<rparr>)) =
      (case fst (nextIo (samplePersister\<lparr>ioOutcomes := [ShortWrite 2]\<rparr>)) of IoOk \<Rightarrow> ''abc''
       | OpenFails \<Rightarrow> ReadRaftState (samplePersister\<lparr>ioOutcomes := [ShortWrite 2]\<rparr>)
       | ShortWrite n \<Rightarrow> take n ''abc''
       | RenameFails \<Rightarrow> ReadRaftState (samplePersister\<lparr>ioOutcomes := [ShortWrite 2]\<rparr>)) \<and>
    ReadSnapshot (SaveRaftState ''abc'' (samplePersister\<lparr>ioOutcomes := [ShortWrite 2]\<rparr>)) =
      ReadSnapshot (samplePersister\<lparr>ioOutcomes := [ShortWrite 2]\<rparr>) \<and>
    RaftStateSize (SaveRaftState ''abc'' (samplePersister\<lparr>ioOutcomes := [ShortWrite 2]\<rparr>)) = int (length ''abc'') \<and>
    p_wf (SaveRaftState ''abc'' (samplePersister\<lparr>ioOutcomes := [ShortWrite 2]\<rparr>))"
  by (rule SaveRaftState_outcomes)
    (use newPersister_wf[of 3 Map.empty "[]"] in \<open>simp add: p_wf_def samplePersister_def\<close>)

end
