(* ===== verification/Transitions.thy ===== *)
theory Transitions
  imports Main
begin

text \<open>
  Reachable states of a step relation, and the contract of an inductive invariant: the
  components that run concurrently (a server, the cluster, a key-value server) interpret the
  locale with their own steps.
\<close>

inductive reach :: "('s \<Rightarrow> bool) \<Rightarrow> ('s \<Rightarrow> 's \<Rightarrow> bool) \<Rightarrow> 's \<Rightarrow> bool" for init step where
  reach_init: "init s \<Longrightarrow> reach init step s"
| reach_step: "reach init step s \<Longrightarrow> step s s' \<Longrightarrow> reach init step s'"

lemma reach_mono:
  assumes "reach init step s" and "\<And>s. init s \<Longrightarrow> init' s" and "\<And>s s'. step s s' \<Longrightarrow> step' s s'"
  shows "reach init' step' s"
  using assms(1) by (induction rule: reach.induct) (auto intro: reach.intros assms(2,3))

locale invariant_of =
  fixes init :: "'s \<Rightarrow> bool" and step :: "'s \<Rightarrow> 's \<Rightarrow> bool" and inv :: "'s \<Rightarrow> bool"
  assumes inv_init: "init s \<Longrightarrow> inv s"
    and inv_step: "inv s \<Longrightarrow> step s s' \<Longrightarrow> inv s'"
begin

lemma reach_inv: "reach init step s \<Longrightarrow> inv s"
  by (induction rule: reach.induct) (auto intro: inv_init inv_step)

lemma reach_step_inv: "reach init step s \<Longrightarrow> step s s' \<Longrightarrow> inv s \<and> inv s'"
  using reach_inv inv_step by blast

end

text \<open>A step relation whose steps never decrease a measure of progress.\<close>

locale monotone_steps =
  fixes step :: "'s \<Rightarrow> 's \<Rightarrow> bool" and prog :: "'s \<Rightarrow> 'm::preorder"
  assumes step_mono: "step s s' \<Longrightarrow> prog s \<le> prog s'"
begin

lemma steps_mono: "step\<^sup>*\<^sup>* s s' \<Longrightarrow> prog s \<le> prog s'"
  by (induction rule: rtranclp_induct) (auto intro: order_trans step_mono)

end

end
