(* ===== verification/RaftState.thy ===== *)
theory RaftState
  imports Persister "HOL-Library.Countable"
begin

text \<open>
  The state of one Raft server (\<^verbatim>\<open>src/raftCore/include/raft.h\<close>), the messages of
  \<^verbatim>\<open>raftRPC.proto\<close>, and the operations of \<^verbatim>\<open>raft.cpp\<close> on log indices and on the persisted
  state.  Log indices and terms are the \<open>int\<close>s of the code (\<^verbatim>\<open>int\<close>/\<^verbatim>\<open>int32\<close>, taken as unbounded:
  both only ever grow by one).  An RPC handler or a thread body runs under the server's
  mutex and is one function from state to state; threads it starts are returned as values of type
  \<open>spawn\<close>, and a counter shared by several threads (\<^verbatim>\<open>shared_ptr<int>\<close>) is a cell of an explicit
  store, addressed by its position.
\<close>

section \<open>Messages\<close>

record logEntry =
  command :: string
  logterm :: int
  logindex :: int

record appendEntriesArgs =
  ae_term :: int
  ae_leaderid :: int
  ae_prevlogindex :: int
  ae_prevlogterm :: int
  ae_entries :: "logEntry list"
  ae_leadercommit :: int

record appendEntriesReply =
  aer_term :: int
  aer_success :: bool
  aer_updatenextindex :: int
  aer_appstate :: int

record requestVoteArgs =
  rv_term :: int
  rv_candidateid :: int
  rv_lastlogindex :: int
  rv_lastlogterm :: int

record requestVoteReply =
  rvr_term :: int
  rvr_votegranted :: bool
  rvr_votestate :: int

record installSnapshotRequest =
  is_leaderid :: int
  is_term :: int
  is_lastsnapshotincludeindex :: int
  is_lastsnapshotincludeterm :: int
  is_data :: string

record installSnapshotResponse =
  isr_term :: int

text \<open>Fresh protobuf replies: every field has its default.\<close>

definition emptyAppendReply :: appendEntriesReply where
  "emptyAppendReply = \<lparr>aer_term = 0, aer_success = False, aer_updatenextindex = 0, aer_appstate = 0\<rparr>"

definition Disconnected :: int where "Disconnected = 0"
definition AppNormal :: int where "AppNormal = 1"

text \<open>\<^verbatim>\<open>enum VoteState { Killed = 0, Voted, Expire, Normal }\<close>\<close>

definition Killed :: int where "Killed = 0"
definition Voted :: int where "Voted = 1"
definition Expire :: int where "Expire = 2"
definition Normal :: int where "Normal = 3"

record applyMsg =
  CommandValid :: bool
  Command :: string
  CommandIndex :: int
  SnapshotValid :: bool
  Snapshot :: string
  SnapshotTerm :: int
  SnapshotIndex :: int

definition newApplyMsg :: applyMsg where
  "newApplyMsg = \<lparr>CommandValid = False, Command = [], CommandIndex = -1, SnapshotValid = False,
     Snapshot = [], SnapshotTerm = -1, SnapshotIndex = -1\<rparr>"

section \<open>The server\<close>

datatype status = Follower | Candidate | Leader

record raft =
  npeers :: nat \<comment> \<open>\<^verbatim>\<open>peers_.size()\<close>, this server included\<close>
  raftId :: int
  currentTerm :: int
  votedFor :: int
  logs :: "logEntry list"
  commitIndex :: int
  lastApplied :: int
  nextIndex :: "int list"
  matchIndex :: "int list"
  status :: status
  lastResetElectionTime :: int
  lastResetHearBeatTime :: int
  lastSnapshotIncludeIndex :: int
  lastSnapshotIncludeTerm :: int
  persister :: persister
  voteNums :: "int list" \<comment> \<open>one cell per election started\<close>
  appendNums :: "int list" \<comment> \<open>one cell per heartbeat round\<close>

text \<open>The threads a step starts, with what they capture.\<close>

datatype spawn =
    SendRequestVote int requestVoteArgs nat
  | SendAppendEntries int appendEntriesArgs nat
  | LeaderSendSnapshot int
  | DoHeartBeat
  | PushMsgToKvServer applyMsg

text \<open>\<^verbatim>\<open>peers_.size() / 2 + 1\<close>\<close>

definition majority :: "raft \<Rightarrow> int" where
  "majority r = int (npeers r div 2) + 1"

section \<open>Log indices\<close>

definition getLastLogIndexAndTerm :: "raft \<Rightarrow> int \<times> int" where
  "getLastLogIndexAndTerm r =
     (if logs r = [] then (lastSnapshotIncludeIndex r, lastSnapshotIncludeTerm r)
      else (logindex (last (logs r)), logterm (last (logs r))))"

definition getLastLogIndex :: "raft \<Rightarrow> int" where
  "getLastLogIndex r = fst (getLastLogIndexAndTerm r)"

definition getLastLogTerm :: "raft \<Rightarrow> int" where
  "getLastLogTerm r = snd (getLastLogIndexAndTerm r)"

definition getNewCommandIndex :: "raft \<Rightarrow> int" where
  "getNewCommandIndex r = getLastLogIndex r + 1"

definition getSlicesIndexFromLogIndex :: "raft \<Rightarrow> int \<Rightarrow> int res" where
  "getSlicesIndexFromLogIndex r logIndex =
     andThen (myAssert (logIndex > lastSnapshotIncludeIndex r)) (\<lambda>_.
     andThen (myAssert (logIndex \<le> getLastLogIndex r)) (\<lambda>_.
       Inr (logIndex - lastSnapshotIncludeIndex r - 1)))"

definition entryAt :: "raft \<Rightarrow> int \<Rightarrow> logEntry res" where
  \<comment> \<open>\<^verbatim>\<open>logs_[getSlicesIndexFromLogIndex(logIndex)]\<close>\<close>
  "entryAt r logIndex = andThen (getSlicesIndexFromLogIndex r logIndex) (vecGet (logs r))"

definition getLogTermFromLogIndex :: "raft \<Rightarrow> int \<Rightarrow> int res" where
  "getLogTermFromLogIndex r logIndex =
     andThen (myAssert (logIndex \<ge> lastSnapshotIncludeIndex r)) (\<lambda>_.
     andThen (myAssert (logIndex \<le> getLastLogIndex r)) (\<lambda>_.
       if logIndex = lastSnapshotIncludeIndex r then Inr (lastSnapshotIncludeTerm r)
       else andThen (entryAt r logIndex) (\<lambda>e. Inr (logterm e))))"

definition matchLog :: "raft \<Rightarrow> int \<Rightarrow> int \<Rightarrow> bool res" where
  "matchLog r logIndex logTerm =
     andThen (myAssert (logIndex \<ge> lastSnapshotIncludeIndex r \<and> logIndex \<le> getLastLogIndex r)) (\<lambda>_.
     andThen (getLogTermFromLogIndex r logIndex) (\<lambda>t. Inr (logTerm = t)))"

definition upToDate :: "raft \<Rightarrow> int \<Rightarrow> int \<Rightarrow> bool" where
  "upToDate r index trm =
     (case getLastLogIndexAndTerm r of (lastLogIndex, lastLogTerm) \<Rightarrow>
        trm > lastLogTerm \<or> (trm = lastLogTerm \<and> index \<ge> lastLogIndex))"

definition getPrevLogInfo :: "raft \<Rightarrow> int \<Rightarrow> (int \<times> int) res" where
  "getPrevLogInfo r peer =
     andThen (vecGet (nextIndex r) peer) (\<lambda>next.
       if next = lastSnapshotIncludeIndex r + 1
       then Inr (lastSnapshotIncludeIndex r, lastSnapshotIncludeTerm r)
       else andThen (entryAt r (next - 1)) (\<lambda>e. Inr (next - 1, logterm e)))"

definition getState :: "raft \<Rightarrow> int \<times> bool" where
  "getState r = (currentTerm r, status r = Leader)"

definition getRaftStateSize :: "raft \<Rightarrow> int" where
  "getRaftStateSize r = RaftStateSize (persister r)"

section \<open>Persistence\<close>

record persistNode =
  pn_currentTerm :: int
  pn_votedFor :: int
  pn_lastSnapshotIncludeIndex :: int
  pn_lastSnapshotIncludeTerm :: int
  pn_logs :: "string list"

text \<open>
  The libraries that write and read these objects are a parameter: \<open>entrySer\<close> and \<open>entryParse\<close> are
  the generated \<^verbatim>\<open>SerializeAsString\<close> and \<^verbatim>\<open>ParseFromString\<close> (whose result the code
  ignores), \<open>nodeOar\<close> and \<open>nodeIar\<close> the Boost text archives (\<open>None\<close> when reading throws).
\<close>

record codec =
  entrySer :: "logEntry \<Rightarrow> string"
  entryParse :: "string \<Rightarrow> logEntry"
  nodeOar :: "persistNode \<Rightarrow> string"
  nodeIar :: "string \<Rightarrow> persistNode option"

text \<open>What they document: reading gives back what was written, and an archive is not empty.\<close>

definition codec_ok :: "codec \<Rightarrow> bool" where
  "codec_ok C \<longleftrightarrow> (\<forall>e. entryParse C (entrySer C e) = e) \<and>
     (\<forall>n. nodeIar C (nodeOar C n) = Some n \<and> nodeOar C n \<noteq> [])"

definition persistData :: "codec \<Rightarrow> raft \<Rightarrow> string" where
  "persistData C r = nodeOar C \<lparr>pn_currentTerm = currentTerm r, pn_votedFor = votedFor r,
     pn_lastSnapshotIncludeIndex = lastSnapshotIncludeIndex r,
     pn_lastSnapshotIncludeTerm = lastSnapshotIncludeTerm r,
     pn_logs = map (entrySer C) (logs r)\<rparr>"

definition persist :: "codec \<Rightarrow> raft \<Rightarrow> raft" where
  "persist C r = r\<lparr>persister := SaveRaftState (persistData C r) (persister r)\<rparr>"

definition saveSnapshot :: "codec \<Rightarrow> string \<Rightarrow> raft \<Rightarrow> raft" where
  \<comment> \<open>\<^verbatim>\<open>persister_->Save(persistData(), snapshot)\<close>\<close>
  "saveSnapshot C snap r = r\<lparr>persister := Save (persistData C r) snap (persister r)\<rparr>"

definition readPersist :: "codec \<Rightarrow> string \<Rightarrow> raft \<Rightarrow> raft res" where
  "readPersist C data r =
     (if data = [] then Inr r
      else case nodeIar C data of
             None \<Rightarrow> Inl ArchiveError
           | Some n \<Rightarrow> Inr (r\<lparr>currentTerm := pn_currentTerm n, votedFor := pn_votedFor n,
               lastSnapshotIncludeIndex := pn_lastSnapshotIncludeIndex n,
               lastSnapshotIncludeTerm := pn_lastSnapshotIncludeTerm n,
               logs := map (entryParse C) (pn_logs n)\<rparr>))"

text \<open>\<^verbatim>\<open>init\<close> on a newly constructed object, up to the start of the tickers.\<close>

definition initRaft :: "codec \<Rightarrow> nat \<Rightarrow> int \<Rightarrow> persister \<Rightarrow> int \<Rightarrow> raft res" where
  "initRaft C n me p now =
     andThen (readPersist C (ReadRaftState p)
       \<lparr>npeers = n, raftId = me, currentTerm = 0, votedFor = -1, logs = [], commitIndex = 0,
        lastApplied = 0, nextIndex = replicate n 0, matchIndex = replicate n 0, status = Follower,
        lastResetElectionTime = now, lastResetHearBeatTime = now, lastSnapshotIncludeIndex = 0,
        lastSnapshotIncludeTerm = 0, persister = p, voteNums = [], appendNums = []\<rparr>) (\<lambda>r.
       Inr (if lastSnapshotIncludeIndex r > 0
            then r\<lparr>lastApplied := lastSnapshotIncludeIndex r\<rparr> else r))"

section \<open>The log in order\<close>

text \<open>Entry \<open>k\<close> of the vector has logical index \<open>lastSnapshotIncludeIndex + 1 + k\<close>.\<close>

definition log_wf :: "raft \<Rightarrow> bool" where
  "log_wf r \<longleftrightarrow> (\<forall>k < length (logs r). logindex (logs r ! k) = lastSnapshotIncludeIndex r + 1 + int k)"

lemma lastLogIndex_wf: "log_wf r \<Longrightarrow> getLastLogIndex r = lastSnapshotIncludeIndex r + int (length (logs r))"
  by (cases "logs r" rule: rev_cases)
    (auto simp: getLastLogIndex_def getLastLogIndexAndTerm_def log_wf_def)

lemma slices_wf:
  assumes "log_wf r" and "lastSnapshotIncludeIndex r < i" and "i \<le> getLastLogIndex r"
  shows "getSlicesIndexFromLogIndex r i = Inr (i - lastSnapshotIncludeIndex r - 1)"
  using assms by (simp add: getSlicesIndexFromLogIndex_def)

lemma slices_Inr:
  "getSlicesIndexFromLogIndex r i = Inr k \<longleftrightarrow>
     lastSnapshotIncludeIndex r < i \<and> i \<le> getLastLogIndex r \<and> k = i - lastSnapshotIncludeIndex r - 1"
  by (auto simp: getSlicesIndexFromLogIndex_def andThen_eq_Inr myAssert_eq_Inr)

definition slot :: "raft \<Rightarrow> int \<Rightarrow> nat" where
  \<comment> \<open>position in the vector of a logical index\<close>
  "slot r i = nat (i - lastSnapshotIncludeIndex r - 1)"

lemma entryAt_wf:
  assumes "log_wf r" and "lastSnapshotIncludeIndex r < i" and "i \<le> getLastLogIndex r"
  shows "entryAt r i = Inr (logs r ! slot r i)" and "slot r i < length (logs r)"
    and "logindex (logs r ! slot r i) = i"
  using assms lastLogIndex_wf[OF assms(1)]
  by (auto simp: entryAt_def slices_wf slot_def vecGet_def log_wf_def)

definition termAt :: "raft \<Rightarrow> int \<Rightarrow> int" where
  "termAt r i = (if i = lastSnapshotIncludeIndex r then lastSnapshotIncludeTerm r
                 else logterm (logs r ! slot r i))"

lemma getLogTerm_wf:
  assumes "log_wf r" and "lastSnapshotIncludeIndex r \<le> i" and "i \<le> getLastLogIndex r"
  shows "getLogTermFromLogIndex r i = Inr (termAt r i)"
  using assms entryAt_wf(1)[OF assms(1), of i] by (auto simp: getLogTermFromLogIndex_def termAt_def)

lemma matchLog_wf:
  assumes "log_wf r" and "lastSnapshotIncludeIndex r \<le> i" and "i \<le> getLastLogIndex r"
  shows "matchLog r i t = Inr (t = termAt r i)"
  using assms by (simp add: matchLog_def getLogTerm_wf)

section \<open>What survives a restart\<close>

text \<open>The part of a server's state that its state file holds, as a value.\<close>

definition hardState :: "raft \<Rightarrow> int \<times> int \<times> int \<times> int \<times> logEntry list" where
  "hardState r = (currentTerm r, votedFor r, lastSnapshotIncludeIndex r, lastSnapshotIncludeTerm r, logs r)"

definition savedState :: "codec \<Rightarrow> persister \<Rightarrow> (int \<times> int \<times> int \<times> int \<times> logEntry list) res" where
  \<comment> \<open>what a start from these files would find; a missing or empty file is a first start\<close>
  "savedState C p = (if ReadRaftState p = [] then Inr (0, -1, 0, 0, [])
     else case nodeIar C (ReadRaftState p) of None \<Rightarrow> Inl ArchiveError
          | Some n \<Rightarrow> Inr (pn_currentTerm n, pn_votedFor n, pn_lastSnapshotIncludeIndex n,
              pn_lastSnapshotIncludeTerm n, map (entryParse C) (pn_logs n)))"

lemma initRaft_saved:
  "initRaft C n me p now = andThen (savedState C p) (\<lambda>(t, v, si, st, l). Inr
     \<lparr>npeers = n, raftId = me, currentTerm = t, votedFor = v, logs = l, commitIndex = 0,
      lastApplied = (if si > 0 then si else 0), nextIndex = replicate n 0, matchIndex = replicate n 0,
      status = Follower, lastResetElectionTime = now, lastResetHearBeatTime = now,
      lastSnapshotIncludeIndex = si, lastSnapshotIncludeTerm = st, persister = p,
      voteNums = [], appendNums = []\<rparr>)"
  by (auto simp: initRaft_def readPersist_def savedState_def split: option.splits)

lemma persistData_saved:
  assumes "codec_ok C" and "ReadRaftState p = persistData C r"
  shows "savedState C p = Inr (hardState r)"
  using assms by (auto simp: savedState_def persistData_def codec_ok_def hardState_def comp_def)

lemma persist_saved:
  assumes "codec_ok C" and "p_ok (persister r)"
  shows "savedState C (persister (persist C r)) = Inr (hardState r)"
    and "p_ok (persister (persist C r))"
  using assms SaveRaftState_read[OF assms(2)] by (auto simp: persist_def intro: persistData_saved)

lemma saveSnapshot_saved:
  assumes "codec_ok C" and "p_ok (persister r)"
  shows "savedState C (persister (saveSnapshot C x r)) = Inr (hardState r)"
    and "ReadSnapshot (persister (saveSnapshot C x r)) = x"
    and "p_ok (persister (saveSnapshot C x r))"
  using assms Save_read[OF assms(2)] by (auto simp: saveSnapshot_def intro: persistData_saved)

text \<open>Library codecs for the examples: number the values.\<close>

definition entryTuple :: "logEntry \<Rightarrow> string \<times> int \<times> int" where
  "entryTuple e = (command e, logterm e, logindex e)"

definition nodeTuple :: "persistNode \<Rightarrow> int \<times> int \<times> int \<times> int \<times> string list" where
  "nodeTuple n = (pn_currentTerm n, pn_votedFor n, pn_lastSnapshotIncludeIndex n,
     pn_lastSnapshotIncludeTerm n, pn_logs n)"

definition sampleCodec :: codec where
  "sampleCodec = \<lparr>
     entrySer = (\<lambda>e. replicate (to_nat (entryTuple e)) CHR ''.''),
     entryParse = (\<lambda>s. case from_nat (length s) of (c, t, i) \<Rightarrow> \<lparr>command = c, logterm = t, logindex = i\<rparr>),
     nodeOar = (\<lambda>n. replicate (Suc (to_nat (nodeTuple n))) CHR ''.''),
     nodeIar = (\<lambda>s. if s = [] then None else case from_nat (length s - 1) of (t, v, i, st, l) \<Rightarrow>
        Some \<lparr>pn_currentTerm = t, pn_votedFor = v, pn_lastSnapshotIncludeIndex = i,
              pn_lastSnapshotIncludeTerm = st, pn_logs = l\<rparr>)\<rparr>"

lemma sampleCodec_ok: "codec_ok sampleCodec"
  by (auto simp: codec_ok_def sampleCodec_def entryTuple_def nodeTuple_def)

end
