(* ===== verification/RaftElection.thy ===== *)
theory RaftElection
  imports RaftState
begin

text \<open>
  Elections of \<^verbatim>\<open>raft.cpp\<close>: the ticker's decision, \<open>doElection\<close>, the vote handler and the thread
  that waits for one voter's answer.  Times are nanoseconds; the time a step reads from the
  clock and the random timeout are its arguments.
\<close>

section \<open>Handlers\<close>

definition doElection :: "codec \<Rightarrow> raft \<Rightarrow> raft \<times> spawn list" where
  "doElection C r =
     (if status r = Leader then (r, [])
      else
        let r1 = r\<lparr>status := Candidate, currentTerm := currentTerm r + 1, votedFor := raftId r\<rparr>;
            r2 = persist C r1;
            voteNum = length (voteNums r2);
            r3 = r2\<lparr>voteNums := voteNums r2 @ [1]\<rparr>;
            (lastLogIndex, lastLogTerm) = getLastLogIndexAndTerm r3
        in (r3, map (\<lambda>i. SendRequestVote (int i)
                  \<lparr>rv_term = currentTerm r3, rv_candidateid = raftId r3,
                   rv_lastlogindex = lastLogIndex, rv_lastlogterm = lastLogTerm\<rparr> voteNum)
                (filter (\<lambda>i. int i \<noteq> raftId r3) [0..<npeers r3])))"

definition requestVoteImpl ::
  "codec \<Rightarrow> int \<Rightarrow> requestVoteArgs \<Rightarrow> raft \<Rightarrow> requestVoteReply \<times> raft" where
  \<comment> \<open>the deferred \<^verbatim>\<open>persist()\<close> runs at every return\<close>
  "requestVoteImpl C now args r =
     (if rv_term args < currentTerm r
      then (\<lparr>rvr_term = currentTerm r, rvr_votegranted = False, rvr_votestate = Expire\<rparr>, persist C r)
      else
        let r1 = (if rv_term args > currentTerm r
                  then r\<lparr>status := Follower, currentTerm := rv_term args, votedFor := -1\<rparr> else r)
        in if \<not> upToDate r1 (rv_lastlogindex args) (rv_lastlogterm args)
           then (\<lparr>rvr_term = currentTerm r1, rvr_votegranted = False, rvr_votestate = Voted\<rparr>, persist C r1)
           else if votedFor r1 \<noteq> -1 \<and> votedFor r1 \<noteq> rv_candidateid args
           then (\<lparr>rvr_term = currentTerm r1, rvr_votegranted = False, rvr_votestate = Voted\<rparr>, persist C r1)
           else
             let r2 = r1\<lparr>votedFor := rv_candidateid args, lastResetElectionTime := now\<rparr>
             in (\<lparr>rvr_term = currentTerm r2, rvr_votegranted = True, rvr_votestate = Normal\<rparr>, persist C r2))"

definition sendRequestVote ::
  "codec \<Rightarrow> bool \<Rightarrow> requestVoteReply \<Rightarrow> nat \<Rightarrow> raft \<Rightarrow> (raft \<times> spawn list) res" where
  \<comment> \<open>what the thread does when the call returned \<open>isOk\<close> and \<open>reply\<close>; \<open>voteNum\<close> is its counter\<close>
  "sendRequestVote C isOk reply voteNum r =
     (if \<not> isOk then Inr (r, [])
      else if rvr_term reply > currentTerm r
      then Inr (persist C (r\<lparr>status := Follower, currentTerm := rvr_term reply, votedFor := -1\<rparr>), [])
      else if rvr_term reply < currentTerm r then Inr (r, [])
      else if \<not> rvr_votegranted reply then Inr (r, [])
      else
        andThen (vecGet (voteNums r) (int voteNum)) (\<lambda>n.
        let r1 = r\<lparr>voteNums := (voteNums r)[voteNum := n + 1]\<rparr>
        in if n + 1 \<ge> majority r1
           then andThen (myAssert (status r1 \<noteq> Leader)) (\<lambda>_.
             Inr (r1\<lparr>voteNums := (voteNums r1)[voteNum := 0], status := Leader,
                     nextIndex := map (\<lambda>_. getLastLogIndex r1 + 1) (nextIndex r1),
                     matchIndex := map (\<lambda>_. 0) (nextIndex r1)\<rparr>, [DoHeartBeat]))
           else Inr (r1, [])))"

section \<open>The election ticker\<close>

text \<open>
  One round of \<open>electionTimeOutTicker\<close> for a server that is not the leader: how long it sleeps
  (in microseconds, \<open>None\<close> when it does not), and what it does after waking.
\<close>

definition electionSleep :: "int \<Rightarrow> int \<Rightarrow> raft \<Rightarrow> int option" where
  "electionSleep timeoutMs wakeTime r =
     (let suitableSleepTime = timeoutMs * 1000000 + lastResetElectionTime r - wakeTime
      in if suitableSleepTime > 1000000 then Some (suitableSleepTime div 1000) else None)"

definition electionWake :: "codec \<Rightarrow> int \<Rightarrow> raft \<Rightarrow> raft \<times> spawn list" where
  "electionWake C wakeTime r =
     (if lastResetElectionTime r - wakeTime > 0 then (r, []) else doElection C r)"

fun electionRounds :: "codec \<Rightarrow> (int \<times> int) list \<Rightarrow> raft \<Rightarrow> raft \<times> spawn list \<times> int list" where
  \<comment> \<open>rounds with the given random timeouts and wake times, undisturbed by other threads:
     final state, threads started, sleeps requested\<close>
  "electionRounds C [] r = (r, [], [])"
| "electionRounds C ((timeoutMs, wakeTime) # ws) r =
     (let naps = (case electionSleep timeoutMs wakeTime r of None \<Rightarrow> [] | Some us \<Rightarrow> [us]);
          (r1, sp1) = electionWake C wakeTime r;
          (r2, sp2, naps2) = electionRounds C ws r1
      in (r2, sp1 @ sp2, naps @ naps2))"

end
