(* ===== verification/RaftReplication.thy ===== *)
theory RaftReplication
  imports RaftState
begin

text \<open>
  Log replication and snapshots of \<^verbatim>\<open>raft.cpp\<close>: accepting commands, the heartbeat round and the
  threads waiting for its answers, the follower's handlers, commitment and delivery.
\<close>

section \<open>Accepting a command\<close>

text \<open>\<open>start\<close>: new log index, its term, whether this server is the leader.  \<open>op\<close> is the
  serialised command.\<close>

definition start :: "codec \<Rightarrow> string \<Rightarrow> raft \<Rightarrow> (int \<times> int \<times> bool) \<times> raft" where
  "start C op r =
     (if status r \<noteq> Leader then ((-1, -1, False), r)
      else
        let e = \<lparr>command = op, logterm = currentTerm r, logindex = getNewCommandIndex r\<rparr>;
            r1 = r\<lparr>logs := logs r @ [e]\<rparr>
        in ((getLastLogIndex r1, currentTerm r1, True), persist C r1))"

section \<open>The heartbeat round\<close>

definition heartBeatEntries :: "raft \<Rightarrow> int \<Rightarrow> logEntry list res" where
  "heartBeatEntries r preLogIndex =
     (if preLogIndex \<noteq> lastSnapshotIncludeIndex r
      then andThen (getSlicesIndexFromLogIndex r preLogIndex) (\<lambda>k. Inr (drop (nat (k + 1)) (logs r)))
      else Inr (logs r))"

text \<open>The body of the loop for peer \<open>i\<close>; \<open>appendNum\<close> is the counter the round's threads share.\<close>

definition heartBeatTo :: "raft \<Rightarrow> nat \<Rightarrow> nat \<Rightarrow> spawn res" where
  "heartBeatTo r appendNum i =
     andThen (vecGet (nextIndex r) (int i)) (\<lambda>next.
     andThen (myAssert (next \<ge> 1)) (\<lambda>_.
       if next \<le> lastSnapshotIncludeIndex r then Inr (LeaderSendSnapshot (int i))
       else
         andThen (getPrevLogInfo r (int i)) (\<lambda>(preLogIndex, preLogTerm).
         andThen (heartBeatEntries r preLogIndex) (\<lambda>es.
         andThen (myAssert (preLogIndex + int (length es) = getLastLogIndex r)) (\<lambda>_.
           Inr (SendAppendEntries (int i)
             \<lparr>ae_term = currentTerm r, ae_leaderid = raftId r, ae_prevlogindex = preLogIndex,
              ae_prevlogterm = preLogTerm, ae_entries = es, ae_leadercommit = commitIndex r\<rparr>
             appendNum))))))"

definition doHeartBeat :: "int \<Rightarrow> raft \<Rightarrow> (raft \<times> spawn list) res" where
  "doHeartBeat now r =
     (if status r \<noteq> Leader then Inr (r, [])
      else
        let appendNum = length (appendNums r);
            r1 = r\<lparr>appendNums := appendNums r @ [1]\<rparr>
        in andThen (mapR (heartBeatTo r1 appendNum) (filter (\<lambda>i. int i \<noteq> raftId r1) [0..<npeers r1])) (\<lambda>sp.
             Inr (r1\<lparr>lastResetHearBeatTime := now\<rparr>, sp)))"

text \<open>One round of \<open>leaderHeartBeatTicker\<close> (\<open>HeartBeatTimeout\<close> is 25 ms): how many microseconds it
  sleeps, and what it does after waking.\<close>

definition heartBeatSleep :: "int \<Rightarrow> raft \<Rightarrow> int option" where
  "heartBeatSleep wakeTime r =
     (let suitableSleepTime = 25 * 1000000 + lastResetHearBeatTime r - wakeTime
      in if suitableSleepTime > 1000000 then Some (suitableSleepTime div 1000) else None)"

definition heartBeatWake :: "int \<Rightarrow> int \<Rightarrow> raft \<Rightarrow> (raft \<times> spawn list) res" where
  "heartBeatWake wakeTime now r =
     (if lastResetHearBeatTime r > wakeTime then Inr (r, []) else doHeartBeat now r)"

text \<open>The thread waiting for the answer of peer \<open>peerId\<close> to \<open>args\<close>; first its commit rule.\<close>

definition commitRound :: "appendEntriesArgs \<Rightarrow> nat \<Rightarrow> raft \<Rightarrow> raft res" where
  \<comment> \<open>\<^verbatim>\<open>if(*appendNums >= peers_.size() / 2 + 1)\<close>\<close>
  "commitRound args appendNum r =
     andThen (vecGet (appendNums r) (int appendNum)) (\<lambda>n.
     if n \<ge> majority r
     then
       let r1 = r\<lparr>appendNums := (appendNums r)[appendNum := 0]\<rparr>;
           r2 = (if ae_entries args \<noteq> [] \<and> logterm (last (ae_entries args)) = currentTerm r1
                 then r1\<lparr>commitIndex := max (commitIndex r1)
                            (ae_prevlogindex args + int (length (ae_entries args)))\<rparr> else r1)
       in andThen (myAssert (commitIndex r2 \<le> getLastLogIndex r2)) (\<lambda>_. Inr r2)
     else Inr r)"

definition appendAccepted :: "int \<Rightarrow> appendEntriesArgs \<Rightarrow> nat \<Rightarrow> raft \<Rightarrow> raft res" where
  "appendAccepted peerId args appendNum r =
     andThen (vecGet (appendNums r) (int appendNum)) (\<lambda>n.
     andThen (vecGet (matchIndex r) peerId) (\<lambda>old.
     let m = max old (ae_prevlogindex args + int (length (ae_entries args)))
     in andThen (vecSet (matchIndex r) peerId m) (\<lambda>mi.
     andThen (vecSet (nextIndex r) peerId (m + 1)) (\<lambda>ni.
     let r1 = r\<lparr>appendNums := (appendNums r)[appendNum := n + 1], matchIndex := mi, nextIndex := ni\<rparr>
     in andThen (myAssert (m + 1 \<le> getLastLogIndex r1 + 1)) (\<lambda>_. commitRound args appendNum r1)))))"

definition sendAppendEntries ::
  "int \<Rightarrow> appendEntriesArgs \<Rightarrow> bool \<Rightarrow> appendEntriesReply \<Rightarrow> nat \<Rightarrow> raft \<Rightarrow> raft res" where
  "sendAppendEntries peerId args isOk reply appendNum r =
     (if \<not> isOk then Inr r
      else if aer_appstate reply = Disconnected then Inr r
      else if aer_term reply > currentTerm r
      then Inr (r\<lparr>status := Follower, currentTerm := aer_term reply, votedFor := -1\<rparr>)
      else if aer_term reply < currentTerm r then Inr r
      else if status r \<noteq> Leader then Inr r
      else if \<not> aer_success reply
      then if aer_updatenextindex reply \<noteq> -100
           then andThen (vecSet (nextIndex r) peerId (aer_updatenextindex reply)) (\<lambda>ni.
             Inr (r\<lparr>nextIndex := ni\<rparr>))
           else Inr r
      else appendAccepted peerId args appendNum r)"

section \<open>The follower's side\<close>

text \<open>One round of the loop over the entries received.\<close>

definition storeEntry :: "logEntry \<Rightarrow> raft \<Rightarrow> raft res" where
  "storeEntry log r =
     (if logindex log > getLastLogIndex r then Inr (r\<lparr>logs := logs r @ [log]\<rparr>)
      else
        andThen (entryAt r (logindex log)) (\<lambda>mine.
        andThen (myAssert (\<not> (logterm mine = logterm log \<and> command mine \<noteq> command log))) (\<lambda>_.
          if logterm mine \<noteq> logterm log
          then andThen (getSlicesIndexFromLogIndex r (logindex log)) (\<lambda>k.
               andThen (vecSet (logs r) k log) (\<lambda>l. Inr (r\<lparr>logs := l\<rparr>)))
          else Inr r)))"

text \<open>The loop \<^verbatim>\<open>for(i = prevlogindex; i >= lastSnapshotIncludeIndex_; i--)\<close> at
  \<open>i = lastSnapshotIncludeIndex + k\<close>; \<open>t\<close> is the term at \<open>prevlogindex\<close>.\<close>

fun backOff :: "raft \<Rightarrow> int \<Rightarrow> nat \<Rightarrow> int \<Rightarrow> int res" where
  "backOff r t 0 upd =
     andThen (getLogTermFromLogIndex r (lastSnapshotIncludeIndex r)) (\<lambda>ti.
       if ti \<noteq> t then Inr (lastSnapshotIncludeIndex r + 1) else Inr upd)"
| "backOff r t (Suc k) upd =
     andThen (getLogTermFromLogIndex r (lastSnapshotIncludeIndex r + int (Suc k))) (\<lambda>ti.
       if ti \<noteq> t then Inr (lastSnapshotIncludeIndex r + int (Suc k) + 1) else backOff r t k upd)"

definition appendEntriesBody ::
  "appendEntriesArgs \<Rightarrow> raft \<Rightarrow> (appendEntriesReply \<times> raft) res" where
  \<comment> \<open>from the comparison of \<open>prevlogindex\<close> on; the caller is a follower in the term of \<open>args\<close>\<close>
  "appendEntriesBody args r =
     (let refuse = (\<lambda>upd. \<lparr>aer_term = currentTerm r, aer_success = False,
                           aer_updatenextindex = upd, aer_appstate = AppNormal\<rparr>)
      in if ae_prevlogindex args > getLastLogIndex r then Inr (refuse (getLastLogIndex r + 1), r)
      else if ae_prevlogindex args < lastSnapshotIncludeIndex r
      then Inr (refuse (lastSnapshotIncludeIndex r + 1), r)
      else
        andThen (matchLog r (ae_prevlogindex args) (ae_prevlogterm args)) (\<lambda>same.
        if same
        then
          andThen (foldR storeEntry (ae_entries args) r) (\<lambda>r1.
          andThen (myAssert (ae_prevlogindex args + int (length (ae_entries args)) \<le> getLastLogIndex r1)) (\<lambda>_.
          let r2 = (if ae_leadercommit args > commitIndex r1
                    then r1\<lparr>commitIndex := min (ae_leadercommit args) (getLastLogIndex r1)\<rparr> else r1)
          in andThen (myAssert (getLastLogIndex r2 \<ge> commitIndex r2)) (\<lambda>_.
            Inr (\<lparr>aer_term = currentTerm r2, aer_success = True, aer_updatenextindex = 0,
                  aer_appstate = AppNormal\<rparr>, r2))))
        else
          andThen (getLogTermFromLogIndex r (ae_prevlogindex args)) (\<lambda>t.
          andThen (backOff r t (nat (ae_prevlogindex args - lastSnapshotIncludeIndex r))
                     (ae_prevlogindex args)) (\<lambda>upd.
            Inr (refuse upd, r)))))"

definition appendEntriesimpl ::
  "codec \<Rightarrow> int \<Rightarrow> appendEntriesArgs \<Rightarrow> raft \<Rightarrow> (appendEntriesReply \<times> raft) res" where
  \<comment> \<open>the deferred \<^verbatim>\<open>persist()\<close> covers every return after the term check\<close>
  "appendEntriesimpl C now args r =
     (if ae_term args < currentTerm r
      then Inr (\<lparr>aer_term = currentTerm r, aer_success = False, aer_updatenextindex = -100,
                 aer_appstate = AppNormal\<rparr>, r)
      else
        let r1 = (if ae_term args > currentTerm r
                  then r\<lparr>status := Follower, currentTerm := ae_term args, votedFor := -1\<rparr> else r);
            r2 = r1\<lparr>status := Follower, lastResetElectionTime := now\<rparr>
        in andThen (appendEntriesBody args r2) (\<lambda>(reply, r3). Inr (reply, persist C r3)))"

section \<open>Commitment and delivery\<close>

definition matchCount :: "raft \<Rightarrow> int \<Rightarrow> int res" where
  "matchCount r i =
     andThen (mapR (\<lambda>j. vecGet (matchIndex r) (int j)) (filter (\<lambda>j. int j \<noteq> raftId r) [0..<npeers r])) (\<lambda>ms.
       Inr (1 + int (length (filter (\<lambda>m. m \<ge> i) ms))))"

fun commitScan :: "raft \<Rightarrow> nat \<Rightarrow> raft res" where
  \<comment> \<open>\<^verbatim>\<open>for(i = getLastLogIndex(); i > commitIndex_; i--)\<close> at \<open>i = commitIndex + k\<close>\<close>
  "commitScan r 0 = Inr r"
| "commitScan r (Suc k) =
     (let i = commitIndex r + int (Suc k) in
      andThen (getLogTermFromLogIndex r i) (\<lambda>t.
        if t \<noteq> currentTerm r then commitScan r k
        else andThen (matchCount r i) (\<lambda>count.
          if count \<ge> majority r then Inr (r\<lparr>commitIndex := i\<rparr>) else commitScan r k)))"

definition leaderUpdateCommitIndex :: "raft \<Rightarrow> raft res" where
  "leaderUpdateCommitIndex r = commitScan r (nat (getLastLogIndex r - commitIndex r))"

fun applyLoop :: "nat \<Rightarrow> raft \<Rightarrow> (applyMsg list \<times> raft) res" where
  \<comment> \<open>\<^verbatim>\<open>while(lastApplied_ < commitIndex_)\<close>, \<open>n\<close> rounds\<close>
  "applyLoop 0 r = Inr ([], r)"
| "applyLoop (Suc n) r =
     (let r1 = r\<lparr>lastApplied := lastApplied r + 1\<rparr> in
      andThen (entryAt r1 (lastApplied r1)) (\<lambda>e.
      andThen (myAssert (logindex e = lastApplied r1)) (\<lambda>_.
      let apMsg = newApplyMsg\<lparr>CommandValid := True, SnapshotValid := False, Command := command e,
                             CommandIndex := lastApplied r1\<rparr>
      in andThen (applyLoop n r1) (\<lambda>(ms, r2). Inr (apMsg # ms, r2)))))"

definition getApplyLogs :: "raft \<Rightarrow> (applyMsg list \<times> raft) res" where
  "getApplyLogs r =
     andThen (myAssert (commitIndex r \<le> getLastLogIndex r)) (\<lambda>_.
       applyLoop (nat (commitIndex r - lastApplied r)) r)"

text \<open>One round of \<open>applierTicker\<close> on the server and the queue \<open>applyChan\<close> it pushes to.\<close>

definition applierRound :: "raft \<Rightarrow> applyMsg list \<Rightarrow> (raft \<times> applyMsg list) res" where
  "applierRound r applyChan = andThen (getApplyLogs r) (\<lambda>(ms, r1). Inr (r1, applyChan @ ms))"

section \<open>Snapshots\<close>

definition eraseFront :: "raft \<Rightarrow> int \<Rightarrow> raft res" where
  \<comment> \<open>\<^verbatim>\<open>logs_.erase(logs_.begin(), logs_.begin() + getSlicesIndexFromLogIndex(index) + 1)\<close>\<close>
  "eraseFront r index =
     andThen (getSlicesIndexFromLogIndex r index) (\<lambda>k.
       if k + 1 \<le> int (length (logs r)) then Inr (r\<lparr>logs := drop (nat (k + 1)) (logs r)\<rparr>)
       else Inl BadAccess)"

definition snapshot :: "codec \<Rightarrow> int \<Rightarrow> string \<Rightarrow> raft \<Rightarrow> raft res" where
  "snapshot C index snap r =
     (if lastSnapshotIncludeIndex r \<ge> index \<or> index > commitIndex r then Inr r
      else
        andThen (getLogTermFromLogIndex r index) (\<lambda>trm.
        andThen (eraseFront r index) (\<lambda>r1.
        let r2 = r1\<lparr>lastSnapshotIncludeIndex := index, lastSnapshotIncludeTerm := trm,
                    commitIndex := max (commitIndex r1) index, lastApplied := max (lastApplied r1) index\<rparr>;
            r3 = saveSnapshot C snap r2
        in andThen (myAssert (int (length (logs r3)) + lastSnapshotIncludeIndex r3 = getLastLogIndex r3)) (\<lambda>_.
             Inr r3))))"

definition installSnapshotImpl ::
  "codec \<Rightarrow> int \<Rightarrow> installSnapshotRequest \<Rightarrow> raft
     \<Rightarrow> (installSnapshotResponse \<times> raft \<times> spawn list) res" where
  "installSnapshotImpl C now args r =
     (if is_term args < currentTerm r then Inr (\<lparr>isr_term = currentTerm r\<rparr>, r, [])
      else
        let r1 = (if is_term args > currentTerm r
                  then persist C (r\<lparr>status := Follower, currentTerm := is_term args, votedFor := -1\<rparr>) else r);
            r2 = r1\<lparr>status := Follower, lastResetElectionTime := now\<rparr>;
            index = is_lastsnapshotincludeindex args
        in if index \<le> lastSnapshotIncludeIndex r2 then Inr (\<lparr>isr_term = 0\<rparr>, r2, [])
        else
          andThen (if getLastLogIndex r2 > index then eraseFront r2 index else Inr (r2\<lparr>logs := []\<rparr>)) (\<lambda>r3.
          let r4 = r3\<lparr>commitIndex := max (commitIndex r3) index, lastApplied := max (lastApplied r3) index,
                      lastSnapshotIncludeIndex := index,
                      lastSnapshotIncludeTerm := is_lastsnapshotincludeterm args\<rparr>;
              msg = newApplyMsg\<lparr>SnapshotValid := True, Snapshot := is_data args,
                      SnapshotIndex := index, SnapshotTerm := is_lastsnapshotincludeterm args\<rparr>
          in Inr (\<lparr>isr_term = currentTerm r4\<rparr>, saveSnapshot C (is_data args) r4, [PushMsgToKvServer msg])))"

text \<open>\<open>leaderSendSnapshot\<close> before and after its call.\<close>

definition leaderSnapshotRequest :: "raft \<Rightarrow> installSnapshotRequest" where
  "leaderSnapshotRequest r =
     \<lparr>is_leaderid = raftId r, is_term = currentTerm r,
      is_lastsnapshotincludeindex = lastSnapshotIncludeIndex r,
      is_lastsnapshotincludeterm = lastSnapshotIncludeTerm r, is_data = ReadSnapshot (persister r)\<rparr>"

definition leaderSendSnapshot ::
  "codec \<Rightarrow> int \<Rightarrow> int \<Rightarrow> installSnapshotRequest \<Rightarrow> bool \<Rightarrow> installSnapshotResponse \<Rightarrow> raft \<Rightarrow> raft res" where
  "leaderSendSnapshot C now peerId req isOk resp r =
     (if \<not> isOk then Inr r
      else if status r \<noteq> Leader \<or> currentTerm r \<noteq> is_term req then Inr r
      else if isr_term resp > currentTerm r
      then Inr ((persist C (r\<lparr>status := Follower, currentTerm := isr_term resp, votedFor := -1\<rparr>))
                  \<lparr>lastResetElectionTime := now\<rparr>)
      else
        andThen (vecSet (matchIndex r) peerId (is_lastsnapshotincludeindex req)) (\<lambda>mi.
        andThen (vecSet (nextIndex r) peerId (is_lastsnapshotincludeindex req + 1)) (\<lambda>ni.
          Inr (r\<lparr>matchIndex := mi, nextIndex := ni\<rparr>))))"

end
