(* ===== verification/RaftLogCorrect.thy ===== *)
theory RaftLogCorrect
  imports RaftReplication RaftElection
begin

text \<open>
  The log of one server: the invariant every step keeps, what a follower's log is after it
  accepted entries, what it asks for when it refuses, what is delivered, and what survives a
  restart.
\<close>

section \<open>The invariant of a server\<close>

definition raft_inv :: "raft \<Rightarrow> bool" where
  "raft_inv r \<longleftrightarrow> log_wf r \<and> 0 \<le> lastSnapshotIncludeIndex r \<and>
     lastSnapshotIncludeIndex r \<le> lastApplied r \<and> lastApplied r \<le> getLastLogIndex r \<and>
     0 \<le> commitIndex r \<and> commitIndex r \<le> getLastLogIndex r \<and>
     length (nextIndex r) = npeers r \<and> length (matchIndex r) = npeers r"

text \<open>Entries with consecutive indices from \<open>i + 1\<close> on.\<close>

definition contiguous :: "int \<Rightarrow> logEntry list \<Rightarrow> bool" where
  "contiguous i es \<longleftrightarrow> (\<forall>k < length es. logindex (es ! k) = i + 1 + int k)"

lemma log_wf_contiguous: "log_wf r \<longleftrightarrow> contiguous (lastSnapshotIncludeIndex r) (logs r)"
  by (simp add: log_wf_def contiguous_def)

lemma contiguous_Cons: "contiguous i (e # es) \<longleftrightarrow> logindex e = i + 1 \<and> contiguous (i + 1) es"
proof
  assume c: "contiguous i (e # es)"
  then have "logindex (es ! k) = i + 1 + 1 + int k" if "k < length es" for k
    using that unfolding contiguous_def by (auto dest: spec[of _ "Suc k"])
  moreover from c have "logindex e = i + 1" unfolding contiguous_def by (auto dest: spec[of _ 0])
  ultimately show "logindex e = i + 1 \<and> contiguous (i + 1) es" by (simp add: contiguous_def)
next
  assume "logindex e = i + 1 \<and> contiguous (i + 1) es"
  then show "contiguous i (e # es)" by (auto simp: contiguous_def nth_Cons split: nat.split)
qed

lemma contiguous_append:
  "contiguous i (xs @ ys) \<longleftrightarrow> contiguous i xs \<and> contiguous (i + int (length xs)) ys"
  by (induction xs arbitrary: i) (auto simp: contiguous_Cons contiguous_def[of _ "[]"] algebra_simps)

lemma contiguous_Nil [simp]: "contiguous i []"
  by (simp add: contiguous_def)

lemma contiguous_take: "contiguous i xs \<Longrightarrow> contiguous i (take n xs)"
  using contiguous_append[of i "take n xs" "drop n xs"] by simp

lemma contiguous_drop: "contiguous i xs \<Longrightarrow> n \<le> length xs \<Longrightarrow> contiguous (i + int n) (drop n xs)"
  using contiguous_append[of i "take n xs" "drop n xs"] by (simp add: min_absorb2)

text \<open>The fields the log functions read.\<close>

lemma log_funs_cong:
  assumes "logs r' = logs r" and "lastSnapshotIncludeIndex r' = lastSnapshotIncludeIndex r"
    and "lastSnapshotIncludeTerm r' = lastSnapshotIncludeTerm r"
  shows "getLastLogIndexAndTerm r' = getLastLogIndexAndTerm r" "getLastLogIndex r' = getLastLogIndex r"
    "log_wf r' = log_wf r" "slot r' i = slot r i" "termAt r' i = termAt r i"
    "getLogTermFromLogIndex r' i = getLogTermFromLogIndex r i" "entryAt r' i = entryAt r i"
    "getSlicesIndexFromLogIndex r' i = getSlicesIndexFromLogIndex r i"
  using assms
  by (simp_all add: getLastLogIndexAndTerm_def getLastLogIndex_def log_wf_def slot_def termAt_def
      getLogTermFromLogIndex_def entryAt_def getSlicesIndexFromLogIndex_def)

lemma persist_fields [simp]:
  "logs (persist C r) = logs r" "lastSnapshotIncludeIndex (persist C r) = lastSnapshotIncludeIndex r"
  "lastSnapshotIncludeTerm (persist C r) = lastSnapshotIncludeTerm r" "commitIndex (persist C r) = commitIndex r"
  "lastApplied (persist C r) = lastApplied r" "nextIndex (persist C r) = nextIndex r"
  "matchIndex (persist C r) = matchIndex r" "npeers (persist C r) = npeers r" "raftId (persist C r) = raftId r"
  "currentTerm (persist C r) = currentTerm r" "votedFor (persist C r) = votedFor r" "status (persist C r) = status r"
  "voteNums (persist C r) = voteNums r" "appendNums (persist C r) = appendNums r"
  "lastResetElectionTime (persist C r) = lastResetElectionTime r"
  "hardState (persist C r) = hardState r"
  by (simp_all add: persist_def hardState_def)

lemma saveSnapshot_fields [simp]:
  "logs (saveSnapshot C x r) = logs r" "lastSnapshotIncludeIndex (saveSnapshot C x r) = lastSnapshotIncludeIndex r"
  "lastSnapshotIncludeTerm (saveSnapshot C x r) = lastSnapshotIncludeTerm r"
  "commitIndex (saveSnapshot C x r) = commitIndex r" "lastApplied (saveSnapshot C x r) = lastApplied r"
  "nextIndex (saveSnapshot C x r) = nextIndex r" "matchIndex (saveSnapshot C x r) = matchIndex r"
  "npeers (saveSnapshot C x r) = npeers r" "raftId (saveSnapshot C x r) = raftId r"
  "currentTerm (saveSnapshot C x r) = currentTerm r" "votedFor (saveSnapshot C x r) = votedFor r"
  "status (saveSnapshot C x r) = status r" "voteNums (saveSnapshot C x r) = voteNums r"
  "hardState (saveSnapshot C x r) = hardState r"
  by (simp_all add: saveSnapshot_def hardState_def)

lemmas log_keep = log_funs_cong[OF persist_fields(1-3)] log_funs_cong[OF saveSnapshot_fields(1-3)]

lemma raft_inv_persist [simp]: "raft_inv (persist C r) = raft_inv r"
  by (simp add: raft_inv_def log_keep)

lemma raft_inv_saveSnapshot [simp]: "raft_inv (saveSnapshot C x r) = raft_inv r"
  by (simp add: raft_inv_def log_keep)

section \<open>Storing the entries received\<close>

text \<open>What the source calls abnormal: same index and term, another command.\<close>

definition clash :: "logEntry list \<Rightarrow> nat \<Rightarrow> logEntry list \<Rightarrow> bool" where
  "clash l k es \<longleftrightarrow> (\<exists>j < length es. k + j < length l \<and> logterm (l ! (k + j)) = logterm (es ! j) \<and>
     command (l ! (k + j)) \<noteq> command (es ! j))"

lemma clash_Cons:
  "clash l k (e # es) \<longleftrightarrow>
     (k < length l \<and> logterm (l ! k) = logterm e \<and> command (l ! k) \<noteq> command e) \<or> clash l (Suc k) es"
proof
  assume "clash l k (e # es)"
  then obtain j where j: "j < length (e # es)" "k + j < length l" "logterm (l ! (k + j)) = logterm ((e # es) ! j)"
    "command (l ! (k + j)) \<noteq> command ((e # es) ! j)" unfolding clash_def by blast
  show "(k < length l \<and> logterm (l ! k) = logterm e \<and> command (l ! k) \<noteq> command e) \<or> clash l (Suc k) es"
  proof (cases j)
    case (Suc m)
    with j have "m < length es \<and> Suc k + m < length l \<and> logterm (l ! (Suc k + m)) = logterm (es ! m) \<and>
      command (l ! (Suc k + m)) \<noteq> command (es ! m)" by simp
    then show ?thesis unfolding clash_def by blast
  qed (use j in simp)
next
  assume "(k < length l \<and> logterm (l ! k) = logterm e \<and> command (l ! k) \<noteq> command e) \<or> clash l (Suc k) es"
  then show "clash l k (e # es)"
  proof
    assume "clash l (Suc k) es"
    then obtain j where "j < length es" "Suc k + j < length l" "logterm (l ! (Suc k + j)) = logterm (es ! j)"
      "command (l ! (Suc k + j)) \<noteq> command (es ! j)" unfolding clash_def by blast
    then show ?thesis unfolding clash_def by (intro exI[of _ "Suc j"]) simp
  next
    assume "k < length l \<and> logterm (l ! k) = logterm e \<and> command (l ! k) \<noteq> command e"
    then show ?thesis unfolding clash_def by (intro exI[of _ 0]) simp
  qed
qed

lemma storeEntry_wf:
  assumes wf: "log_wf r" and k: "k \<le> length (logs r)"
    and i: "logindex e = lastSnapshotIncludeIndex r + 1 + int k"
  shows "storeEntry e r =
     (if k < length (logs r) \<and> logterm (logs r ! k) = logterm e \<and> command (logs r ! k) \<noteq> command e
      then Inl AssertFail
      else Inr (r\<lparr>logs := take k (logs r) @ e # drop (Suc k) (logs r)\<rparr>))"
proof (cases "k = length (logs r)")
  case True
  then show ?thesis using i lastLogIndex_wf[OF wf] by (simp add: storeEntry_def)
next
  case False
  with k have k': "k < length (logs r)" by simp
  with i lastLogIndex_wf[OF wf] have r: "lastSnapshotIncludeIndex r < logindex e" "logindex e \<le> getLastLogIndex r"
    by simp_all
  have slot: "slot r (logindex e) = k" using i by (simp add: slot_def)
  have got: "entryAt r (logindex e) = Inr (logs r ! k)" and ix: "logindex (logs r ! k) = logindex e"
    using entryAt_wf[OF wf r] slot by simp_all
  have same: "logs r ! k = e" if "logterm (logs r ! k) = logterm e" "command (logs r ! k) = command e"
    using that ix by simp
  have upd: "(logs r)[k := e] = take k (logs r) @ e # drop (Suc k) (logs r)"
    using k' by (rule upd_conv_take_nth_drop)
  have keep: "take k (logs r) @ logs r ! k # drop (Suc k) (logs r) = logs r"
    using k' by (simp add: id_take_nth_drop[symmetric])
  show ?thesis
  proof (cases "logterm (logs r ! k) = logterm e")
    case True
    then show ?thesis using k' r got same keep by (cases "command (logs r ! k) = command e") (auto simp: storeEntry_def)
  next
    case False
    then show ?thesis using k' r got upd i slices_wf[OF wf r] by (simp add: storeEntry_def vecSet_def)
  qed
qed

lemma storeEntries_wf:
  assumes "log_wf r" and "k \<le> length (logs r)"
    and "contiguous (lastSnapshotIncludeIndex r + int k) es"
  shows "foldR storeEntry es r =
     (if clash (logs r) k es then Inl AssertFail
      else Inr (r\<lparr>logs := take k (logs r) @ es @ drop (k + length es) (logs r)\<rparr>))"
  using assms
proof (induction es arbitrary: k r)
  case Nil
  then show ?case by (simp add: clash_def)
next
  case (Cons e es)
  let ?l = "take k (logs r) @ e # drop (Suc k) (logs r)"
  let ?r1 = "r\<lparr>logs := ?l\<rparr>"
  have e: "logindex e = lastSnapshotIncludeIndex r + 1 + int k"
    and es: "contiguous (lastSnapshotIncludeIndex r + int (Suc k)) es"
    using Cons.prems(3) by (auto simp: contiguous_Cons algebra_simps)
  have split: "drop k (logs r) = (if k < length (logs r) then logs r ! k # drop (Suc k) (logs r) else [])"
    using Cons.prems(2) by (auto simp: Cons_nth_drop_Suc)
  have "contiguous (lastSnapshotIncludeIndex r) (take k (logs r) @ drop k (logs r))"
    using Cons.prems(1) by (simp add: log_wf_contiguous)
  then have "contiguous (lastSnapshotIncludeIndex r) ?l"
    unfolding contiguous_append split using Cons.prems(2) e
    by (auto simp: contiguous_Cons min_def split: if_splits)
  then have wf1: "log_wf ?r1" by (simp add: log_wf_contiguous)
  have len: "Suc k \<le> length ?l" using Cons.prems(2) by simp
  have len_iff: "j < length ?l \<longleftrightarrow> j < length (logs r)" if "k < j" for j
    using that Cons.prems(2) by auto
  have nth: "?l ! j = logs r ! j" if "k < j" "j < length (logs r)" for j
    using that by (auto simp: nth_append nth_Cons' min_def)
  have cl: "clash ?l (Suc k) es = clash (logs r) (Suc k) es"
    unfolding clash_def using len_iff nth by (metis add_Suc less_add_Suc1)
  have "take (Suc k) ?l = take k (logs r) @ [e]" using Cons.prems(2) by (simp add: min_def)
  moreover have "drop (Suc k + length es) ?l = drop (k + length (e # es)) (logs r)"
    using Cons.prems(2) by (simp add: min_def add.commute)
  ultimately have "foldR storeEntry es ?r1 = (if clash (logs r) (Suc k) es then Inl AssertFail
      else Inr (r\<lparr>logs := take k (logs r) @ (e # es) @ drop (k + length (e # es)) (logs r)\<rparr>))"
    using Cons.IH[of ?r1 "Suc k"] wf1 len es cl by simp
  then show ?case
    using storeEntry_wf[OF Cons.prems(1,2) e] by (simp add: clash_Cons)
qed

section \<open>Backing off\<close>

lemma backOff_wf:
  assumes "log_wf r" and "lastSnapshotIncludeIndex r + int k \<le> getLastLogIndex r"
  shows "\<exists>u. backOff r t k upd = Inr u \<and>
    ((\<forall>j\<le>k. termAt r (lastSnapshotIncludeIndex r + int j) = t) \<and> u = upd \<or>
     (\<exists>j\<le>k. u = lastSnapshotIncludeIndex r + int j + 1 \<and>
        termAt r (lastSnapshotIncludeIndex r + int j) \<noteq> t \<and>
        (\<forall>m. j < m \<and> m \<le> k \<longrightarrow> termAt r (lastSnapshotIncludeIndex r + int m) = t)))"
  using assms
proof (induction k)
  case 0
  then show ?case by (auto simp: getLogTerm_wf)
next
  case (Suc k)
  let ?S = "lastSnapshotIncludeIndex r"
  have got: "getLogTermFromLogIndex r (?S + int (Suc k)) = Inr (termAt r (?S + int (Suc k)))"
    using Suc.prems by (intro getLogTerm_wf) auto
  show ?case
  proof (cases "termAt r (?S + int (Suc k)) = t")
    case False
    then show ?thesis using got by (intro exI[of _ "?S + int (Suc k) + 1"]) auto
  next
    case True
    from Suc obtain u where u: "backOff r t k upd = Inr u"
      "(\<forall>j\<le>k. termAt r (?S + int j) = t) \<and> u = upd \<or>
       (\<exists>j\<le>k. u = ?S + int j + 1 \<and> termAt r (?S + int j) \<noteq> t \<and>
          (\<forall>m. j < m \<and> m \<le> k \<longrightarrow> termAt r (?S + int m) = t))" by auto
    have step: "backOff r t (Suc k) upd = Inr u" using True got u(1) by simp
    from u(2) show ?thesis
    proof
      assume "(\<forall>j\<le>k. termAt r (?S + int j) = t) \<and> u = upd"
      then show ?thesis using step True by (auto simp: le_Suc_eq)
    next
      assume "\<exists>j\<le>k. u = ?S + int j + 1 \<and> termAt r (?S + int j) \<noteq> t \<and>
          (\<forall>m. j < m \<and> m \<le> k \<longrightarrow> termAt r (?S + int m) = t)"
      then obtain j where "j \<le> k" "u = ?S + int j + 1" "termAt r (?S + int j) \<noteq> t"
        "\<forall>m. j < m \<and> m \<le> k \<longrightarrow> termAt r (?S + int m) = t" by blast
      then show ?thesis using step True
        by (intro exI[of _ u] conjI disjI2 exI[of _ j]) (auto simp: le_Suc_eq)
    qed
  qed
qed

section \<open>The append handler\<close>

text \<open>The log after entries were accepted at position \<open>k\<close>: what was beyond them stays.\<close>

definition storedLog :: "logEntry list \<Rightarrow> nat \<Rightarrow> logEntry list \<Rightarrow> logEntry list" where
  "storedLog l k es = take k l @ es @ drop (k + length es) l"

lemma storedLog_length: "k \<le> length l \<Longrightarrow> length (storedLog l k es) = max (length l) (k + length es)"
  by (auto simp: storedLog_def)

lemma storedLog_contiguous:
  assumes "contiguous i l" and "k \<le> length l" and "contiguous (i + int k) es"
  shows "contiguous i (storedLog l k es)"
proof -
  have "contiguous (i + int k + int (length es)) (drop (k + length es) l)"
    using contiguous_drop[OF assms(1), of "k + length es"]
    by (cases "k + length es \<le> length l") (auto simp: algebra_simps)
  then show ?thesis using contiguous_take[OF assms(1), of k] assms(2,3)
    by (simp add: storedLog_def contiguous_append min_absorb2)
qed

lemma appendBody_short:
  "ae_prevlogindex args > getLastLogIndex r \<Longrightarrow> appendEntriesBody args r =
     Inr (\<lparr>aer_term = currentTerm r, aer_success = False, aer_updatenextindex = getLastLogIndex r + 1,
           aer_appstate = AppNormal\<rparr>, r)"
  by (simp add: appendEntriesBody_def)

lemma appendBody_snapshotted:
  "ae_prevlogindex args \<le> getLastLogIndex r \<Longrightarrow> ae_prevlogindex args < lastSnapshotIncludeIndex r \<Longrightarrow>
   appendEntriesBody args r =
     Inr (\<lparr>aer_term = currentTerm r, aer_success = False,
           aer_updatenextindex = lastSnapshotIncludeIndex r + 1, aer_appstate = AppNormal\<rparr>, r)"
  by (simp add: appendEntriesBody_def)

lemma appendBody_mismatch:
  assumes inv: "raft_inv r" and range: "lastSnapshotIncludeIndex r \<le> ae_prevlogindex args"
    "ae_prevlogindex args \<le> getLastLogIndex r"
    and ne: "ae_prevlogterm args \<noteq> termAt r (ae_prevlogindex args)"
  shows "\<exists>u. appendEntriesBody args r = Inr (\<lparr>aer_term = currentTerm r, aer_success = False,
      aer_updatenextindex = u, aer_appstate = AppNormal\<rparr>, r) \<and>
    u \<le> ae_prevlogindex args \<and> lastSnapshotIncludeIndex r \<le> u \<and>
    (\<forall>i. u \<le> i \<and> i \<le> ae_prevlogindex args \<longrightarrow> termAt r i = termAt r (ae_prevlogindex args)) \<and>
    (u = ae_prevlogindex args \<or> lastSnapshotIncludeIndex r < u)"
proof -
  have wf: "log_wf r" using inv by (simp add: raft_inv_def)
  let ?p = "ae_prevlogindex args" and ?S = "lastSnapshotIncludeIndex r"
  define k where "k = nat (?p - ?S)"
  with range have p: "?p = ?S + int k" by simp
  from range p backOff_wf[OF wf, of k "termAt r ?p" ?p] obtain u where
    u: "backOff r (termAt r ?p) k ?p = Inr u"
    "(\<forall>j\<le>k. termAt r (?S + int j) = termAt r ?p) \<and> u = ?p \<or>
     (\<exists>j\<le>k. u = ?S + int j + 1 \<and> termAt r (?S + int j) \<noteq> termAt r ?p \<and>
        (\<forall>m. j < m \<and> m \<le> k \<longrightarrow> termAt r (?S + int m) = termAt r ?p))" by auto
  have body: "appendEntriesBody args r = Inr (\<lparr>aer_term = currentTerm r, aer_success = False,
      aer_updatenextindex = u, aer_appstate = AppNormal\<rparr>, r)"
    using range ne u(1) by (simp add: appendEntriesBody_def matchLog_wf[OF wf] getLogTerm_wf[OF wf] k_def)
  have "u \<le> ?p \<and> ?S \<le> u \<and> (\<forall>i. u \<le> i \<and> i \<le> ?p \<longrightarrow> termAt r i = termAt r ?p) \<and> (u = ?p \<or> ?S < u)"
    using u(2)
  proof
    assume "(\<forall>j\<le>k. termAt r (?S + int j) = termAt r ?p) \<and> u = ?p"
    then show ?thesis using range by auto
  next
    assume "\<exists>j\<le>k. u = ?S + int j + 1 \<and> termAt r (?S + int j) \<noteq> termAt r ?p \<and>
        (\<forall>m. j < m \<and> m \<le> k \<longrightarrow> termAt r (?S + int m) = termAt r ?p)"
    then obtain j where j: "j \<le> k" "u = ?S + int j + 1" "termAt r (?S + int j) \<noteq> termAt r ?p"
      "\<forall>m. j < m \<and> m \<le> k \<longrightarrow> termAt r (?S + int m) = termAt r ?p" by blast
    then have "j \<noteq> k" using p by auto
    moreover have "termAt r i = termAt r ?p" if "u \<le> i" "i \<le> ?p" for i
    proof -
      have "j < nat (i - ?S) \<and> nat (i - ?S) \<le> k" using that j(2) p by linarith
      then show ?thesis using j(4)[rule_format, of "nat (i - ?S)"] that j(2) by simp
    qed
    moreover have "u \<le> ?p" "?S < u" using j(1,2) p calculation(1) by linarith+
    ultimately show ?thesis using less_imp_le by blast
  qed
  then show ?thesis using body by blast
qed

lemma appendBody_match:
  assumes inv: "raft_inv r" and range: "lastSnapshotIncludeIndex r \<le> ae_prevlogindex args"
    "ae_prevlogindex args \<le> getLastLogIndex r"
    and same: "ae_prevlogterm args = termAt r (ae_prevlogindex args)"
    and cont: "contiguous (ae_prevlogindex args) (ae_entries args)"
  defines "k \<equiv> nat (ae_prevlogindex args - lastSnapshotIncludeIndex r)"
  defines "l \<equiv> storedLog (logs r) k (ae_entries args)"
  shows "appendEntriesBody args r =
     (if clash (logs r) k (ae_entries args) then Inl AssertFail
      else Inr (\<lparr>aer_term = currentTerm r, aer_success = True, aer_updatenextindex = 0, aer_appstate = AppNormal\<rparr>,
        r\<lparr>logs := l, commitIndex := max (commitIndex r)
             (min (ae_leadercommit args) (lastSnapshotIncludeIndex r + int (length l)))\<rparr>))"
    and "contiguous (lastSnapshotIncludeIndex r) l" and "k \<le> length (logs r)"
    and "getLastLogIndex r \<le> lastSnapshotIncludeIndex r + int (length l)"
    and "ae_prevlogindex args + int (length (ae_entries args)) \<le> lastSnapshotIncludeIndex r + int (length l)"
proof -
  have wf: "log_wf r" using inv by (simp add: raft_inv_def)
  note last = lastLogIndex_wf[OF wf]
  show k: "k \<le> length (logs r)" using range last by (simp add: k_def)
  have c: "contiguous (lastSnapshotIncludeIndex r + int k) (ae_entries args)"
    using cont range by (simp add: k_def)
  show l: "contiguous (lastSnapshotIncludeIndex r) l"
    using storedLog_contiguous[OF _ k c] wf by (simp add: l_def log_wf_contiguous)
  have len: "length l = max (length (logs r)) (k + length (ae_entries args))"
    unfolding l_def using k by (rule storedLog_length)
  show grow: "getLastLogIndex r \<le> lastSnapshotIncludeIndex r + int (length l)" using len last by simp
  show reach: "ae_prevlogindex args + int (length (ae_entries args)) \<le> lastSnapshotIncludeIndex r + int (length l)"
    using len range by (simp add: k_def)
  have last': "getLastLogIndex (r\<lparr>logs := l\<rparr>) = lastSnapshotIncludeIndex r + int (length l)"
    "getLastLogIndex (r\<lparr>logs := l, commitIndex := c\<rparr>) = lastSnapshotIncludeIndex r + int (length l)" for c
    using lastLogIndex_wf[of "r\<lparr>logs := l\<rparr>"] lastLogIndex_wf[of "r\<lparr>logs := l, commitIndex := c\<rparr>"] l
    by (simp_all add: log_wf_contiguous)
  have com: "commitIndex r \<le> getLastLogIndex r" using inv by (simp add: raft_inv_def)
  have loop: "foldR storeEntry (ae_entries args) r =
      (if clash (logs r) k (ae_entries args) then Inl AssertFail else Inr (r\<lparr>logs := l\<rparr>))"
    using storeEntries_wf[OF wf k c] by (simp add: l_def storedLog_def)
  show "appendEntriesBody args r =
     (if clash (logs r) k (ae_entries args) then Inl AssertFail
      else Inr (\<lparr>aer_term = currentTerm r, aer_success = True, aer_updatenextindex = 0, aer_appstate = AppNormal\<rparr>,
        r\<lparr>logs := l, commitIndex := max (commitIndex r)
             (min (ae_leadercommit args) (lastSnapshotIncludeIndex r + int (length l)))\<rparr>))"
  proof (cases "clash (logs r) k (ae_entries args)")
    case True
    then show ?thesis using range same loop by (simp add: appendEntriesBody_def matchLog_wf[OF wf])
  next
    case False
    have eq: "r\<lparr>logs := l\<rparr> = r\<lparr>logs := l, commitIndex := commitIndex r\<rparr>" by simp
    show ?thesis
    proof (cases "ae_leadercommit args > commitIndex r")
      case True
      with False range same loop reach grow com show ?thesis
        by (simp add: appendEntriesBody_def matchLog_wf[OF wf] last' max_def)
    next
      case f: False
      then have "max (commitIndex r) (min (ae_leadercommit args) (lastSnapshotIncludeIndex r + int (length l)))
        = commitIndex r" by simp
      with f False range same loop reach grow com show ?thesis
        by (simp add: appendEntriesBody_def matchLog_wf[OF wf] last')
    qed
  qed
qed

lemma raft_inv_cong:
  assumes "logs r' = logs r" "lastSnapshotIncludeIndex r' = lastSnapshotIncludeIndex r"
    "lastSnapshotIncludeTerm r' = lastSnapshotIncludeTerm r" "lastApplied r' = lastApplied r"
    "commitIndex r' = commitIndex r" "nextIndex r' = nextIndex r" "matchIndex r' = matchIndex r"
    "npeers r' = npeers r"
  shows "raft_inv r' = raft_inv r"
  using assms log_funs_cong[OF assms(1-3)] by (simp add: raft_inv_def)

lemma appendBody_inv:
  assumes inv: "raft_inv r" and cont: "contiguous (ae_prevlogindex args) (ae_entries args)"
    and ok: "appendEntriesBody args r = Inr (reply, r')"
  shows "raft_inv r' \<and> getLastLogIndex r \<le> getLastLogIndex r' \<and> commitIndex r \<le> commitIndex r' \<and>
    lastSnapshotIncludeIndex r' = lastSnapshotIncludeIndex r"
proof -
  consider "ae_prevlogindex args > getLastLogIndex r"
    | "ae_prevlogindex args \<le> getLastLogIndex r" "ae_prevlogindex args < lastSnapshotIncludeIndex r"
    | (mid) "ae_prevlogindex args \<le> getLastLogIndex r" "lastSnapshotIncludeIndex r \<le> ae_prevlogindex args"
    by linarith
  then show ?thesis
  proof cases
    case mid
    show ?thesis
    proof (cases "ae_prevlogterm args = termAt r (ae_prevlogindex args)")
      case False
      with appendBody_mismatch[OF inv mid(2,1)] ok inv show ?thesis by auto
    next
      case True
      note m = appendBody_match[OF inv mid(2,1) True cont]
      let ?l = "storedLog (logs r) (nat (ae_prevlogindex args - lastSnapshotIncludeIndex r)) (ae_entries args)"
      let ?c = "max (commitIndex r) (min (ae_leadercommit args) (lastSnapshotIncludeIndex r + int (length ?l)))"
      have r': "r' = r\<lparr>logs := ?l, commitIndex := ?c\<rparr>" using ok m(1) by (auto split: if_splits)
      have wf': "log_wf r'" using m(2) by (simp add: r' log_wf_contiguous)
      have last': "getLastLogIndex r' = lastSnapshotIncludeIndex r + int (length ?l)"
        using lastLogIndex_wf[OF wf'] by (simp add: r')
      show ?thesis using inv m(4) wf' last' unfolding raft_inv_def by (auto simp: r' max_def min_def)
    qed
  qed (use ok inv in \<open>auto simp: appendEntriesBody_def\<close>)
qed

end
