(* ===== verification/RaftServer.thy ===== *)
theory RaftServer
  imports RaftLogCorrect Transitions
begin

text \<open>
  One Raft server as a step relation: every handler and thread body is a step, with arbitrary
  messages from the network, and a restart from the state file can happen between any two
  steps.  Each operation is shown to keep the invariant of the log and of the state file.
\<close>

section \<open>Steps\<close>

text \<open>The steps that take no part in elections.  A step that ends the process (\<open>Inl\<close>) is no step
  here: the server then does nothing until it restarts.\<close>

inductive otherStep :: "codec \<Rightarrow> raft \<Rightarrow> raft \<Rightarrow> bool" for C where
  command_: "start C op r = (res, r') \<Longrightarrow> otherStep C r r'"
| heartBeat: "doHeartBeat now r = Inr (r', sp) \<Longrightarrow> otherStep C r r'"
| appendReply: "sendAppendEntries peer args isOk reply a r = Inr r' \<Longrightarrow> otherStep C r r'"
| append: "contiguous (ae_prevlogindex args) (ae_entries args) \<Longrightarrow>
    appendEntriesimpl C now args r = Inr (reply, r') \<Longrightarrow> otherStep C r r'"
| commit: "leaderUpdateCommitIndex r = Inr r' \<Longrightarrow> otherStep C r r'"
| apply_: "getApplyLogs r = Inr (ms, r') \<Longrightarrow> otherStep C r r'"
| snapshot_: "snapshot C index snap r = Inr r' \<Longrightarrow> otherStep C r r'"
| install: "installSnapshotImpl C now sargs r = Inr (sreply, r', sp) \<Longrightarrow> otherStep C r r'"
| installReply: "leaderSendSnapshot C now peer sargs isOk sreply r = Inr r' \<Longrightarrow> otherStep C r r'"

inductive serverStep :: "codec \<Rightarrow> raft \<Rightarrow> raft \<Rightarrow> bool" for C where
  other: "otherStep C r r' \<Longrightarrow> serverStep C r r'"
| elect: "doElection C r = (r', sp) \<Longrightarrow> serverStep C r r'"
| vote: "requestVoteImpl C now vargs r = (vreply, r') \<Longrightarrow> serverStep C r r'"
| voteReply: "sendRequestVote C isOk vreply a r = Inr (r', sp) \<Longrightarrow> serverStep C r r'"
| restart: "initRaft C (npeers r) (raftId r) (persister r) now = Inr r' \<Longrightarrow> serverStep C r r'"

section \<open>The state file\<close>

text \<open>A start from these files would find a log in order.\<close>

definition saved_ok :: "codec \<Rightarrow> persister \<Rightarrow> bool" where
  "saved_ok C p \<longleftrightarrow> (\<exists>t v si st l. savedState C p = Inr (t, v, si, st, l) \<and> 0 \<le> si \<and> contiguous si l)"

definition server_inv :: "codec \<Rightarrow> raft \<Rightarrow> bool" where
  "server_inv C r \<longleftrightarrow> raft_inv r \<and> p_ok (persister r) \<and> saved_ok C (persister r)"

lemma saved_ok_hard:
  assumes "savedState C p = Inr (hardState r)" and "raft_inv r"
  shows "saved_ok C p"
  using assms by (auto simp: saved_ok_def hardState_def raft_inv_def log_wf_contiguous)

lemma server_inv_persist:
  assumes "codec_ok C" and "p_ok (persister r)" and "raft_inv r"
  shows "server_inv C (persist C r)"
  using assms persist_saved[OF assms(1,2)] saved_ok_hard[OF _ assms(3)] by (auto simp: server_inv_def)

lemma server_inv_save:
  assumes "codec_ok C" and "p_ok (persister r)" and "raft_inv r"
  shows "server_inv C (saveSnapshot C x r)"
  using assms saveSnapshot_saved[OF assms(1,2)] saved_ok_hard[OF _ assms(3)] by (auto simp: server_inv_def)

lemma server_inv_cong:
  assumes "raft_inv r \<Longrightarrow> raft_inv r'" and "persister r' = persister r"
  shows "server_inv C r \<Longrightarrow> server_inv C r'"
  using assms by (simp add: server_inv_def)

section \<open>What the operations do to the log\<close>

lemma start_leader:
  assumes "raft_inv r" and "status r = Leader"
  shows "start C op r = ((getLastLogIndex r + 1, currentTerm r, True),
      persist C (r\<lparr>logs := logs r @ [\<lparr>command = op, logterm = currentTerm r, logindex = getLastLogIndex r + 1\<rparr>]\<rparr>))"
    and "raft_inv (r\<lparr>logs := logs r @ [\<lparr>command = op, logterm = currentTerm r, logindex = getLastLogIndex r + 1\<rparr>]\<rparr>)"
proof -
  let ?e = "\<lparr>command = op, logterm = currentTerm r, logindex = getLastLogIndex r + 1\<rparr>"
  let ?r1 = "r\<lparr>logs := logs r @ [?e]\<rparr>"
  have wf: "log_wf r" using assms(1) by (simp add: raft_inv_def)
  then have "log_wf ?r1" using lastLogIndex_wf[OF wf] by (simp add: log_wf_contiguous contiguous_append contiguous_Cons)
  then have last: "getLastLogIndex ?r1 = getLastLogIndex r + 1"
    using lastLogIndex_wf[of ?r1] lastLogIndex_wf[OF wf] by simp
  with \<open>log_wf ?r1\<close> assms(1) show "raft_inv ?r1" by (auto simp: raft_inv_def)
  show "start C op r = ((getLastLogIndex r + 1, currentTerm r, True), persist C ?r1)"
    using assms(2) last by (simp add: start_def getNewCommandIndex_def Let_def)
qed

lemma storeTail:
  \<comment> \<open>dropping the entries up to an index keeps the order\<close>
  assumes "log_wf r" and "lastSnapshotIncludeIndex r < i" and "i \<le> getLastLogIndex r"
  shows "eraseFront r i = Inr (r\<lparr>logs := drop (Suc (slot r i)) (logs r)\<rparr>)"
    and "contiguous i (drop (Suc (slot r i)) (logs r))"
    and "i + int (length (drop (Suc (slot r i)) (logs r))) = getLastLogIndex r"
proof -
  have s: "slot r i < length (logs r)" "int (slot r i) = i - lastSnapshotIncludeIndex r - 1"
    using entryAt_wf(2)[OF assms] assms(2) by (auto simp: slot_def)
  then have n: "nat (i - lastSnapshotIncludeIndex r) = Suc (slot r i)" using assms(2) by simp
  show "eraseFront r i = Inr (r\<lparr>logs := drop (Suc (slot r i)) (logs r)\<rparr>)"
    using s slices_wf[OF assms] n by (simp add: eraseFront_def)
  show "contiguous i (drop (Suc (slot r i)) (logs r))"
    using contiguous_drop[of "lastSnapshotIncludeIndex r" "logs r" "Suc (slot r i)"] assms(1) s
    by (simp add: log_wf_contiguous)
  show "i + int (length (drop (Suc (slot r i)) (logs r))) = getLastLogIndex r"
    using s lastLogIndex_wf[OF assms(1)] by simp
qed

lemma snapshot_taken:
  assumes inv: "raft_inv r" and "lastSnapshotIncludeIndex r < i" and "i \<le> commitIndex r"
  defines "r2 \<equiv> r\<lparr>logs := drop (Suc (slot r i)) (logs r), lastSnapshotIncludeIndex := i,
      lastSnapshotIncludeTerm := termAt r i, lastApplied := max (lastApplied r) i\<rparr>"
  shows "snapshot C i snap r = Inr (saveSnapshot C snap r2)" and "raft_inv r2"
    and "getLastLogIndex r2 = getLastLogIndex r"
proof -
  have wf: "log_wf r" and c: "commitIndex r \<le> getLastLogIndex r" using inv by (auto simp: raft_inv_def)
  with assms(2,3) have i: "lastSnapshotIncludeIndex r < i" "i \<le> getLastLogIndex r" by auto
  note tail = storeTail[OF wf i]
  have wf2: "log_wf r2" using tail(2) by (simp add: log_wf_contiguous r2_def)
  show last: "getLastLogIndex r2 = getLastLogIndex r"
    using lastLogIndex_wf[OF wf2] tail(3) by (simp add: r2_def)
  show "raft_inv r2" using inv wf2 last i assms(2) by (auto simp: raft_inv_def r2_def)
  have eq: "r\<lparr>logs := drop (Suc (slot r i)) (logs r)\<rparr>\<lparr>lastSnapshotIncludeIndex := i,
      lastSnapshotIncludeTerm := termAt r i, commitIndex := max (commitIndex r) i,
      lastApplied := max (lastApplied r) i\<rparr> = r2"
    using assms(3) by (simp add: r2_def max_def)
  have "int (length (logs r) - Suc (slot r i)) + i = getLastLogIndex r2"
    using lastLogIndex_wf[OF wf2] by (simp add: r2_def)
  then show "snapshot C i snap r = Inr (saveSnapshot C snap r2)"
    using assms(2,3) i getLogTerm_wf[OF wf, of i] tail(1) eq
    by (simp add: snapshot_def log_keep Let_def)
qed

lemma snapshot_ignored:
  "i \<le> lastSnapshotIncludeIndex r \<or> commitIndex r < i \<Longrightarrow> snapshot C i snap r = Inr r"
  by (auto simp: snapshot_def)

text \<open>The state after \<open>installSnapshotImpl\<close> took a snapshot, before it is saved.\<close>

definition installed :: "int \<Rightarrow> installSnapshotRequest \<Rightarrow> raft \<Rightarrow> raft" where
  "installed now args r =
     (let i = is_lastsnapshotincludeindex args in
      r\<lparr>status := Follower, currentTerm := is_term args,
        votedFor := (if is_term args > currentTerm r then -1 else votedFor r),
        lastResetElectionTime := now,
        logs := (if getLastLogIndex r > i then drop (Suc (slot r i)) (logs r) else []),
        commitIndex := max (commitIndex r) i, lastApplied := max (lastApplied r) i,
        lastSnapshotIncludeIndex := i, lastSnapshotIncludeTerm := is_lastsnapshotincludeterm args\<rparr>)"

lemma installed_inv:
  assumes inv: "raft_inv r" and i: "is_lastsnapshotincludeindex args > lastSnapshotIncludeIndex r"
  shows "raft_inv (installed now args r)"
    and "getLastLogIndex (installed now args r) = max (getLastLogIndex r) (is_lastsnapshotincludeindex args)"
proof -
  let ?i = "is_lastsnapshotincludeindex args" and ?r = "installed now args r"
  have wf: "log_wf r" using inv by (simp add: raft_inv_def)
  have c: "contiguous ?i (logs ?r) \<and> ?i + int (length (logs ?r)) = max (getLastLogIndex r) ?i"
    using storeTail[OF wf i] by (auto simp: installed_def Let_def)
  then have wf': "log_wf ?r" by (simp add: log_wf_contiguous installed_def Let_def)
  show last: "getLastLogIndex ?r = max (getLastLogIndex r) ?i"
    using lastLogIndex_wf[OF wf'] c by (simp add: installed_def Let_def)
  show "raft_inv ?r" using inv i wf' last by (auto simp: raft_inv_def installed_def Let_def)
qed

section \<open>Every step keeps the invariant\<close>

lemma doElection_inv:
  assumes "codec_ok C" and "server_inv C r" and "doElection C r = (r', sp)"
  shows "server_inv C r'"
proof (cases "status r = Leader")
  case False
  let ?r1 = "r\<lparr>status := Candidate, currentTerm := currentTerm r + 1, votedFor := raftId r\<rparr>"
  have "raft_inv ?r1 = raft_inv r" by (rule raft_inv_cong) simp_all
  with assms(2) have "server_inv C (persist C ?r1)"
    by (intro server_inv_persist[OF assms(1)]) (auto simp: server_inv_def)
  moreover have "raft_inv (persist C ?r1) = raft_inv r'"
    using False assms(3) by (intro raft_inv_cong) (auto simp: doElection_def Let_def split: prod.splits)
  moreover have "persister (persist C ?r1) = persister r'"
    using False assms(3) by (auto simp: doElection_def Let_def split: prod.splits)
  ultimately show ?thesis by (simp add: server_inv_def)
qed (use assms in \<open>simp add: doElection_def\<close>)

text \<open>The state \<open>requestVoteImpl\<close> is about to persist.\<close>

definition votedState :: "int \<Rightarrow> requestVoteArgs \<Rightarrow> raft \<Rightarrow> raft" where
  "votedState now args r =
     (if rv_term args < currentTerm r then r
      else
        let r1 = (if rv_term args > currentTerm r
                  then r\<lparr>status := Follower, currentTerm := rv_term args, votedFor := -1\<rparr> else r)
        in if upToDate r1 (rv_lastlogindex args) (rv_lastlogterm args) \<and>
              (votedFor r1 = -1 \<or> votedFor r1 = rv_candidateid args)
           then r1\<lparr>votedFor := rv_candidateid args, lastResetElectionTime := now\<rparr> else r1)"

lemma requestVote_persisted: "snd (requestVoteImpl C now args r) = persist C (votedState now args r)"
  by (simp add: requestVoteImpl_def votedState_def Let_def)

lemma votedState_inv: "raft_inv (votedState now args r) = raft_inv r"
  "persister (votedState now args r) = persister r"
  by (rule raft_inv_cong; simp add: votedState_def Let_def) (simp add: votedState_def Let_def)

lemma requestVote_inv:
  assumes "codec_ok C" and "server_inv C r" and "requestVoteImpl C now args r = (reply, r')"
  shows "server_inv C r'"
proof -
  have "r' = persist C (votedState now args r)"
    using requestVote_persisted[of C now args r] assms(3) by simp
  then show ?thesis
    using server_inv_persist[OF assms(1), of "votedState now args r"] assms(2)
    by (simp add: votedState_inv server_inv_def)
qed

lemma sendRequestVote_inv:
  assumes "codec_ok C" and "server_inv C r" and "sendRequestVote C isOk reply a r = Inr (r', sp)"
  shows "server_inv C r'"
proof -
  let ?down = "r\<lparr>status := Follower, currentTerm := rvr_term reply, votedFor := -1\<rparr>"
  have down: "server_inv C (persist C ?down)"
    using server_inv_persist[OF assms(1), of ?down] assms(2) raft_inv_cong[of ?down r]
    by (simp add: server_inv_def)
  have "r' = r \<or> r' = persist C ?down \<or>
      persister r' = persister r \<and> logs r' = logs r \<and> lastSnapshotIncludeIndex r' = lastSnapshotIncludeIndex r \<and>
      lastSnapshotIncludeTerm r' = lastSnapshotIncludeTerm r \<and> lastApplied r' = lastApplied r \<and>
      commitIndex r' = commitIndex r \<and> npeers r' = npeers r \<and>
      length (nextIndex r') = length (nextIndex r) \<and>
      (length (matchIndex r') = length (matchIndex r) \<or> length (matchIndex r') = length (nextIndex r))"
    using assms(3) unfolding sendRequestVote_def Let_def
    by (auto simp: andThen_eq_Inr myAssert_eq_Inr split: if_splits)
  then show ?thesis
  proof (elim disjE)
    assume *: "persister r' = persister r \<and> logs r' = logs r \<and> lastSnapshotIncludeIndex r' = lastSnapshotIncludeIndex r \<and>
      lastSnapshotIncludeTerm r' = lastSnapshotIncludeTerm r \<and> lastApplied r' = lastApplied r \<and>
      commitIndex r' = commitIndex r \<and> npeers r' = npeers r \<and>
      length (nextIndex r') = length (nextIndex r) \<and>
      (length (matchIndex r') = length (matchIndex r) \<or> length (matchIndex r') = length (nextIndex r))"
    then have "getLastLogIndex r' = getLastLogIndex r" "log_wf r' = log_wf r"
      using log_funs_cong[of r' r] by auto
    with * assms(2) show ?thesis by (auto simp: server_inv_def raft_inv_def)
  qed (use assms(2) down in auto)
qed

lemma initRaft_inv:
  assumes "p_ok p" and "saved_ok C p"
  shows "\<exists>r. initRaft C n me p now = Inr r \<and> server_inv C r \<and> persister r = p \<and>
    npeers r = n \<and> raftId r = me \<and> savedState C p = Inr (hardState r)"
proof -
  from assms(2) obtain t v si st l where s: "savedState C p = Inr (t, v, si, st, l)" "0 \<le> si" "contiguous si l"
    by (auto simp: saved_ok_def)
  define r where "r = \<lparr>npeers = n, raftId = me, currentTerm = t, votedFor = v, logs = l, commitIndex = 0,
      lastApplied = (if si > 0 then si else 0), nextIndex = replicate n 0, matchIndex = replicate n 0,
      status = Follower, lastResetElectionTime = now, lastResetHearBeatTime = now,
      lastSnapshotIncludeIndex = si, lastSnapshotIncludeTerm = st, persister = p,
      voteNums = [], appendNums = []\<rparr>"
  have i: "initRaft C n me p now = Inr r" by (simp add: initRaft_saved s(1) r_def)
  have wf: "log_wf r" using s(3) by (simp add: log_wf_contiguous r_def)
  have "raft_inv r" using s(2) wf lastLogIndex_wf[OF wf] by (simp add: raft_inv_def r_def)
  with i assms show ?thesis using s(1) by (auto simp: server_inv_def r_def hardState_def)
qed

section \<open>Replication steps and votes\<close>

text \<open>What a step without a part in elections does to the vote: nothing, or it enters a later term
  as a follower without a vote; the state file is untouched or holds the new state.\<close>

definition votes_kept :: "codec \<Rightarrow> raft \<Rightarrow> raft \<Rightarrow> bool" where
  "votes_kept C r r' \<longleftrightarrow>
     voteNums r' = voteNums r \<and> npeers r' = npeers r \<and> raftId r' = raftId r \<and>
     (currentTerm r' = currentTerm r \<and> votedFor r' = votedFor r \<and> (status r' = Leader \<longrightarrow> status r = Leader) \<or>
      currentTerm r < currentTerm r' \<and> votedFor r' = -1 \<and> status r' = Follower) \<and>
     (savedState C (persister r') = savedState C (persister r) \<or>
      savedState C (persister r') = Inr (hardState r'))"

lemma votes_keptI:
  assumes "voteNums r' = voteNums r \<and> npeers r' = npeers r \<and> raftId r' = raftId r"
    and "currentTerm r' = currentTerm r \<and> votedFor r' = votedFor r \<and> (status r' = Leader \<longrightarrow> status r = Leader) \<or>
      currentTerm r < currentTerm r' \<and> votedFor r' = -1 \<and> status r' = Follower"
    and "savedState C (persister r') = Inr (hardState r')"
  shows "votes_kept C r r'"
  unfolding votes_kept_def using assms(1,2) disjI2[OF assms(3)] by (elim conjE) (intro conjI)

lemma votes_kept_same:
  assumes "voteNums r' = voteNums r" "npeers r' = npeers r" "raftId r' = raftId r"
    "currentTerm r' = currentTerm r" "votedFor r' = votedFor r" "status r' = status r"
    "persister r' = persister r"
  shows "votes_kept C r r'"
  using assms by (simp add: votes_kept_def)

lemma start_keeps:
  assumes "codec_ok C" and "server_inv C r" and "start C op r = (res, r')"
  shows "server_inv C r' \<and> votes_kept C r r'"
proof (cases "status r = Leader")
  case True
  have inv: "raft_inv r" "p_ok (persister r)" using assms(2) by (simp_all add: server_inv_def)
  let ?r1 = "r\<lparr>logs := logs r @ [\<lparr>command = op, logterm = currentTerm r, logindex = getLastLogIndex r + 1\<rparr>]\<rparr>"
  have r': "r' = persist C ?r1" using start_leader(1)[OF inv(1) True, of C op] assms(3) by simp
  have "p_ok (persister ?r1)" using inv(2) by simp
  with start_leader(2)[OF inv(1) True] show ?thesis
    unfolding r' using server_inv_persist[OF assms(1)] persist_saved[OF assms(1)]
    by (simp add: votes_kept_def)
next
  case False
  then have "r' = r" using assms(3) by (simp add: start_def)
  then show ?thesis using assms(2) by (simp add: votes_kept_def)
qed

lemma heartBeat_keeps:
  assumes "server_inv C r" and "doHeartBeat now r = Inr (r', sp)"
  shows "server_inv C r' \<and> votes_kept C r r'"
proof -
  have "r' = r \<or> r' = r\<lparr>appendNums := appendNums r @ [1], lastResetHearBeatTime := now\<rparr>"
    using assms(2) by (auto simp: doHeartBeat_def Let_def andThen_eq_Inr split: if_splits)
  moreover have "raft_inv (r\<lparr>appendNums := appendNums r @ [1], lastResetHearBeatTime := now\<rparr>) = raft_inv r"
    by (rule raft_inv_cong) simp_all
  ultimately show ?thesis using assms(1) by (auto simp: server_inv_def votes_kept_def)
qed

text \<open>The fields an answer to \<open>AppendEntries\<close> can change in the same term.\<close>

definition progressed :: "raft \<Rightarrow> raft \<Rightarrow> bool" where
  "progressed r r' \<longleftrightarrow> (\<exists>an mi ni c.
     r' = r\<lparr>appendNums := an, matchIndex := mi, nextIndex := ni, commitIndex := c\<rparr> \<and>
     length mi = length (matchIndex r) \<and> length ni = length (nextIndex r) \<and>
     (c = commitIndex r \<or> commitIndex r \<le> c \<and> c \<le> getLastLogIndex r))"

lemma progressedI:
  "r' = r\<lparr>appendNums := an, matchIndex := mi, nextIndex := ni, commitIndex := c\<rparr> \<Longrightarrow>
   length mi = length (matchIndex r) \<Longrightarrow> length ni = length (nextIndex r) \<Longrightarrow>
   c = commitIndex r \<or> commitIndex r \<le> c \<and> c \<le> getLastLogIndex r \<Longrightarrow> progressed r r'"
  unfolding progressed_def by blast

lemma commitRound_form:
  assumes "commitRound args a r = Inr r'"
  shows "\<exists>an c. r' = r\<lparr>appendNums := an, commitIndex := c\<rparr> \<and>
    (c = commitIndex r \<or> commitIndex r \<le> c \<and> c \<le> getLastLogIndex r)"
proof -
  have last: "getLastLogIndex (r\<lparr>appendNums := an, commitIndex := c\<rparr>) = getLastLogIndex r" for an c
    by (rule log_funs_cong(2)) simp_all
  from assms obtain n where "vecGet (appendNums r) (int a) = Inr n"
    and body: "(if n \<ge> majority r
     then
       let r1 = r\<lparr>appendNums := (appendNums r)[a := 0]\<rparr>;
           r2 = (if ae_entries args \<noteq> [] \<and> logterm (last (ae_entries args)) = currentTerm r1
                 then r1\<lparr>commitIndex := max (commitIndex r1)
                            (ae_prevlogindex args + int (length (ae_entries args)))\<rparr> else r1)
       in andThen (myAssert (commitIndex r2 \<le> getLastLogIndex r2)) (\<lambda>_. Inr r2)
     else Inr r) = Inr r'" unfolding commitRound_def andThen_eq_Inr by blast
  show ?thesis
  proof (cases "n \<ge> majority r \<and> ae_entries args \<noteq> [] \<and> logterm (last (ae_entries args)) = currentTerm r")
    case True
    with body have "r' = r\<lparr>appendNums := (appendNums r)[a := 0],
        commitIndex := max (commitIndex r) (ae_prevlogindex args + int (length (ae_entries args)))\<rparr>"
      and "max (commitIndex r) (ae_prevlogindex args + int (length (ae_entries args))) \<le> getLastLogIndex r"
      by (simp_all add: Let_def andThen_eq_Inr myAssert_eq_Inr last)
    then show ?thesis by (intro exI conjI disjI2) (assumption | simp)+
  next
    case False
    show ?thesis
    proof (cases "n \<ge> majority r")
      case True
      with False body have "r' = r\<lparr>appendNums := (appendNums r)[a := 0], commitIndex := commitIndex r\<rparr>"
        by (cases "ae_entries args = []") (auto simp: Let_def andThen_eq_Inr)
      then show ?thesis by blast
    next
      case False
      with body have "r' = r\<lparr>appendNums := appendNums r, commitIndex := commitIndex r\<rparr>" by simp
      then show ?thesis by blast
    qed
  qed
qed

lemma appendAccepted_form:
  assumes "appendAccepted peer args a r = Inr r'"
  shows "progressed r r'"
proof -
  from assms obtain n mi ni where 1: "length mi = length (matchIndex r)" "length ni = length (nextIndex r)"
    and 2: "commitRound args a (r\<lparr>appendNums := (appendNums r)[a := n + 1], matchIndex := mi, nextIndex := ni\<rparr>) = Inr r'"
    unfolding appendAccepted_def andThen_eq_Inr Let_def vecSet_eq_Inr
    by (elim exE conjE) (erule that[rotated 2]; simp)
  have "getLastLogIndex (r\<lparr>appendNums := (appendNums r)[a := n + 1], matchIndex := mi, nextIndex := ni\<rparr>) = getLastLogIndex r"
    by (rule log_funs_cong(2)) simp_all
  with commitRound_form[OF 2] obtain an c where
    r': "r' = r\<lparr>appendNums := (appendNums r)[a := n + 1], matchIndex := mi, nextIndex := ni\<rparr>
      \<lparr>appendNums := an, commitIndex := c\<rparr>"
    and c: "c = commitIndex r \<or> commitIndex r \<le> c \<and> c \<le> getLastLogIndex r" by auto
  from r' have "r' = r\<lparr>appendNums := an, matchIndex := mi, nextIndex := ni, commitIndex := c\<rparr>"
    by (cases r) simp
  with 1 c show ?thesis by (intro progressedI)
qed

lemma sendAppendEntries_form:
  assumes "sendAppendEntries peer args isOk reply a r = Inr r'"
  shows "progressed r r' \<or>
    currentTerm r < aer_term reply \<and> r' = r\<lparr>status := Follower, currentTerm := aer_term reply, votedFor := -1\<rparr>"
proof -
  have stay: "progressed r r"
    by (rule progressedI[where an = "appendNums r" and mi = "matchIndex r" and ni = "nextIndex r"
          and c = "commitIndex r"]) simp_all
  have next': "progressed r (r\<lparr>nextIndex := ni\<rparr>)" if "vecSet (nextIndex r) peer x = Inr ni" for ni x
    by (rule progressedI[where an = "appendNums r" and mi = "matchIndex r" and ni = ni and c = "commitIndex r"])
      (use that in \<open>auto simp: vecSet_eq_Inr\<close>)
  show ?thesis
    using assms stay next' appendAccepted_form[of peer args a r r'] unfolding sendAppendEntries_def andThen_eq_Inr
    by (auto simp: andThen_eq_Inr split: if_splits)
qed

lemma progressed_inv:
  assumes "progressed r r'" and "raft_inv r"
  shows "raft_inv r'"
proof -
  from assms(1) obtain an mi ni c where
    r': "r' = r\<lparr>appendNums := an, matchIndex := mi, nextIndex := ni, commitIndex := c\<rparr>"
    and c: "length mi = length (matchIndex r)" "length ni = length (nextIndex r)"
     "c = commitIndex r \<or> commitIndex r \<le> c \<and> c \<le> getLastLogIndex r"
    unfolding progressed_def by blast
  have "getLastLogIndex r' = getLastLogIndex r" "log_wf r' = log_wf r"
    using log_funs_cong[of r' r] by (simp_all add: r')
  with c assms(2) show ?thesis by (auto simp: raft_inv_def r')
qed

lemma sendAppendEntries_keeps:
  assumes "server_inv C r" and "sendAppendEntries peer args isOk reply a r = Inr r'"
  shows "server_inv C r' \<and> votes_kept C r r'"
  using sendAppendEntries_form[OF assms(2)]
proof
  assume p: "progressed r r'"
  then have "persister r' = persister r" by (auto simp: progressed_def)
  with p progressed_inv[OF p] assms(1) show ?thesis
    by (auto simp: server_inv_def votes_kept_def progressed_def)
next
  assume p: "currentTerm r < aer_term reply \<and>
    r' = r\<lparr>status := Follower, currentTerm := aer_term reply, votedFor := -1\<rparr>"
  then have "raft_inv r' = raft_inv r" by (intro raft_inv_cong) auto
  with p assms(1) show ?thesis by (auto simp: server_inv_def votes_kept_def)
qed

lemma append_keeps:
  assumes "codec_ok C" and "server_inv C r" and "contiguous (ae_prevlogindex args) (ae_entries args)"
    and "appendEntriesimpl C now args r = Inr (reply, r')"
  shows "server_inv C r' \<and> votes_kept C r r'"
proof (cases "ae_term args < currentTerm r")
  case True
  then show ?thesis using assms(2,4) by (simp add: appendEntriesimpl_def votes_kept_def)
next
  case False
  define r2 where "r2 = (if ae_term args > currentTerm r
      then r\<lparr>status := Follower, currentTerm := ae_term args, votedFor := -1\<rparr> else r)
      \<lparr>status := Follower, lastResetElectionTime := now\<rparr>"
  have r2: "raft_inv r2 = raft_inv r" "persister r2 = persister r"
    by (rule raft_inv_cong; simp add: r2_def) (simp add: r2_def)
  from assms(4) False obtain r3 where r3: "appendEntriesBody args r2 = Inr (reply, r3)" "r' = persist C r3"
    by (auto simp: appendEntriesimpl_def Let_def r2_def andThen_eq_Inr)
  have inv2: "raft_inv r2" using assms(2) r2 by (simp add: server_inv_def)
  have inv3: "raft_inv r3" using appendBody_inv[OF inv2 assms(3) r3(1)] by blast
  have kept: "r3 = r2 \<or> (\<exists>l c. r3 = r2\<lparr>logs := l, commitIndex := c\<rparr>)"
  proof -
    consider "ae_prevlogindex args > getLastLogIndex r2"
      | "ae_prevlogindex args \<le> getLastLogIndex r2" "ae_prevlogindex args < lastSnapshotIncludeIndex r2"
      | (mid) "ae_prevlogindex args \<le> getLastLogIndex r2" "lastSnapshotIncludeIndex r2 \<le> ae_prevlogindex args"
      by linarith
    then show ?thesis
    proof cases
      case mid
      then show ?thesis
        using appendBody_mismatch[OF inv2 mid(2,1)] appendBody_match(1)[OF inv2 mid(2,1) _ assms(3)] r3(1)
        by (cases "ae_prevlogterm args = termAt r2 (ae_prevlogindex args)") (auto split: if_splits)
    qed (use r3(1) in \<open>simp_all add: appendBody_short appendBody_snapshotted\<close>)
  qed
  then have p3: "persister r3 = persister r" using r2(2) by auto
  have "p_ok (persister r3)" using assms(2) p3 by (simp add: server_inv_def)
  then have "server_inv C r'" "savedState C (persister r') = Inr (hardState r')"
    using server_inv_persist[OF assms(1) _ inv3] persist_saved[OF assms(1)] r3(2) by auto
  moreover have "voteNums r2 = voteNums r" "npeers r2 = npeers r" "raftId r2 = raftId r" "status r2 = Follower"
    by (simp_all add: r2_def)
  moreover have "currentTerm r2 = currentTerm r \<and> votedFor r2 = votedFor r \<or>
      currentTerm r < currentTerm r2 \<and> votedFor r2 = -1" by (simp add: r2_def)
  moreover have "voteNums r3 = voteNums r2 \<and> npeers r3 = npeers r2 \<and> raftId r3 = raftId r2 \<and>
      status r3 = status r2 \<and> currentTerm r3 = currentTerm r2 \<and> votedFor r3 = votedFor r2"
    using kept by auto
  ultimately show ?thesis by (simp add: votes_kept_def r3(2))
qed

lemma commitScan_form:
  assumes "commitScan r k = Inr r'" and "commitIndex r + int k \<le> getLastLogIndex r"
  shows "\<exists>c. r' = r\<lparr>commitIndex := c\<rparr> \<and> commitIndex r \<le> c \<and> c \<le> commitIndex r + int k"
  using assms
proof (induction k)
  case 0
  then show ?case by (intro exI[of _ "commitIndex r"]) simp
next
  case (Suc k)
  then have "commitScan r k = Inr r' \<or> r' = r\<lparr>commitIndex := commitIndex r + int (Suc k)\<rparr>"
    by (auto simp: Let_def andThen_eq_Inr split: if_splits)
  then show ?case
  proof
    assume "commitScan r k = Inr r'"
    with Suc obtain c where "r' = r\<lparr>commitIndex := c\<rparr>" "commitIndex r \<le> c" "c \<le> commitIndex r + int k" by auto
    then show ?thesis by (intro exI[of _ c]) simp
  next
    assume "r' = r\<lparr>commitIndex := commitIndex r + int (Suc k)\<rparr>"
    then show ?thesis by (intro exI[of _ "commitIndex r + int (Suc k)"]) simp
  qed
qed

lemma commit_keeps:
  assumes "server_inv C r" and "leaderUpdateCommitIndex r = Inr r'"
  shows "server_inv C r' \<and> votes_kept C r r'"
proof -
  have inv: "raft_inv r" using assms(1) by (simp add: server_inv_def)
  then have le: "commitIndex r \<le> getLastLogIndex r" by (simp add: raft_inv_def)
  then obtain c where c: "r' = r\<lparr>commitIndex := c\<rparr>" "commitIndex r \<le> c" "c \<le> getLastLogIndex r"
    using commitScan_form[of r "nat (getLastLogIndex r - commitIndex r)" r'] assms(2)
    by (auto simp: leaderUpdateCommitIndex_def)
  have "getLastLogIndex r' = getLastLogIndex r" "log_wf r' = log_wf r"
    using log_funs_cong[of r' r] by (simp_all add: c(1))
  with c inv have "raft_inv r'" by (auto simp: raft_inv_def)
  with c assms(1) show ?thesis by (simp add: server_inv_def votes_kept_def)
qed

lemma applyLoop_wf:
  assumes "log_wf r" and "lastSnapshotIncludeIndex r \<le> lastApplied r"
    and "lastApplied r + int n \<le> getLastLogIndex r"
  shows "applyLoop n r = Inr
     (map (\<lambda>i. newApplyMsg\<lparr>CommandValid := True, Command := command (logs r ! slot r (lastApplied r + 1 + int i)),
                          CommandIndex := lastApplied r + 1 + int i\<rparr>) [0..<n],
      r\<lparr>lastApplied := lastApplied r + int n\<rparr>)"
  using assms
proof (induction n arbitrary: r)
  case (Suc n)
  let ?r1 = "r\<lparr>lastApplied := lastApplied r + 1\<rparr>"
  have fun_same: "log_wf ?r1" "getLastLogIndex ?r1 = getLastLogIndex r" "slot ?r1 = slot r"
    using Suc.prems(1) log_funs_cong(2,3)[of ?r1 r] by (auto simp: slot_def fun_eq_iff)
  have e: "entryAt ?r1 (lastApplied r + 1) = Inr (logs r ! slot r (lastApplied r + 1))"
    "logindex (logs r ! slot r (lastApplied r + 1)) = lastApplied r + 1"
    using entryAt_wf[of ?r1 "lastApplied r + 1"] fun_same Suc.prems by simp_all
  have "applyLoop n ?r1 = Inr
     (map (\<lambda>i. newApplyMsg\<lparr>CommandValid := True, Command := command (logs r ! slot r (lastApplied r + 1 + 1 + int i)),
                          CommandIndex := lastApplied r + 1 + 1 + int i\<rparr>) [0..<n],
      r\<lparr>lastApplied := lastApplied r + 1 + int n\<rparr>)"
    using Suc.IH[of ?r1] Suc.prems fun_same by simp
  with e show ?case
    by (simp add: Let_def newApplyMsg_def upt_conv_Cons map_Suc_upt[symmetric] algebra_simps del: upt_Suc)
qed simp

lemma getApplyLogs_wf:
  assumes "raft_inv r"
  shows "getApplyLogs r = Inr
     (map (\<lambda>i. newApplyMsg\<lparr>CommandValid := True, Command := command (logs r ! slot r (lastApplied r + 1 + int i)),
                          CommandIndex := lastApplied r + 1 + int i\<rparr>) [0..<nat (commitIndex r - lastApplied r)],
      r\<lparr>lastApplied := max (lastApplied r) (commitIndex r)\<rparr>)"
proof -
  let ?n = "nat (commitIndex r - lastApplied r)"
  have "lastApplied r + int ?n \<le> getLastLogIndex r" "lastApplied r + int ?n = max (lastApplied r) (commitIndex r)"
    using assms by (auto simp: raft_inv_def)
  then show ?thesis using applyLoop_wf[of r ?n] assms by (simp add: getApplyLogs_def raft_inv_def)
qed

lemma apply_keeps:
  assumes "server_inv C r" and "getApplyLogs r = Inr (ms, r')"
  shows "server_inv C r' \<and> votes_kept C r r'"
proof -
  have inv: "raft_inv r" using assms(1) by (simp add: server_inv_def)
  have r': "r' = r\<lparr>lastApplied := max (lastApplied r) (commitIndex r)\<rparr>"
    using getApplyLogs_wf[OF inv] assms(2) by simp
  have "getLastLogIndex r' = getLastLogIndex r" "log_wf r' = log_wf r"
    using log_funs_cong[of r' r] by (simp_all add: r')
  with inv have "raft_inv r'" by (auto simp: raft_inv_def r')
  then show ?thesis using assms(1) by (simp add: r' server_inv_def votes_kept_def)
qed

lemma snapshot_keeps:
  assumes "codec_ok C" and "server_inv C r" and "snapshot C i snap r = Inr r'"
  shows "server_inv C r' \<and> votes_kept C r r'"
proof (cases "i \<le> lastSnapshotIncludeIndex r \<or> commitIndex r < i")
  case True
  then have "r' = r" using snapshot_ignored[OF True, of C snap] assms(3) by simp
  then show ?thesis using assms(2) by (simp add: votes_kept_def)
next
  case False
  have inv: "raft_inv r" "p_ok (persister r)" using assms(2) by (simp_all add: server_inv_def)
  let ?r2 = "r\<lparr>logs := drop (Suc (slot r i)) (logs r), lastSnapshotIncludeIndex := i,
      lastSnapshotIncludeTerm := termAt r i, lastApplied := max (lastApplied r) i\<rparr>"
  have r': "r' = saveSnapshot C snap ?r2" and inv2: "raft_inv ?r2"
    using snapshot_taken[OF inv(1), of i] False assms(3) by auto
  have p2: "p_ok (persister ?r2)" using inv(2) by simp
  have "server_inv C r'" unfolding r' using assms(1) p2 inv2 by (rule server_inv_save)
  moreover have "savedState C (persister r') = Inr (hardState r')"
    unfolding r' using saveSnapshot_saved(1)[OF assms(1) p2] by simp
  ultimately show ?thesis by (simp add: votes_kept_def r')
qed

text \<open>\<open>installSnapshotImpl\<close> up to the comparison of indices.\<close>

definition joined :: "codec \<Rightarrow> int \<Rightarrow> installSnapshotRequest \<Rightarrow> raft \<Rightarrow> raft" where
  "joined C now args r =
     (if is_term args > currentTerm r
      then persist C (r\<lparr>status := Follower, currentTerm := is_term args, votedFor := -1\<rparr>) else r)
     \<lparr>status := Follower, lastResetElectionTime := now\<rparr>"

lemma joined_facts:
  assumes "codec_ok C" and "server_inv C r" and "currentTerm r \<le> is_term args"
  shows "server_inv C (joined C now args r)" and "votes_kept C r (joined C now args r)"
    and "raft_inv (joined C now args r) = raft_inv r"
    and "currentTerm (joined C now args r) = is_term args"
proof -
  let ?down = "r\<lparr>status := Follower, currentTerm := is_term args, votedFor := -1\<rparr>" and ?r = "joined C now args r"
  have fields: "logs ?r = logs r" "lastSnapshotIncludeIndex ?r = lastSnapshotIncludeIndex r"
    "lastSnapshotIncludeTerm ?r = lastSnapshotIncludeTerm r" "lastApplied ?r = lastApplied r"
    "commitIndex ?r = commitIndex r" "nextIndex ?r = nextIndex r" "matchIndex ?r = matchIndex r"
    "npeers ?r = npeers r" by (simp_all add: joined_def)
  show same: "raft_inv ?r = raft_inv r" using fields by (rule raft_inv_cong)
  have inv: "raft_inv r" "p_ok (persister r)" using assms(2) by (simp_all add: server_inv_def)
  have r0: "raft_inv ?down" using raft_inv_cong[of ?down r] inv(1) by simp
  have p0: "p_ok (persister ?down)" using inv(2) by simp
  note pers = server_inv_persist[OF assms(1) p0 r0] persist_saved[OF assms(1) p0]
  show "server_inv C ?r"
  proof (cases "is_term args > currentTerm r")
    case True
    then have "persister ?r = persister (persist C ?down)" by (simp add: joined_def)
    then show ?thesis using pers(1) same inv(1) by (simp add: server_inv_def)
  next
    case False
    then have "persister ?r = persister r" by (simp add: joined_def)
    then show ?thesis using assms(2) same by (simp add: server_inv_def)
  qed
  show "currentTerm ?r = is_term args" using assms(3) by (simp add: joined_def)
  show "votes_kept C r ?r" using pers(2) by (simp add: votes_kept_def joined_def hardState_def)
qed

lemma installSnapshot_eq:
  assumes "codec_ok C" and inv: "server_inv C r"
  shows "installSnapshotImpl C now args r =
     (if is_term args < currentTerm r then Inr (\<lparr>isr_term = currentTerm r\<rparr>, r, [])
      else if is_lastsnapshotincludeindex args \<le> lastSnapshotIncludeIndex r
      then Inr (\<lparr>isr_term = 0\<rparr>, joined C now args r, [])
      else Inr (\<lparr>isr_term = is_term args\<rparr>,
        saveSnapshot C (is_data args) ((installed now args r)\<lparr>persister := persister (joined C now args r)\<rparr>),
        [PushMsgToKvServer (newApplyMsg\<lparr>SnapshotValid := True, Snapshot := is_data args,
           SnapshotIndex := is_lastsnapshotincludeindex args, SnapshotTerm := is_lastsnapshotincludeterm args\<rparr>)]))"
proof (cases "is_term args < currentTerm r \<or> is_lastsnapshotincludeindex args \<le> lastSnapshotIncludeIndex r")
  case True
  then show ?thesis by (auto simp: installSnapshotImpl_def joined_def Let_def)
next
  case False
  let ?i = "is_lastsnapshotincludeindex args" and ?r2 = "joined C now args r"
  have t: "currentTerm r \<le> is_term args" using False by simp
  have same: "getLastLogIndex ?r2 = getLastLogIndex r" "slot ?r2 ?i = slot r ?i" "log_wf ?r2 = log_wf r"
    "logs ?r2 = logs r" "lastSnapshotIncludeIndex ?r2 = lastSnapshotIncludeIndex r"
    "commitIndex ?r2 = commitIndex r" "lastApplied ?r2 = lastApplied r" "currentTerm ?r2 = is_term args"
    using log_funs_cong[of ?r2 r] t by (simp_all add: joined_def)
  have wf: "log_wf ?r2" using inv same(3) by (simp add: server_inv_def raft_inv_def)
  define l where "l = (if getLastLogIndex r > ?i then drop (Suc (slot r ?i)) (logs r) else [])"
  have cut: "(if getLastLogIndex ?r2 > ?i then eraseFront ?r2 ?i else Inr (?r2\<lparr>logs := []\<rparr>)) = Inr (?r2\<lparr>logs := l\<rparr>)"
    using storeTail(1)[OF wf, of ?i] False by (simp add: same l_def)
  have step: "installSnapshotImpl C now args r =
      andThen (if getLastLogIndex ?r2 > ?i then eraseFront ?r2 ?i else Inr (?r2\<lparr>logs := []\<rparr>)) (\<lambda>r3.
        let r4 = r3\<lparr>commitIndex := max (commitIndex r3) ?i, lastApplied := max (lastApplied r3) ?i,
                    lastSnapshotIncludeIndex := ?i, lastSnapshotIncludeTerm := is_lastsnapshotincludeterm args\<rparr>
        in Inr (\<lparr>isr_term = currentTerm r4\<rparr>, saveSnapshot C (is_data args) r4,
             [PushMsgToKvServer (newApplyMsg\<lparr>SnapshotValid := True, Snapshot := is_data args,
                SnapshotIndex := ?i, SnapshotTerm := is_lastsnapshotincludeterm args\<rparr>)]))"
    using False same(5) by (simp add: installSnapshotImpl_def joined_def[symmetric] Let_def)
  have final: "?r2\<lparr>logs := l, commitIndex := max (commitIndex r) ?i, lastApplied := max (lastApplied r) ?i,
      lastSnapshotIncludeIndex := ?i, lastSnapshotIncludeTerm := is_lastsnapshotincludeterm args\<rparr> =
     (installed now args r)\<lparr>persister := persister ?r2\<rparr>"
    using t by (cases r) (auto simp: joined_def installed_def persist_def l_def Let_def)
  show ?thesis unfolding step cut using False by (simp add: same Let_def final)
qed

lemma install_keeps:
  assumes "codec_ok C" and "server_inv C r" and "installSnapshotImpl C now args r = Inr (reply, r', sp)"
  shows "server_inv C r' \<and> votes_kept C r r'"
proof -
  consider "is_term args < currentTerm r"
    | "\<not> is_term args < currentTerm r" "is_lastsnapshotincludeindex args \<le> lastSnapshotIncludeIndex r"
    | (new) "\<not> is_term args < currentTerm r" "\<not> is_lastsnapshotincludeindex args \<le> lastSnapshotIncludeIndex r"
    by blast
  then show ?thesis
  proof cases
    case 1
    then show ?thesis using assms by (simp add: installSnapshot_eq votes_kept_def)
  next
    case 2
    then have "r' = joined C now args r" using assms by (simp add: installSnapshot_eq)
    then show ?thesis using joined_facts(1,2)[OF assms(1,2)] 2 by simp
  next
    case new
    define s where "s = (installed now args r)\<lparr>persister := persister (joined C now args r)\<rparr>"
    have r': "r' = saveSnapshot C (is_data args) s" using assms new by (simp add: installSnapshot_eq s_def)
    have "raft_inv s = raft_inv (installed now args r)" by (rule raft_inv_cong) (simp_all add: s_def)
    then have inv: "raft_inv s" using installed_inv(1) assms(2) new by (simp add: server_inv_def)
    have ok: "p_ok (persister s)"
      using joined_facts(1)[OF assms(1,2), of args now] new by (simp add: s_def server_inv_def)
    have "server_inv C r'" unfolding r' using assms(1) ok inv by (rule server_inv_save)
    moreover have "savedState C (persister r') = Inr (hardState r')"
      unfolding r' using saveSnapshot_saved(1)[OF assms(1) ok] by simp
    ultimately show ?thesis using new
      by (simp add: votes_kept_def r' s_def installed_def Let_def)
  qed
qed

lemma installReply_keeps:
  assumes "codec_ok C" and "server_inv C r" and "leaderSendSnapshot C now peer req isOk resp r = Inr r'"
  shows "server_inv C r' \<and> votes_kept C r r'"
proof -
  have inv: "raft_inv r" "p_ok (persister r)" using assms(2) by (simp_all add: server_inv_def)
  let ?down = "r\<lparr>status := Follower, currentTerm := isr_term resp, votedFor := -1\<rparr>"
  have known: "\<exists>mi ni. r' = r\<lparr>matchIndex := mi, nextIndex := ni\<rparr> \<and> length mi = length (matchIndex r) \<and>
      length ni = length (nextIndex r)"
    if "andThen (vecSet (matchIndex r) peer x) (\<lambda>mi. andThen (vecSet (nextIndex r) peer y) (\<lambda>ni.
          Inr (r\<lparr>matchIndex := mi, nextIndex := ni\<rparr>))) = Inr r'" for x y
    using that unfolding andThen_eq_Inr vecSet_eq_Inr
    by (elim exE conjE) (rule exI, rule exI, rule conjI, erule Inr_inject[symmetric], simp)
  have "r' = r \<or> currentTerm r < isr_term resp \<and> r' = (persist C ?down)\<lparr>lastResetElectionTime := now\<rparr> \<or>
      (\<exists>mi ni. r' = r\<lparr>matchIndex := mi, nextIndex := ni\<rparr> \<and> length mi = length (matchIndex r) \<and>
         length ni = length (nextIndex r))"
    using assms(3) known unfolding leaderSendSnapshot_def by (simp split: if_splits)
  then show ?thesis
  proof (elim disjE exE conjE)
    assume lt: "currentTerm r < isr_term resp" and r': "r' = (persist C ?down)\<lparr>lastResetElectionTime := now\<rparr>"
    have r0: "raft_inv ?down" "p_ok (persister ?down)" using raft_inv_cong[of ?down r] inv by simp_all
    have "raft_inv r' = raft_inv r" by (rule raft_inv_cong) (simp_all add: r')
    moreover have "persister r' = persister (persist C ?down)" by (simp add: r')
    ultimately show ?thesis
      using server_inv_persist[OF assms(1) r0(2,1)] persist_saved[OF assms(1) r0(2)] inv lt
      by (simp add: server_inv_def votes_kept_def r' hardState_def)
  next
    fix mi ni
    assume r': "r' = r\<lparr>matchIndex := mi, nextIndex := ni\<rparr>" and len: "length mi = length (matchIndex r)"
      "length ni = length (nextIndex r)"
    have "getLastLogIndex r' = getLastLogIndex r" "log_wf r' = log_wf r"
      using log_funs_cong[of r' r] by (simp_all add: r')
    with inv(1) len have "raft_inv r'" by (simp add: raft_inv_def r')
    then show ?thesis using assms(2) by (simp add: server_inv_def votes_kept_def r')
  qed (use assms(2) in \<open>simp add: votes_kept_def\<close>)
qed

lemmas step_keeps = start_keeps heartBeat_keeps sendAppendEntries_keeps append_keeps commit_keeps
  apply_keeps snapshot_keeps install_keeps installReply_keeps

lemma otherStep_keeps:
  assumes "otherStep C r r'" and "codec_ok C" and "server_inv C r"
  shows "server_inv C r' \<and> votes_kept C r r'"
  using assms(1) by (cases rule: otherStep.cases) (rule step_keeps; (assumption | rule assms))+

section \<open>The server as a transition system\<close>

definition serverInit :: "codec \<Rightarrow> raft \<Rightarrow> bool" where
  \<comment> \<open>a first start, or a start from a state file in order\<close>
  "serverInit C r \<longleftrightarrow> (\<exists>n me p now. p_ok p \<and> saved_ok C p \<and> initRaft C n me p now = Inr r)"

lemma serverStep_inv:
  assumes "codec_ok C" and "server_inv C r" and "serverStep C r r'"
  shows "server_inv C r'"
  using assms(3)
proof cases
  case other
  then show ?thesis using otherStep_keeps assms(1,2) by blast
next
  case (elect sp)
  then show ?thesis using doElection_inv assms(1,2) by blast
next
  case (vote now vargs vreply)
  then show ?thesis using requestVote_inv assms(1,2) by blast
next
  case (voteReply isOk vreply a sp)
  then show ?thesis using sendRequestVote_inv assms(1,2) by blast
next
  case (restart now)
  have "p_ok (persister r)" "saved_ok C (persister r)" using assms(2) by (simp_all add: server_inv_def)
  from initRaft_inv[OF this, of "npeers r" "raftId r" now] restart show ?thesis by auto
qed

lemma serverInit_inv: "serverInit C r \<Longrightarrow> server_inv C r"
  unfolding serverInit_def by (metis initRaft_inv Inr_inject)

text \<open>A codec that keeps its promise is a parameter of the system; the guard makes the contract hold
  for every codec.\<close>

definition guardedStep :: "codec \<Rightarrow> raft \<Rightarrow> raft \<Rightarrow> bool" where
  "guardedStep C r r' \<longleftrightarrow> codec_ok C \<and> serverStep C r r'"

interpretation server: invariant_of "serverInit C" "guardedStep C" "server_inv C" for C
  by unfold_locales (auto simp: guardedStep_def serverInit_inv serverStep_inv)

end
