(* ===== verification/RaftCluster.thy ===== *)
theory RaftCluster
  imports RaftServer
begin

text \<open>
  A cluster of Raft servers.  Vote requests and answers travel through a network that may lose,
  delay, reorder and repeat them (a request once sent can be handled any number of times; every
  thread waiting for an answer gets at most one); all other messages are arbitrary; any server can
  restart from its state file between two steps.  Three components of the state are history that no
  step reads: who voted for whom, the tally of each election, and who became leader.
\<close>

section \<open>State and steps\<close>

record cluster =
  servers :: "nat \<Rightarrow> raft"
  requests :: "(nat \<times> requestVoteArgs) set" \<comment> \<open>receiver, request\<close>
  answers :: "(nat \<times> requestVoteArgs \<times> requestVoteReply) set" \<comment> \<open>voter, request, reply\<close>
  waiting :: "(nat \<times> int \<times> requestVoteArgs \<times> nat) set" \<comment> \<open>owner, peer, request, counter\<close>
  ballots :: "(nat \<times> int \<times> int) set" \<comment> \<open>voter, term, candidate\<close>
  elections :: "nat \<Rightarrow> (int \<times> nat set \<times> bool) list" \<comment> \<open>per counter: term, voters counted, won\<close>
  leaderships :: "(nat \<times> int) set"

text \<open>What \<open>doElection\<close> sends, and the threads that wait.\<close>

definition sentVotes :: "spawn list \<Rightarrow> (nat \<times> requestVoteArgs) set" where
  "sentVotes sp = {(nat p, args) | p args a. SendRequestVote p args a \<in> set sp}"

definition voteThreads :: "nat \<Rightarrow> spawn list \<Rightarrow> (nat \<times> int \<times> requestVoteArgs \<times> nat) set" where
  "voteThreads i sp = {(i, p, args, a) | p args a. SendRequestVote p args a \<in> set sp}"

definition counted :: "bool \<Rightarrow> requestVoteReply \<Rightarrow> raft \<Rightarrow> bool" where
  "counted isOk reply r \<longleftrightarrow> isOk \<and> rvr_term reply = currentTerm r \<and> rvr_votegranted reply"

definition tallyVote :: "nat \<Rightarrow> nat \<Rightarrow> bool \<Rightarrow> (int \<times> nat set \<times> bool) list \<Rightarrow> (int \<times> nat set \<times> bool) list" where
  "tallyVote p a won es = (case es ! a of (t, G, w) \<Rightarrow> es[a := (t, insert p G, w \<or> won)])"

text \<open>The steps of elections, and all steps.\<close>

inductive voteStep :: "codec \<Rightarrow> nat \<Rightarrow> cluster \<Rightarrow> cluster \<Rightarrow> bool" for C n where
  c_elect: "i < n \<Longrightarrow> status (servers c i) \<noteq> Leader \<Longrightarrow> doElection C (servers c i) = (r', sp) \<Longrightarrow>
    voteStep C n c (c\<lparr>servers := (servers c)(i := r'),
      requests := requests c \<union> sentVotes sp, waiting := waiting c \<union> voteThreads i sp,
      ballots := insert (i, currentTerm r', int i) (ballots c),
      elections := (elections c)(i := elections c i @ [(currentTerm r', {}, False)])\<rparr>)"
| c_vote: "j < n \<Longrightarrow> (j, args) \<in> requests c \<Longrightarrow> requestVoteImpl C now args (servers c j) = (reply, r') \<Longrightarrow>
    voteStep C n c (c\<lparr>servers := (servers c)(j := r'), answers := insert (j, args, reply) (answers c),
      ballots := (if rvr_votegranted reply then insert (j, rvr_term reply, rv_candidateid args) (ballots c)
                  else ballots c)\<rparr>)"
| c_reply: "(i, p, args, a) \<in> waiting c \<Longrightarrow> (isOk \<Longrightarrow> (nat p, args, reply) \<in> answers c) \<Longrightarrow>
    sendRequestVote C isOk reply a (servers c i) = Inr (r', sp) \<Longrightarrow>
    won = (status (servers c i) \<noteq> Leader \<and> status r' = Leader) \<Longrightarrow>
    voteStep C n c (c\<lparr>servers := (servers c)(i := r'), waiting := waiting c - {(i, p, args, a)},
      elections := (if counted isOk reply (servers c i)
                    then (elections c)(i := tallyVote (nat p) a won (elections c i)) else elections c),
      leaderships := (if won then insert (i, currentTerm r') (leaderships c) else leaderships c)\<rparr>)"

inductive clusterStep :: "codec \<Rightarrow> nat \<Rightarrow> cluster \<Rightarrow> cluster \<Rightarrow> bool" for C n where
  c_votes: "voteStep C n c c' \<Longrightarrow> clusterStep C n c c'"
| c_other: "i < n \<Longrightarrow> otherStep C (servers c i) r' \<Longrightarrow>
    clusterStep C n c (c\<lparr>servers := (servers c)(i := r')\<rparr>)"
| c_restart: "i < n \<Longrightarrow> initRaft C n (int i) (persister (servers c i)) now = Inr r' \<Longrightarrow>
    clusterStep C n c (c\<lparr>servers := (servers c)(i := r'),
      waiting := {w \<in> waiting c. fst w \<noteq> i}, elections := (elections c)(i := [])\<rparr>)"

definition clusterInit :: "codec \<Rightarrow> nat \<Rightarrow> cluster \<Rightarrow> bool" where
  "clusterInit C n c \<longleftrightarrow>
     (\<forall>i<n. \<exists>p now. p_ok p \<and> saved_ok C p \<and> initRaft C n (int i) p now = Inr (servers c i)) \<and>
     requests c = {} \<and> answers c = {} \<and> waiting c = {} \<and> ballots c = {} \<and> leaderships c = {} \<and>
     elections c = (\<lambda>_. [])"

section \<open>The invariant\<close>

definition voter_ok :: "codec \<Rightarrow> (nat \<times> int \<times> int) set \<Rightarrow> nat \<Rightarrow> raft \<Rightarrow> bool" where
  \<comment> \<open>a vote given stays in memory and in the state file\<close>
  "voter_ok C B v r \<longleftrightarrow> (\<forall>t k. (v, t, k) \<in> B \<longrightarrow>
     t \<le> currentTerm r \<and> (t = currentTerm r \<longrightarrow> votedFor r = k) \<and>
     (\<exists>pt pv x. savedState C (persister r) = Inr (pt, pv, x) \<and> t \<le> pt \<and> (t = pt \<longrightarrow> pv = k)))"

definition quorum :: "nat \<Rightarrow> int" where
  "quorum n = int (n div 2) + 1"

definition count_ok :: "nat \<Rightarrow> (nat \<times> int \<times> int) set \<Rightarrow> nat \<Rightarrow> int \<Rightarrow> int \<times> nat set \<times> bool \<Rightarrow> int \<Rightarrow> bool" where
  \<comment> \<open>a counter against its history: the own vote plus the votes counted, less a majority once won\<close>
  "count_ok n B i cur e m \<longleftrightarrow> (case e of (t, G, w) \<Rightarrow>
     t \<le> cur \<and> G \<subseteq> {..<n} - {i} \<and> (i, t, int i) \<in> B \<and> (\<forall>g\<in>G. (g, t, int i) \<in> B) \<and>
     m + (if w then quorum n else 0) = 1 + int (card G) \<and> (\<not> w \<longrightarrow> 1 < n \<longrightarrow> m < quorum n))"

definition tally_ok :: "nat \<Rightarrow> (nat \<times> int \<times> int) set \<Rightarrow> nat \<Rightarrow> raft \<Rightarrow> (int \<times> nat set \<times> bool) list \<Rightarrow> bool" where
  "tally_ok n B i r es \<longleftrightarrow>
     list_all2 (count_ok n B i (currentTerm r)) es (voteNums r) \<and> distinct (map fst es) \<and>
     (status r = Leader \<longrightarrow> (\<exists>G. (currentTerm r, G, True) \<in> set es))"

definition waits_ok :: "nat \<Rightarrow> (nat \<times> int \<times> requestVoteArgs \<times> nat) set \<Rightarrow> nat
    \<Rightarrow> (int \<times> nat set \<times> bool) list \<Rightarrow> bool" where
  "waits_ok n W i es \<longleftrightarrow> (\<forall>p args a. (i, p, args, a) \<in> W \<longrightarrow>
     a < length es \<and> fst (es ! a) = rv_term args \<and> rv_candidateid args = int i \<and>
     0 \<le> p \<and> p < int n \<and> p \<noteq> int i \<and> nat p \<notin> fst (snd (es ! a)) \<and>
     (\<forall>args'. (i, p, args', a) \<in> W \<longrightarrow> args' = args))"

definition member_ok :: "codec \<Rightarrow> nat \<Rightarrow> cluster \<Rightarrow> nat \<Rightarrow> bool" where
  "member_ok C n c i \<longleftrightarrow>
     server_inv C (servers c i) \<and> raftId (servers c i) = int i \<and> npeers (servers c i) = n \<and>
     voter_ok C (ballots c) i (servers c i) \<and>
     tally_ok n (ballots c) i (servers c i) (elections c i) \<and>
     waits_ok n (waiting c) i (elections c i) \<and>
     (status (servers c i) = Leader \<longrightarrow> (i, currentTerm (servers c i)) \<in> leaderships c)"

definition network_ok :: "nat \<Rightarrow> cluster \<Rightarrow> bool" where
  "network_ok n c \<longleftrightarrow>
     (\<forall>v t k. (v, t, k) \<in> ballots c \<longrightarrow> v < n \<and> 0 \<le> k \<and> (\<forall>k'. (v, t, k') \<in> ballots c \<longrightarrow> k' = k)) \<and>
     (\<forall>j args. (j, args) \<in> requests c \<longrightarrow> 0 \<le> rv_candidateid args) \<and>
     (\<forall>j args reply. (j, args, reply) \<in> answers c \<longrightarrow> rvr_votegranted reply \<longrightarrow>
        rvr_term reply = rv_term args \<and> (j, rv_term args, rv_candidateid args) \<in> ballots c) \<and>
     (\<forall>w \<in> waiting c. fst w < n)"

definition history_ok :: "nat \<Rightarrow> cluster \<Rightarrow> bool" where
  "history_ok n c \<longleftrightarrow> (\<forall>i t. (i, t) \<in> leaderships c \<longrightarrow>
     i < n \<and> (\<exists>Q \<subseteq> {..<n}. quorum n \<le> int (card Q) \<and> (\<forall>v\<in>Q. (v, t, int i) \<in> ballots c)))"

definition cluster_inv :: "codec \<Rightarrow> nat \<Rightarrow> cluster \<Rightarrow> bool" where
  "cluster_inv C n c \<longleftrightarrow> (\<forall>i<n. member_ok C n c i) \<and> network_ok n c \<and> history_ok n c"

text \<open>More ballots do not hurt a tally.\<close>

lemma count_ok_mono: "count_ok n B i cur e m \<Longrightarrow> B \<subseteq> B' \<Longrightarrow> cur \<le> cur' \<Longrightarrow> count_ok n B' i cur' e m"
  by (auto simp: count_ok_def split: prod.splits)

lemma tally_ok_mono:
  assumes "tally_ok n B i r es" and "B \<subseteq> B'" and "currentTerm r \<le> currentTerm r'"
    and "voteNums r' = voteNums r" and "status r' = Leader \<longrightarrow> status r = Leader \<and> currentTerm r' = currentTerm r"
  shows "tally_ok n B' i r' es"
proof -
  from assms(1) have old: "list_all2 (count_ok n B i (currentTerm r)) es (voteNums r)" "distinct (map fst es)"
    "status r = Leader \<longrightarrow> (\<exists>G. (currentTerm r, G, True) \<in> set es)" by (simp_all add: tally_ok_def)
  have "list_all2 (count_ok n B' i (currentTerm r')) es (voteNums r)"
    by (rule list_all2_mono[OF old(1)]) (rule count_ok_mono[OF _ assms(2,3)])
  moreover have "status r' = Leader \<longrightarrow> (\<exists>G. (currentTerm r', G, True) \<in> set es)"
  proof
    assume "status r' = Leader"
    with assms(5) have "status r = Leader" and t: "currentTerm r' = currentTerm r" by blast+
    with old(3) show "\<exists>G. (currentTerm r', G, True) \<in> set es" by (simp only: t)
  qed
  ultimately show ?thesis unfolding tally_ok_def assms(4) using old(2) by (intro conjI)
qed

lemma voter_ok_other: "voter_ok C B v r \<Longrightarrow> j \<noteq> v \<Longrightarrow> voter_ok C (insert (j, x) B) v r"
  by (auto simp: voter_ok_def)

section \<open>Elections are safe when the invariant holds\<close>

lemma quorums_meet:
  assumes "Q \<subseteq> {..<n}" "R \<subseteq> {..<n}" "quorum n \<le> int (card Q)" "quorum n \<le> int (card R)"
  shows "Q \<inter> R \<noteq> {}"
proof
  assume "Q \<inter> R = {}"
  moreover have fin: "finite Q" "finite R" using assms(1,2) finite_subset by blast+
  ultimately have "card Q + card R = card (Q \<union> R)" by (simp add: card_Un_disjoint)
  also have "\<dots> \<le> n" using assms(1,2) card_mono[of "{..<n}" "Q \<union> R"] by simp
  finally show False using assms(3,4) by (simp add: quorum_def)
qed

lemma one_leader_per_term:
  assumes inv: "cluster_inv C n c" and "(i, t) \<in> leaderships c" and "(j, t) \<in> leaderships c"
  shows "i = j"
proof -
  have h: "\<exists>Q \<subseteq> {..<n}. quorum n \<le> int (card Q) \<and> (\<forall>v\<in>Q. (v, t, int k) \<in> ballots c)"
    if "(k, t) \<in> leaderships c" for k
    using inv that by (simp add: cluster_inv_def history_ok_def)
  from h[OF assms(2)] obtain Q where Q: "Q \<subseteq> {..<n}" "quorum n \<le> int (card Q)" "\<forall>v\<in>Q. (v, t, int i) \<in> ballots c"
    by blast
  from h[OF assms(3)] obtain R where R: "R \<subseteq> {..<n}" "quorum n \<le> int (card R)" "\<forall>v\<in>R. (v, t, int j) \<in> ballots c"
    by blast
  from quorums_meet[OF Q(1) R(1) Q(2) R(2)] obtain v where "v \<in> Q" "v \<in> R" by blast
  with Q R have "(v, t, int i) \<in> ballots c" "(v, t, int j) \<in> ballots c" by blast+
  moreover have "\<forall>v t k k'. (v, t, k) \<in> ballots c \<longrightarrow> (v, t, k') \<in> ballots c \<longrightarrow> k' = k"
    using inv by (simp add: cluster_inv_def network_ok_def)
  ultimately have "int j = int i" by metis
  then show ?thesis by simp
qed

section \<open>Every step keeps the invariant\<close>

text \<open>A server whose step kept its vote, while others may have voted meanwhile.\<close>

lemma voter_kept:
  assumes "voter_ok C B i r" and "votes_kept C r r'"
  shows "voter_ok C B i r'"
  unfolding voter_ok_def
proof (intro allI impI)
  fix t k assume b: "(i, t, k) \<in> B"
  with assms(1) have old: "t \<le> currentTerm r" "t = currentTerm r \<longrightarrow> votedFor r = k"
    "\<exists>pt pv x. savedState C (persister r) = Inr (pt, pv, x) \<and> t \<le> pt \<and> (t = pt \<longrightarrow> pv = k)"
    by (auto simp: voter_ok_def)
  then have new: "t \<le> currentTerm r' \<and> (t = currentTerm r' \<longrightarrow> votedFor r' = k)"
    using assms(2) by (auto simp: votes_kept_def)
  moreover have "\<exists>pt pv x. savedState C (persister r') = Inr (pt, pv, x) \<and> t \<le> pt \<and> (t = pt \<longrightarrow> pv = k)"
  proof -
    have "savedState C (persister r') = savedState C (persister r) \<or>
        savedState C (persister r') = Inr (hardState r')" using assms(2) by (simp add: votes_kept_def)
    then show ?thesis
    proof
      assume "savedState C (persister r') = Inr (hardState r')"
      then show ?thesis using new by (auto simp: hardState_def)
    qed (use old(3) in simp)
  qed
  ultimately show "t \<le> currentTerm r' \<and> (t = currentTerm r' \<longrightarrow> votedFor r' = k) \<and>
    (\<exists>pt pv x. savedState C (persister r') = Inr (pt, pv, x) \<and> t \<le> pt \<and> (t = pt \<longrightarrow> pv = k))" by blast
qed

lemma member_kept:
  assumes "member_ok C n c i" and "votes_kept C (servers c i) r'" and "server_inv C r'"
    and "servers c' i = r'" and "ballots c' = ballots c" and "elections c' i = elections c i"
    and "waiting c' \<subseteq> waiting c" and "leaderships c \<subseteq> leaderships c'"
  shows "member_ok C n c' i"
proof -
  let ?r = "servers c i"
  have m: "raftId ?r = int i" "npeers ?r = n" "voter_ok C (ballots c) i ?r"
    "tally_ok n (ballots c) i ?r (elections c i)" "waits_ok n (waiting c) i (elections c i)"
    "status ?r = Leader \<longrightarrow> (i, currentTerm ?r) \<in> leaderships c"
    using assms(1) by (auto simp: member_ok_def)
  have lead: "status r' = Leader \<longrightarrow> status ?r = Leader \<and> currentTerm r' = currentTerm ?r"
    using assms(2) by (auto simp: votes_kept_def)
  have k: "voteNums r' = voteNums ?r" "npeers r' = npeers ?r" "raftId r' = raftId ?r"
    "currentTerm ?r \<le> currentTerm r'" using assms(2) by (auto simp: votes_kept_def)
  have "tally_ok n (ballots c) i r' (elections c i)"
    using tally_ok_mono[OF m(4) subset_refl k(4) k(1) lead] .
  moreover have "waits_ok n (waiting c') i (elections c i)"
    using m(5) assms(7) unfolding waits_ok_def by blast
  moreover have "voter_ok C (ballots c) i r'" using voter_kept[OF m(3) assms(2)] .
  ultimately show ?thesis using m k lead assms(3-6,8) unfolding member_ok_def by (metis subsetD)
qed

text \<open>A server that did nothing, while others voted or stopped waiting.\<close>

lemma member_idle:
  assumes "member_ok C n c i" and "servers c' i = servers c i" and "elections c' i = elections c i"
    and "ballots c \<subseteq> ballots c'" and "\<And>t k. (i, t, k) \<in> ballots c' \<Longrightarrow> (i, t, k) \<in> ballots c"
    and "\<And>w. fst w = i \<Longrightarrow> w \<in> waiting c' \<Longrightarrow> w \<in> waiting c" and "leaderships c \<subseteq> leaderships c'"
  shows "member_ok C n c' i"
proof -
  let ?r = "servers c i"
  have m: "server_inv C ?r" "raftId ?r = int i" "npeers ?r = n" "voter_ok C (ballots c) i ?r"
    "tally_ok n (ballots c) i ?r (elections c i)" "waits_ok n (waiting c) i (elections c i)"
    "status ?r = Leader \<longrightarrow> (i, currentTerm ?r) \<in> leaderships c"
    using assms(1) by (auto simp: member_ok_def)
  have "voter_ok C (ballots c') i ?r" using m(4) assms(5) unfolding voter_ok_def by blast
  moreover have "tally_ok n (ballots c') i ?r (elections c i)"
    by (rule tally_ok_mono[OF m(5) assms(4)]) auto
  moreover have "waits_ok n (waiting c') i (elections c i)"
  proof -
    have sub: "(i, x) \<in> waiting c' \<Longrightarrow> (i, x) \<in> waiting c" for x using assms(6)[of "(i, x)"] by simp
    show ?thesis unfolding waits_ok_def
      using m(6)[unfolded waits_ok_def] sub by blast
  qed
  ultimately show ?thesis using m assms(2,3,7) unfolding member_ok_def by auto
qed

lemma history_mono:
  assumes "history_ok n c" and "ballots c \<subseteq> ballots c'" and "leaderships c' = leaderships c"
  shows "history_ok n c'"
  using assms unfolding history_ok_def by (metis (no_types, lifting) subsetD)

lemma cluster_other:
  assumes "codec_ok C" and inv: "cluster_inv C n c" and "i < n" and "otherStep C (servers c i) r'"
  shows "cluster_inv C n (c\<lparr>servers := (servers c)(i := r')\<rparr>)"
proof -
  let ?c = "c\<lparr>servers := (servers c)(i := r')\<rparr>"
  have mem: "member_ok C n c j" if "j < n" for j using inv that by (simp add: cluster_inv_def)
  have "server_inv C (servers c i)" using mem[OF assms(3)] by (simp add: member_ok_def)
  then have k: "server_inv C r'" "votes_kept C (servers c i) r'"
    using otherStep_keeps[OF assms(4,1)] by simp_all
  have "member_ok C n ?c j" if "j < n" for j
  proof (cases "j = i")
    case True
    then show ?thesis using member_kept[OF mem[OF assms(3)] k(2,1), of ?c] by simp
  next
    case False
    then show ?thesis using member_idle[OF mem[OF that], of ?c] by simp
  qed
  then show ?thesis using inv by (simp add: cluster_inv_def network_ok_def history_ok_def)
qed

lemma doElection_facts:
  assumes "codec_ok C" and "p_ok (persister r)" and "status r \<noteq> Leader" and "doElection C r = (r', sp)"
  shows "currentTerm r' = currentTerm r + 1" "votedFor r' = raftId r" "status r' = Candidate"
    "voteNums r' = voteNums r @ [1]" "npeers r' = npeers r" "raftId r' = raftId r"
    "savedState C (persister r') = Inr (hardState r')"
    and "SendRequestVote q args a \<in> set sp \<Longrightarrow>
      0 \<le> q \<and> q < int (npeers r) \<and> q \<noteq> raftId r \<and> a = length (voteNums r) \<and>
      args = \<lparr>rv_term = currentTerm r + 1, rv_candidateid = raftId r, rv_lastlogindex = getLastLogIndex r',
              rv_lastlogterm = getLastLogTerm r'\<rparr>"
proof -
  define s where "s = r\<lparr>status := Candidate, currentTerm := currentTerm r + 1, votedFor := raftId r\<rparr>"
  have ok: "p_ok (persister s)" using assms(2) by (simp add: s_def)
  have r': "r' = (persist C s)\<lparr>voteNums := voteNums s @ [1]\<rparr>"
    and sp: "sp = map (\<lambda>i. SendRequestVote (int i)
        \<lparr>rv_term = currentTerm s, rv_candidateid = raftId s,
         rv_lastlogindex = getLastLogIndex r', rv_lastlogterm = getLastLogTerm r'\<rparr> (length (voteNums s)))
        (filter (\<lambda>i. int i \<noteq> raftId s) [0..<npeers s])"
    using assms(3,4)
    by (auto simp: doElection_def Let_def s_def[symmetric] getLastLogIndex_def getLastLogTerm_def split: prod.splits)
  show "currentTerm r' = currentTerm r + 1" "votedFor r' = raftId r" "status r' = Candidate"
    "voteNums r' = voteNums r @ [1]" "npeers r' = npeers r" "raftId r' = raftId r"
    by (simp_all add: r' s_def)
  show "savedState C (persister r') = Inr (hardState r')"
    using persist_saved(1)[OF assms(1) ok] by (simp add: r' hardState_def)
  show "0 \<le> q \<and> q < int (npeers r) \<and> q \<noteq> raftId r \<and> a = length (voteNums r) \<and>
      args = \<lparr>rv_term = currentTerm r + 1, rv_candidateid = raftId r, rv_lastlogindex = getLastLogIndex r',
              rv_lastlogterm = getLastLogTerm r'\<rparr>"
    if "SendRequestVote q args a \<in> set sp"
    using that unfolding sp by (auto simp: s_def)
qed

text \<open>The parts of a member's invariant after it started an election: its vote, the new count, its threads.\<close>

lemma ballot_voter:
  assumes old: "voter_ok C B i r" and uniq: "\<And>k'. (i, currentTerm r', k') \<in> B \<Longrightarrow> k' = k"
    and f: "currentTerm r \<le> currentTerm r'" "votedFor r' = k" "savedState C (persister r') = Inr (hardState r')"
  shows "voter_ok C (insert (i, currentTerm r', k) B) i r'"
  unfolding voter_ok_def
proof (intro allI impI)
  fix t k' assume "(i, t, k') \<in> insert (i, currentTerm r', k) B"
  then consider "t = currentTerm r'" "k' = k" | "(i, t, k') \<in> B" by auto
  then show "t \<le> currentTerm r' \<and> (t = currentTerm r' \<longrightarrow> votedFor r' = k') \<and>
    (\<exists>pt pv x. savedState C (persister r') = Inr (pt, pv, x) \<and> t \<le> pt \<and> (t = pt \<longrightarrow> pv = k'))"
  proof cases
    case 2
    then have "t \<le> currentTerm r" using old unfolding voter_ok_def by blast
    then show ?thesis using 2 uniq f by (auto simp: hardState_def)
  qed (use f in \<open>simp add: hardState_def\<close>)
qed

lemma tally_terms:
  assumes "tally_ok n B i r es"
  shows "length es = length (voteNums r)" and "t \<in> set (map fst es) \<Longrightarrow> t \<le> currentTerm r"
proof -
  show len: "length es = length (voteNums r)" using assms by (auto simp: tally_ok_def dest: list_all2_lengthD)
  assume "t \<in> set (map fst es)"
  then obtain a where a: "a < length es" "t = fst (es ! a)" by (auto simp: in_set_conv_nth)
  with assms len have "count_ok n B i (currentTerm r) (es ! a) (voteNums r ! a)"
    by (simp add: tally_ok_def list_all2_conv_all_nth)
  then show "t \<le> currentTerm r" by (simp add: count_ok_def a(2) split: prod.splits)
qed

lemma elect_tally:
  assumes old: "tally_ok n B i r es" and f: "currentTerm r' = currentTerm r + 1" "voteNums r' = voteNums r @ [1]"
    "status r' = Candidate"
  shows "tally_ok n (insert (i, currentTerm r', int i) B) i r' (es @ [(currentTerm r', {}, False)])"
proof -
  let ?B = "insert (i, currentTerm r', int i) B"
  have "list_all2 (count_ok n ?B i (currentTerm r')) es (voteNums r)"
    using old f(1) unfolding tally_ok_def
    by (elim conjE list_all2_mono) (rule count_ok_mono, auto)
  moreover have "count_ok n ?B i (currentTerm r') (currentTerm r', {}, False) 1"
    by (simp add: count_ok_def quorum_def)
  ultimately have "list_all2 (count_ok n ?B i (currentTerm r')) (es @ [(currentTerm r', {}, False)]) (voteNums r')"
    using f(2) by (simp add: list_all2_appendI)
  moreover have "distinct (map fst (es @ [(currentTerm r', {}, False)]))"
    using old tally_terms(2)[OF old, of "currentTerm r'"] f(1) by (auto simp: tally_ok_def)
  ultimately show ?thesis using f(3) by (simp add: tally_ok_def)
qed

lemma elect_waits:
  assumes old: "waits_ok n W i es" and args0: "rv_term args0 = t" "rv_candidateid args0 = int i"
    and new: "\<And>p args a. (i, p, args, a) \<in> T \<Longrightarrow>
      args = args0 \<and> a = length es \<and> 0 \<le> p \<and> p < int n \<and> p \<noteq> int i"
  shows "waits_ok n (W \<union> T) i (es @ [(t, {}, False)])"
  unfolding waits_ok_def
proof (intro allI impI)
  fix p args a assume "(i, p, args, a) \<in> W \<union> T"
  then consider (old) "(i, p, args, a) \<in> W" | (thread) "(i, p, args, a) \<in> T" by blast
  then show "a < length (es @ [(t, {}, False)]) \<and> fst ((es @ [(t, {}, False)]) ! a) = rv_term args \<and>
     rv_candidateid args = int i \<and> 0 \<le> p \<and> p < int n \<and> p \<noteq> int i \<and>
     nat p \<notin> fst (snd ((es @ [(t, {}, False)]) ! a)) \<and> (\<forall>args'. (i, p, args', a) \<in> W \<union> T \<longrightarrow> args' = args)"
  proof cases
    case old
    with assms(1) have o: "a < length es" "fst (es ! a) = rv_term args" "rv_candidateid args = int i"
      "0 \<le> p" "p < int n" "p \<noteq> int i" "nat p \<notin> fst (snd (es ! a))"
      "\<forall>args'. (i, p, args', a) \<in> W \<longrightarrow> args' = args" unfolding waits_ok_def by blast+
    have "args' = args" if "(i, p, args', a) \<in> W \<union> T" for args'
      using that o(1,8) new[of p args' a] by auto
    with o show ?thesis by (simp add: nth_append)
  next
    case thread
    note w = new[OF thread]
    have "(i, p, args', a) \<notin> W" for args'
      using assms(1) w unfolding waits_ok_def by (metis less_irrefl)
    with w new[of p] args0 show ?thesis by auto
  qed
qed

text \<open>One ballot more, with the messages that go with it.\<close>

lemma ballot_network:
  assumes net: "network_ok n c" and v: "v0 < n" "0 \<le> k0" and uniq: "\<And>k. (v0, t0, k) \<in> ballots c \<Longrightarrow> k = k0"
    and c': "ballots c' = insert (v0, t0, k0) (ballots c)" "requests c' = requests c \<union> R"
      "waiting c' = waiting c \<union> T" "answers c' = answers c \<union> A"
    and R: "\<And>j args. (j, args) \<in> R \<Longrightarrow> 0 \<le> rv_candidateid args" and T: "\<And>w. w \<in> T \<Longrightarrow> fst w = v0"
    and A: "\<And>j args reply. (j, args, reply) \<in> A \<Longrightarrow> rvr_votegranted reply \<Longrightarrow>
      rvr_term reply = rv_term args \<and> (j, rv_term args, rv_candidateid args) = (v0, t0, k0)"
  shows "network_ok n c'"
  unfolding network_ok_def
proof (intro conjI allI impI ballI)
  fix v t k assume b: "(v, t, k) \<in> ballots c'"
  then show "v < n" "0 \<le> k" using net v by (auto simp: c' network_ok_def)
  have old: "k1 = k2" if "(v, t, k1) \<in> ballots c" "(v, t, k2) \<in> ballots c" for k1 k2
    using net that unfolding network_ok_def by blast
  show "k' = k" if "(v, t, k') \<in> ballots c'" for k'
    using b that old uniq by (auto simp: c')
next
  fix j args assume "(j, args) \<in> requests c'"
  then show "0 \<le> rv_candidateid args" using net R by (auto simp: c' network_ok_def)
next
  fix j args reply assume "(j, args, reply) \<in> answers c'" "rvr_votegranted reply"
  then show "rvr_term reply = rv_term args" "(j, rv_term args, rv_candidateid args) \<in> ballots c'"
    using net A[of j args reply] by (auto simp: c' network_ok_def)
next
  fix w assume "w \<in> waiting c'"
  then consider "w \<in> T" | "w \<in> waiting c" by (auto simp: c')
  then show "fst w < n"
  proof cases
    case 1
    then show ?thesis using T[of w] v(1) by simp
  qed (use net in \<open>simp add: network_ok_def\<close>)
qed

lemma cluster_elect:
  assumes C: "codec_ok C" and inv: "cluster_inv C n c" and i: "i < n"
    and nl: "status (servers c i) \<noteq> Leader" and el: "doElection C (servers c i) = (r', sp)"
  defines "c' \<equiv> c\<lparr>servers := (servers c)(i := r'),
      requests := requests c \<union> sentVotes sp, waiting := waiting c \<union> voteThreads i sp,
      ballots := insert (i, currentTerm r', int i) (ballots c),
      elections := (elections c)(i := elections c i @ [(currentTerm r', {}, False)])\<rparr>"
  shows "cluster_inv C n c'"
proof -
  let ?r = "servers c i" and ?es = "elections c i"
  have mem: "member_ok C n c j" if "j < n" for j using inv that by (simp add: cluster_inv_def)
  have net: "network_ok n c" and hist: "history_ok n c" using inv by (simp_all add: cluster_inv_def)
  from mem[OF i] have m: "server_inv C ?r" "raftId ?r = int i" "npeers ?r = n" "voter_ok C (ballots c) i ?r"
    "tally_ok n (ballots c) i ?r ?es" "waits_ok n (waiting c) i ?es"
    by (auto simp: member_ok_def)
  have "p_ok (persister ?r)" using m(1) by (simp add: server_inv_def)
  note f = doElection_facts[OF C this nl el]
  have sinv: "server_inv C r'" using doElection_inv[OF C m(1) el] .
  have fresh: "(i, currentTerm r', k) \<notin> ballots c" for k
    using m(4) f(1) unfolding voter_ok_def by force
  have voter: "voter_ok C (ballots c') i r'"
    using ballot_voter[OF m(4), of r' "int i"] fresh f(1,2,7) m(2) by (simp add: c'_def)
  have tally: "tally_ok n (ballots c') i r' (elections c' i)"
    using elect_tally[OF m(5) f(1,4,3)] by (simp add: c'_def)
  let ?args = "\<lparr>rv_term = currentTerm r', rv_candidateid = int i, rv_lastlogindex = getLastLogIndex r',
        rv_lastlogterm = getLastLogTerm r'\<rparr>"
  have new: "args = ?args \<and> a = length ?es \<and> 0 \<le> p \<and> p < int n \<and> p \<noteq> int i"
    if "(i, p, args, a) \<in> voteThreads i sp" for p args a
    using that f(1,8) m(2,3) tally_terms(1)[OF m(5)] by (auto simp: voteThreads_def)
  have waits: "waits_ok n (waiting c') i (elections c' i)"
    using elect_waits[of n "waiting c" i ?es ?args "currentTerm r'", OF m(6) _ _ new] by (simp add: c'_def)
  have me: "member_ok C n c' i"
    using sinv f m voter tally waits by (simp add: member_ok_def c'_def)
  have others: "member_ok C n c' j" if "j < n" "j \<noteq> i" for j
    by (rule member_idle[OF mem[OF that(1)]]) (use that(2) in \<open>auto simp: c'_def voteThreads_def\<close>)
  have "network_ok n c'"
  proof (rule ballot_network[OF net i, where R = "sentVotes sp" and T = "voteThreads i sp" and A = "{}"])
    fix j args assume "(j, args) \<in> sentVotes sp"
    then obtain p a where "SendRequestVote p args a \<in> set sp" by (auto simp: sentVotes_def)
    from f(8)[OF this] m(2) show "0 \<le> rv_candidateid args" by simp
  qed (use fresh in \<open>auto simp: c'_def voteThreads_def\<close>)
  moreover have "history_ok n c'" by (rule history_mono[OF hist]) (auto simp: c'_def)
  ultimately show ?thesis using me others by (auto simp: cluster_inv_def)
qed

lemma requestVote_facts:
  assumes "codec_ok C" and "p_ok (persister r)" and "requestVoteImpl C now args r = (reply, r')"
  shows "savedState C (persister r') = Inr (hardState r')"
    and "\<not> rvr_votegranted reply \<Longrightarrow> votes_kept C r r'"
    and "rvr_votegranted reply \<Longrightarrow>
      rvr_term reply = rv_term args \<and> currentTerm r' = rv_term args \<and> votedFor r' = rv_candidateid args \<and>
      currentTerm r \<le> currentTerm r' \<and> voteNums r' = voteNums r \<and> npeers r' = npeers r \<and> raftId r' = raftId r \<and>
      (currentTerm r = currentTerm r' \<longrightarrow> votedFor r = -1 \<or> votedFor r = rv_candidateid args) \<and>
      (status r' = Leader \<longrightarrow> status r = Leader \<and> currentTerm r' = currentTerm r)"
proof -
  have r': "r' = persist C (votedState now args r)" using requestVote_persisted[of C now args r] assms(3) by simp
  have ok: "p_ok (persister (votedState now args r))" using assms(2) by (simp add: votedState_inv)
  show saved: "savedState C (persister r') = Inr (hardState r')"
    unfolding r' using persist_saved(1)[OF assms(1) ok] by simp
  show "votes_kept C r r'" if "\<not> rvr_votegranted reply"
  proof -
    have "voteNums r' = voteNums r \<and> npeers r' = npeers r \<and> raftId r' = raftId r"
      "currentTerm r' = currentTerm r \<and> votedFor r' = votedFor r \<and> (status r' = Leader \<longrightarrow> status r = Leader) \<or>
      currentTerm r < currentTerm r' \<and> votedFor r' = -1 \<and> status r' = Follower"
      using assms(3) that unfolding requestVoteImpl_def Let_def by (auto split: if_splits)
    then show ?thesis by (rule votes_keptI[OF _ _ saved])
  qed
  show "rvr_term reply = rv_term args \<and> currentTerm r' = rv_term args \<and> votedFor r' = rv_candidateid args \<and>
      currentTerm r \<le> currentTerm r' \<and> voteNums r' = voteNums r \<and> npeers r' = npeers r \<and> raftId r' = raftId r \<and>
      (currentTerm r = currentTerm r' \<longrightarrow> votedFor r = -1 \<or> votedFor r = rv_candidateid args) \<and>
      (status r' = Leader \<longrightarrow> status r = Leader \<and> currentTerm r' = currentTerm r)"
    if granted: "rvr_votegranted reply"
  proof -
    define s where "s = (if rv_term args > currentTerm r
      then r\<lparr>status := Follower, currentTerm := rv_term args, votedFor := -1\<rparr> else r)"
    have s: "voteNums s = voteNums r" "npeers s = npeers r" "raftId s = raftId r"
      "currentTerm r \<le> rv_term args \<Longrightarrow> currentTerm s = rv_term args"
      "currentTerm r = rv_term args \<Longrightarrow> s = r" "status s = Leader \<Longrightarrow> s = r" by (simp_all add: s_def split: if_splits)
    have le: "currentTerm r \<le> rv_term args" using assms(3) granted by (auto simp: requestVoteImpl_def split: if_splits)
    then have vote: "requestVoteImpl C now args r = (reply, r')"
      "votedFor s = -1 \<or> votedFor s = rv_candidateid args"
      "reply = \<lparr>rvr_term = currentTerm s, rvr_votegranted = True, rvr_votestate = Normal\<rparr>"
      "r' = persist C (s\<lparr>votedFor := rv_candidateid args, lastResetElectionTime := now\<rparr>)"
      using assms(3) granted unfolding requestVoteImpl_def s_def[symmetric] Let_def
      by (auto split: if_splits)
    have fields: "currentTerm r' = rv_term args" "status r' = status s" "voteNums r' = voteNums r"
      "npeers r' = npeers r" "raftId r' = raftId r" "votedFor r' = rv_candidateid args"
      "rvr_term reply = rv_term args" using vote(3,4) s le by simp_all
    show ?thesis
    proof (intro conjI impI)
      assume "currentTerm r = currentTerm r'"
      then show "votedFor r = -1 \<or> votedFor r = rv_candidateid args" using vote(2) s(5) fields(1) by simp
    next
      assume "status r' = Leader"
      then have "s = r" using s(6) fields(2) by simp
      then show "status r = Leader" "currentTerm r' = currentTerm r"
        using \<open>status r' = Leader\<close> fields s(4) le by simp_all
    qed (use fields le in simp_all)
  qed
qed

lemma cluster_vote:
  assumes C: "codec_ok C" and inv: "cluster_inv C n c" and j: "j < n" and req: "(j, args) \<in> requests c"
    and vote: "requestVoteImpl C now args (servers c j) = (reply, r')"
  defines "c' \<equiv> c\<lparr>servers := (servers c)(j := r'), answers := insert (j, args, reply) (answers c),
      ballots := (if rvr_votegranted reply then insert (j, rvr_term reply, rv_candidateid args) (ballots c)
                  else ballots c)\<rparr>"
  shows "cluster_inv C n c'"
proof -
  let ?r = "servers c j" and ?k = "rv_candidateid args"
  have mem: "member_ok C n c i" if "i < n" for i using inv that by (simp add: cluster_inv_def)
  have net: "network_ok n c" and hist: "history_ok n c" using inv by (simp_all add: cluster_inv_def)
  from mem[OF j] have m: "server_inv C ?r" "raftId ?r = int j" "npeers ?r = n" "voter_ok C (ballots c) j ?r"
    "tally_ok n (ballots c) j ?r (elections c j)" "waits_ok n (waiting c) j (elections c j)"
    "status ?r = Leader \<longrightarrow> (j, currentTerm ?r) \<in> leaderships c"
    by (auto simp: member_ok_def)
  have ok: "p_ok (persister ?r)" using m(1) by (simp add: server_inv_def)
  note f = requestVote_facts[OF C ok vote]
  have sinv: "server_inv C r'" using requestVote_inv[OF C m(1) vote] .
  have k: "0 \<le> ?k" using net req unfolding network_ok_def by blast
  have hist': "history_ok n c'" by (rule history_mono[OF hist]) (auto simp: c'_def)
  have others: "member_ok C n c' i" if "i < n" "i \<noteq> j" for i
    by (rule member_idle[OF mem[OF that(1)]]) (use that(2) in \<open>auto simp: c'_def split: if_splits\<close>)
  show ?thesis
  proof (cases "rvr_votegranted reply")
    case False
    have "member_ok C n c' j"
      by (rule member_kept[OF mem[OF j] f(2)[OF False] sinv]) (use False in \<open>auto simp: c'_def\<close>)
    moreover have "network_ok n c'" using net False by (auto simp: c'_def network_ok_def)
    ultimately show ?thesis using others hist' by (auto simp: cluster_inv_def)
  next
    case True
    note g = f(3)[OF True]
    have B: "ballots c' = insert (j, rv_term args, ?k) (ballots c)" using True g by (simp add: c'_def)
    have same: "k = ?k \<and> k = votedFor r'" if "(j, currentTerm r', k) \<in> ballots c" for k
    proof -
      have "0 \<le> k" using net that unfolding network_ok_def by blast
      moreover have "currentTerm r' \<le> currentTerm ?r \<and> (currentTerm r' = currentTerm ?r \<longrightarrow> votedFor ?r = k)"
        using m(4) that unfolding voter_ok_def by blast
      ultimately show ?thesis using g by auto
    qed
    have voter: "voter_ok C (ballots c') j r'"
      using ballot_voter[OF m(4), of r' ?k] same g f(1) by (auto simp: B)
    have "tally_ok n (ballots c') j r' (elections c j)"
      by (rule tally_ok_mono[OF m(5)]) (use g B in auto)
    then have "member_ok C n c' j"
      using sinv m voter g by (auto simp: member_ok_def c'_def)
    moreover have "network_ok n c'"
      by (rule ballot_network[OF net j k, of "rv_term args" c' "{}" "{}" "{(j, args, reply)}"])
        (use same g B in \<open>auto simp: c'_def\<close>)
    ultimately show ?thesis using others hist' by (auto simp: cluster_inv_def)
  qed
qed

lemma initRaft_fresh: "initRaft C n me p now = Inr r \<Longrightarrow> voteNums r = [] \<and> status r = Follower"
  by (auto simp: initRaft_saved andThen_eq_Inr split: prod.splits)

lemma cluster_restart:
  assumes inv: "cluster_inv C n c" and i: "i < n"
    and start: "initRaft C n (int i) (persister (servers c i)) now = Inr r'"
  defines "c' \<equiv> c\<lparr>servers := (servers c)(i := r'),
      waiting := {w \<in> waiting c. fst w \<noteq> i}, elections := (elections c)(i := [])\<rparr>"
  shows "cluster_inv C n c'"
proof -
  let ?r = "servers c i"
  have mem: "member_ok C n c j" if "j < n" for j using inv that by (simp add: cluster_inv_def)
  have net: "network_ok n c" and hist: "history_ok n c" using inv by (simp_all add: cluster_inv_def)
  from mem[OF i] have m: "server_inv C ?r" "voter_ok C (ballots c) i ?r" by (auto simp: member_ok_def)
  then have ok: "p_ok (persister ?r)" "saved_ok C (persister ?r)" by (simp_all add: server_inv_def)
  from initRaft_inv[OF ok, of n "int i" now] start have f: "server_inv C r'" "persister r' = persister ?r"
    "npeers r' = n" "raftId r' = int i" "savedState C (persister ?r) = Inr (hardState r')" by auto
  have g: "voteNums r' = []" "status r' = Follower"
    using initRaft_fresh[OF start] by simp_all
  have "voter_ok C (ballots c') i r'"
    using m(2) f(2,5) unfolding voter_ok_def by (fastforce simp: c'_def hardState_def)
  moreover have "tally_ok n (ballots c') i r' []" using g by (simp add: tally_ok_def)
  ultimately have "member_ok C n c' i"
    using f g by (simp add: member_ok_def c'_def waits_ok_def)
  moreover have "member_ok C n c' j" if "j < n" "j \<noteq> i" for j
    by (rule member_idle[OF mem[OF that(1)]]) (use that(2) in \<open>auto simp: c'_def\<close>)
  moreover have "network_ok n c'" using net by (auto simp: c'_def network_ok_def)
  moreover have "history_ok n c'" by (rule history_mono[OF hist]) (auto simp: c'_def)
  ultimately show ?thesis by (auto simp: cluster_inv_def)
qed

text \<open>The thread of a vote: its answer is ignored, or counted, or completes a majority.\<close>

lemma sendRequestVote_uncounted:
  assumes "codec_ok C" and "p_ok (persister r)" and "\<not> counted isOk reply r"
  shows "\<exists>r' sp. sendRequestVote C isOk reply a r = Inr (r', sp) \<and> votes_kept C r r' \<and>
    (status r' = Leader \<longrightarrow> status r = Leader)"
proof (cases "isOk \<and> rvr_term reply > currentTerm r")
  case True
  let ?s = "r\<lparr>status := Follower, currentTerm := rvr_term reply, votedFor := -1\<rparr>"
  have "p_ok (persister ?s)" using assms(2) by simp
  then show ?thesis
    using True persist_saved(1)[OF assms(1), of ?s] by (simp add: sendRequestVote_def votes_kept_def)
next
  case False
  then show ?thesis using assms(3) by (auto simp: sendRequestVote_def counted_def votes_kept_def)
qed

lemma sendRequestVote_counted:
  assumes "counted isOk reply r" and "a < length (voteNums r)"
    and "voteNums r ! a + 1 \<ge> majority r \<Longrightarrow> status r \<noteq> Leader"
  shows "\<exists>r' sp. sendRequestVote C isOk reply a r = Inr (r', sp) \<and>
    (if voteNums r ! a + 1 \<ge> majority r
     then sp = [DoHeartBeat] \<and> r' = r\<lparr>voteNums := (voteNums r)[a := 0], status := Leader,
       nextIndex := map (\<lambda>_. getLastLogIndex r + 1) (nextIndex r), matchIndex := map (\<lambda>_. 0) (nextIndex r)\<rparr>
     else sp = [] \<and> r' = r\<lparr>voteNums := (voteNums r)[a := voteNums r ! a + 1]\<rparr>)"
proof -
  have "getLastLogIndex (r\<lparr>voteNums := v\<rparr>) = getLastLogIndex r" for v by (rule log_funs_cong(2)) simp_all
  then show ?thesis using assms
    by (simp add: sendRequestVote_def counted_def vecGet_in_range majority_def Let_def)
qed

lemma tallyVote_fst: "a < length es \<Longrightarrow> map fst (tallyVote p a won es) = map fst es"
  by (cases "es ! a") (auto simp: tallyVote_def map_update list_update_same_conv)

lemma nth_same_fst:
  assumes "distinct (map fst es)" and "(t, y) \<in> set es" and "a < length es" and "fst (es ! a) = t"
  shows "es ! a = (t, y)"
proof -
  from assms(2) obtain b where b: "b < length es" "es ! b = (t, y)" by (auto simp: in_set_conv_nth)
  then have "map fst es ! a = map fst es ! b" using assms(3,4) by simp
  then have "a = b" using assms(1,3) b(1) by (metis length_map nth_eq_iff_index_eq)
  then show ?thesis using b by simp
qed

text \<open>What a counted vote does to the counter of its election.\<close>

lemma counted_entry:
  assumes tally: "tally_ok n B i r es" and n: "npeers r = n" and i: "i < n"
    and a: "a < length es" and g: "g < n" "g \<noteq> i" "g \<notin> fst (snd (es ! a))"
    and now: "fst (es ! a) = currentTerm r" and b: "(g, currentTerm r, int i) \<in> B"
  defines "m \<equiv> voteNums r ! a" and "won \<equiv> voteNums r ! a + 1 \<ge> majority r"
  shows "won \<Longrightarrow> status r \<noteq> Leader" and "won \<Longrightarrow> \<not> snd (snd (es ! a))"
    and "\<exists>G w. tallyVote g a won es = es[a := (currentTerm r, insert g G, w \<or> won)] \<and>
      es ! a = (currentTerm r, G, w) \<and>
      count_ok n B i (currentTerm r) (currentTerm r, insert g G, w \<or> won) (if won then 0 else m + 1) \<and>
      (won \<longrightarrow> quorum n \<le> int (card (insert i (insert g G))) \<and> insert i (insert g G) \<subseteq> {..<n} \<and>
         (\<forall>v\<in>insert i (insert g G). (v, currentTerm r, int i) \<in> B))"
proof -
  obtain G w where e: "es ! a = (currentTerm r, G, w)" using now by (cases "es ! a") auto
  have "count_ok n B i (currentTerm r) (es ! a) (voteNums r ! a)"
    using tally a by (simp add: tally_ok_def list_all2_conv_all_nth)
  then have c: "G \<subseteq> {..<n} - {i}" "(i, currentTerm r, int i) \<in> B" "\<forall>g\<in>G. (g, currentTerm r, int i) \<in> B"
    "m + (if w then quorum n else 0) = 1 + int (card G)" "\<not> w \<longrightarrow> 1 < n \<longrightarrow> m < quorum n"
    by (auto simp: count_ok_def e m_def)
  have maj: "majority r = quorum n" by (simp add: majority_def quorum_def n)
  have fin: "finite G" using c(1) finite_subset by blast
  have gG: "g \<notin> G" using g(3) by (simp add: e)
  have sub: "insert g G \<subseteq> {..<n} - {i}" using c(1) g by auto
  have card: "int (card (insert g G)) = int (card G) + 1" using fin gG by simp
  have "card (insert g G) \<le> card ({..<n} - {i})" using sub by (intro card_mono) auto
  then have small: "int (card G) + 1 \<le> int n - 1" using card i by simp
  have n2: "1 < n" using g(1,2) i by auto
  have notw: "\<not> w" if won
  proof
    assume w
    with c(4) that have "2 * quorum n \<le> 2 + int (card G)" by (simp add: won_def m_def maj)
    with small show False by (simp add: quorum_def)
  qed
  then show "\<not> snd (snd (es ! a))" if won using that e by simp
  show "status r \<noteq> Leader" if won
  proof
    assume "status r = Leader"
    with tally obtain G' where G': "(currentTerm r, G', True) \<in> set es" by (auto simp: tally_ok_def)
    have "distinct (map fst es)" using tally by (simp add: tally_ok_def)
    from nth_same_fst[OF this G' a now] e notw[OF that] show False by simp
  qed
  have i_out: "i \<notin> insert g G" using sub by blast
  have "count_ok n B i (currentTerm r) (currentTerm r, insert g G, w \<or> won) (if won then 0 else m + 1)"
    using c b sub card notw n2 unfolding count_ok_def won_def m_def maj
    by (auto simp: quorum_def split: if_splits)
  moreover have "quorum n \<le> int (card (insert i (insert g G)))" if won
    using that notw[OF that] c(4) card i_out fin by (simp add: won_def m_def maj)
  moreover have "insert i (insert g G) \<subseteq> {..<n}" using sub i by auto
  moreover have "\<forall>v\<in>insert i (insert g G). (v, currentTerm r, int i) \<in> B" using b c(2,3) by auto
  ultimately show "\<exists>G w. tallyVote g a won es = es[a := (currentTerm r, insert g G, w \<or> won)] \<and>
      es ! a = (currentTerm r, G, w) \<and>
      count_ok n B i (currentTerm r) (currentTerm r, insert g G, w \<or> won) (if won then 0 else m + 1) \<and>
      (won \<longrightarrow> quorum n \<le> int (card (insert i (insert g G))) \<and> insert i (insert g G) \<subseteq> {..<n} \<and>
         (\<forall>v\<in>insert i (insert g G). (v, currentTerm r, int i) \<in> B))"
    by (intro exI[of _ G] exI[of _ w]) (simp add: tallyVote_def e)
qed

text \<open>The server that counts an answer it had not counted before.\<close>

lemma waiting_answer:
  assumes inv: "cluster_inv C n c" and w: "(i, p, args, a) \<in> waiting c"
    and ans: "isOk \<Longrightarrow> (nat p, args, reply) \<in> answers c" and cnt: "counted isOk reply (servers c i)"
  shows "i < n" "a < length (elections c i)" "nat p < n" "nat p \<noteq> i" "nat p \<notin> fst (snd (elections c i ! a))"
    "fst (elections c i ! a) = currentTerm (servers c i)"
    "(nat p, currentTerm (servers c i), int i) \<in> ballots c"
proof -
  have net: "network_ok n c" using inv by (simp add: cluster_inv_def)
  show i: "i < n" using net w unfolding network_ok_def by fastforce
  then have "waits_ok n (waiting c) i (elections c i)" using inv by (simp add: cluster_inv_def member_ok_def)
  with w have W: "a < length (elections c i)" "fst (elections c i ! a) = rv_term args"
    "rv_candidateid args = int i" "0 \<le> p" "p < int n" "p \<noteq> int i" "nat p \<notin> fst (snd (elections c i ! a))"
    unfolding waits_ok_def by blast+
  from cnt have "isOk" "rvr_votegranted reply" "rvr_term reply = currentTerm (servers c i)"
    by (simp_all add: counted_def)
  with ans net have A: "rvr_term reply = rv_term args" "(nat p, rv_term args, rv_candidateid args) \<in> ballots c"
    unfolding network_ok_def by blast+
  with W \<open>rvr_term reply = currentTerm (servers c i)\<close> show
    "a < length (elections c i)" "nat p < n" "nat p \<noteq> i" "nat p \<notin> fst (snd (elections c i ! a))"
    "fst (elections c i ! a) = currentTerm (servers c i)"
    "(nat p, currentTerm (servers c i), int i) \<in> ballots c" by auto
qed

lemma waits_counted:
  assumes "waits_ok n W i es" and "(i, p, args, a) \<in> W"
  shows "waits_ok n (W - {(i, p, args, a)}) i (tallyVote (nat p) a won es)"
  unfolding waits_ok_def
proof (intro allI impI)
  fix p' args' a' assume w': "(i, p', args', a') \<in> W - {(i, p, args, a)}"
  then have o: "a' < length es" "fst (es ! a') = rv_term args'" "rv_candidateid args' = int i"
    "0 \<le> p'" "p' < int n" "p' \<noteq> int i" "nat p' \<notin> fst (snd (es ! a'))"
    "\<forall>x. (i, p', x, a') \<in> W \<longrightarrow> x = args'" using assms(1) unfolding waits_ok_def by blast+
  have a: "a < length es" "0 \<le> p" using assms unfolding waits_ok_def by blast+
  have "p' \<noteq> p" if "a' = a" using w' that assms(2) o(8) by auto
  then have "nat p' \<noteq> nat p" if "a' = a" using that o(4) a(2) by (simp add: eq_nat_nat_iff)
  then have "fst (tallyVote (nat p) a won es ! a') = fst (es ! a')"
    "nat p' \<notin> fst (snd (tallyVote (nat p) a won es ! a'))"
    "length (tallyVote (nat p) a won es) = length es"
    using o(1,7) a(1) by (auto simp: tallyVote_def nth_list_update split: prod.splits)
  with o show "a' < length (tallyVote (nat p) a won es) \<and> fst (tallyVote (nat p) a won es ! a') = rv_term args' \<and>
     rv_candidateid args' = int i \<and> 0 \<le> p' \<and> p' < int n \<and> p' \<noteq> int i \<and>
     nat p' \<notin> fst (snd (tallyVote (nat p) a won es ! a')) \<and>
     (\<forall>x. (i, p', x, a') \<in> W - {(i, p, args, a)} \<longrightarrow> x = args')" by simp
qed

lemma counted_tally:
  assumes tally: "tally_ok n B i r es" and e: "a < length es" "es ! a = (currentTerm r, G, b)"
    and cnt: "count_ok n B i (currentTerm r) (currentTerm r, G', b \<or> maj) m'"
    and r': "voteNums r' = (voteNums r)[a := m']" "currentTerm r' = currentTerm r"
      "status r' = (if maj then Leader else status r)"
  shows "tally_ok n B i r' (es[a := (currentTerm r, G', b \<or> maj)])"
proof -
  let ?es = "es[a := (currentTerm r, G', b \<or> maj)]"
  have t: "list_all2 (count_ok n B i (currentTerm r)) es (voteNums r)" "distinct (map fst es)"
    using tally by (simp_all add: tally_ok_def)
  have "list_all2 (count_ok n B i (currentTerm r')) ?es (voteNums r')"
    unfolding r'(1,2) by (rule list_all2_update_cong[OF t(1) cnt])
  moreover have "map fst ?es = map fst es" using e by (simp add: map_update list_update_same_conv)
  moreover have "\<exists>G. (currentTerm r', G, True) \<in> set ?es" if "status r' = Leader"
  proof -
    have "b \<or> maj"
    proof (rule ccontr)
      assume no: "\<not> (b \<or> maj)"
      with that r'(3) have "status r = Leader" by simp
      with tally obtain G'' where "(currentTerm r, G'', True) \<in> set es" by (auto simp: tally_ok_def)
      from nth_same_fst[OF t(2) this e(1)] e(2) no show False by simp
    qed
    then have "(currentTerm r, G', True) \<in> set ?es" using e(1) by (auto intro!: set_update_memI)
    then show ?thesis using r'(2) by auto
  qed
  ultimately show ?thesis using t(2) by (simp add: tally_ok_def)
qed

lemma counted_vote:
  assumes tally: "tally_ok n B i r es" and n: "npeers r = n" and i: "i < n"
    and a: "a < length es" and g: "g < n" "g \<noteq> i" "g \<notin> fst (snd (es ! a))"
    and now: "fst (es ! a) = currentTerm r" and b: "(g, currentTerm r, int i) \<in> B"
    and cnt: "counted isOk reply r" and send: "sendRequestVote C isOk reply a r = Inr (r', sp)"
  defines "won \<equiv> status r \<noteq> Leader \<and> status r' = Leader"
  shows "currentTerm r' = currentTerm r \<and> votedFor r' = votedFor r \<and> persister r' = persister r \<and>
      raftId r' = raftId r \<and> npeers r' = n"
    and "tally_ok n B i r' (tallyVote g a won es)"
    and "won \<Longrightarrow> \<exists>Q\<subseteq>{..<n}. quorum n \<le> int (card Q) \<and> (\<forall>v\<in>Q. (v, currentTerm r, int i) \<in> B)"
proof -
  define maj where "maj \<longleftrightarrow> voteNums r ! a + 1 \<ge> majority r"
  note entry = counted_entry[OF tally n i a g now b, folded maj_def]
  have al: "a < length (voteNums r)" using a tally by (auto simp: tally_ok_def dest: list_all2_lengthD)
  have nl: "voteNums r ! a + 1 \<ge> majority r \<Longrightarrow> status r \<noteq> Leader" using entry(1) by (simp add: maj_def)
  from sendRequestVote_counted[OF cnt al nl, of C] send
  have r': "r' = (if maj then r\<lparr>voteNums := (voteNums r)[a := 0], status := Leader,
     nextIndex := map (\<lambda>_. getLastLogIndex r + 1) (nextIndex r), matchIndex := map (\<lambda>_. 0) (nextIndex r)\<rparr>
    else r\<lparr>voteNums := (voteNums r)[a := voteNums r ! a + 1]\<rparr>)" by (auto simp: maj_def split: if_splits)
  then have won: "won = maj" using entry(1) by (auto simp: won_def)
  have f: "currentTerm r' = currentTerm r" "status r' = (if maj then Leader else status r)"
    "voteNums r' = (voteNums r)[a := if maj then 0 else voteNums r ! a + 1]" by (simp_all add: r')
  show "currentTerm r' = currentTerm r \<and> votedFor r' = votedFor r \<and> persister r' = persister r \<and>
      raftId r' = raftId r \<and> npeers r' = n" using n by (simp add: r')
  from entry(3) obtain G w where e: "tallyVote g a maj es = es[a := (currentTerm r, insert g G, w \<or> maj)]"
    "es ! a = (currentTerm r, G, w)"
    "count_ok n B i (currentTerm r) (currentTerm r, insert g G, w \<or> maj) (if maj then 0 else voteNums r ! a + 1)"
    "maj \<longrightarrow> quorum n \<le> int (card (insert i (insert g G))) \<and> insert i (insert g G) \<subseteq> {..<n} \<and>
       (\<forall>v\<in>insert i (insert g G). (v, currentTerm r, int i) \<in> B)" by blast
  show "tally_ok n B i r' (tallyVote g a won es)"
    using counted_tally[OF tally a e(2,3) f(3,1,2)] by (simp add: won e(1))
  show "\<exists>Q\<subseteq>{..<n}. quorum n \<le> int (card Q) \<and> (\<forall>v\<in>Q. (v, currentTerm r, int i) \<in> B)" if won
    using e(4) that won by (intro exI[of _ "insert i (insert g G)"]) blast
qed

lemma win_history:
  assumes "history_ok n c" and "ballots c' = ballots c" and "leaderships c' \<subseteq> insert (i, t) (leaderships c)"
    and "(i, t) \<in> leaderships c' \<Longrightarrow> (i, t) \<notin> leaderships c \<Longrightarrow>
      i < n \<and> (\<exists>Q\<subseteq>{..<n}. quorum n \<le> int (card Q) \<and> (\<forall>v\<in>Q. (v, t, int i) \<in> ballots c))"
  shows "history_ok n c'"
  unfolding history_ok_def
proof (intro allI impI)
  fix k u assume l: "(k, u) \<in> leaderships c'"
  show "k < n \<and> (\<exists>Q\<subseteq>{..<n}. quorum n \<le> int (card Q) \<and> (\<forall>v\<in>Q. (v, u, int k) \<in> ballots c'))"
  proof (cases "(k, u) \<in> leaderships c")
    case True
    then show ?thesis using assms(1,2) by (simp add: history_ok_def)
  next
    case False
    with l assms(3) have "k = i" "u = t" by auto
    then show ?thesis using assms(2,4) l False by simp
  qed
qed

lemma cluster_reply:
  assumes C: "codec_ok C" and inv: "cluster_inv C n c" and w: "(i, p, args, a) \<in> waiting c"
    and ans: "isOk \<Longrightarrow> (nat p, args, reply) \<in> answers c"
    and send: "sendRequestVote C isOk reply a (servers c i) = Inr (r', sp)"
    and won: "won = (status (servers c i) \<noteq> Leader \<and> status r' = Leader)"
  defines "c' \<equiv> c\<lparr>servers := (servers c)(i := r'), waiting := waiting c - {(i, p, args, a)},
      elections := (if counted isOk reply (servers c i)
                    then (elections c)(i := tallyVote (nat p) a won (elections c i)) else elections c),
      leaderships := (if won then insert (i, currentTerm r') (leaderships c) else leaderships c)\<rparr>"
  shows "cluster_inv C n c'"
proof -
  let ?r = "servers c i" and ?es = "elections c i"
  have mem: "member_ok C n c j" if "j < n" for j using inv that by (simp add: cluster_inv_def)
  have net: "network_ok n c" and hist: "history_ok n c" using inv by (simp_all add: cluster_inv_def)
  have i: "i < n" using net w unfolding network_ok_def by fastforce
  from mem[OF i] have m: "server_inv C ?r" "raftId ?r = int i" "npeers ?r = n" "voter_ok C (ballots c) i ?r"
    "tally_ok n (ballots c) i ?r ?es" "waits_ok n (waiting c) i ?es"
    "status ?r = Leader \<longrightarrow> (i, currentTerm ?r) \<in> leaderships c"
    by (auto simp: member_ok_def)
  have sinv: "server_inv C r'" using sendRequestVote_inv[OF C m(1) send] .
  have net': "network_ok n c'" using net by (auto simp: c'_def network_ok_def)
  have others: "member_ok C n c' j" if "j < n" "j \<noteq> i" for j
    by (rule member_idle[OF mem[OF that(1)]]) (use that(2) in \<open>auto simp: c'_def\<close>)
  show ?thesis
  proof (cases "counted isOk reply ?r")
    case False
    have "p_ok (persister ?r)" using m(1) by (simp add: server_inv_def)
    from sendRequestVote_uncounted[OF C this False, of a] send
    have k: "votes_kept C ?r r'" and "\<not> won" using won by auto
    then have c': "ballots c' = ballots c" "leaderships c' = leaderships c" "elections c' = elections c"
      using False by (simp_all add: c'_def)
    have "member_ok C n c' i"
      by (rule member_kept[OF mem[OF i] k sinv]) (use False in \<open>auto simp: c'_def\<close>)
    then show ?thesis using others net' history_mono[OF hist, of c'] c' by (auto simp: cluster_inv_def)
  next
    case True
    note A = waiting_answer[OF inv w ans True]
    note V = counted_vote[OF m(5,3) i A(2-7) True send, folded won]
    have "tally_ok n (ballots c') i r' (elections c' i)"
      using V(2) True by (simp add: c'_def)
    moreover have "waits_ok n (waiting c') i (elections c' i)"
      using waits_counted[OF m(6) w] True by (simp add: c'_def)
    moreover have "voter_ok C (ballots c') i r'" using m(4) V(1) by (simp add: voter_ok_def c'_def)
    moreover have "status r' = Leader \<longrightarrow> (i, currentTerm r') \<in> leaderships c'"
      using m(7) V(1) by (auto simp: won c'_def)
    ultimately have me: "member_ok C n c' i" using sinv V(1) m(2) by (simp add: member_ok_def c'_def)
    have "history_ok n c'"
      using i V(1,3) by (intro win_history[OF hist, of c' i "currentTerm ?r"]) (auto simp: c'_def split: if_splits)
    then show ?thesis using me others net' by (auto simp: cluster_inv_def)
  qed
qed

lemma cluster_vote_inv:
  assumes "codec_ok C" and "cluster_inv C n c" and "voteStep C n c c'"
  shows "cluster_inv C n c'"
  using assms(3)
proof cases
  case c_elect
  then show ?thesis using cluster_elect[OF assms(1,2)] by blast
next
  case c_vote
  then show ?thesis using cluster_vote[OF assms(1,2)] by blast
next
  case c_reply
  then show ?thesis using cluster_reply[OF assms(1,2)] by blast
qed

lemma cluster_step_inv:
  assumes "codec_ok C" and "cluster_inv C n c" and "clusterStep C n c c'"
  shows "cluster_inv C n c'"
  using assms(3)
proof cases
  case c_votes
  then show ?thesis using cluster_vote_inv[OF assms(1,2)] by blast
next
  case c_other
  then show ?thesis using cluster_other[OF assms(1,2)] by blast
next
  case c_restart
  then show ?thesis using cluster_restart[OF assms(2)] by blast
qed

lemma cluster_init_inv:
  assumes "clusterInit C n c"
  shows "cluster_inv C n c"
proof -
  have "member_ok C n c i" if i: "i < n" for i
  proof -
    from assms i obtain p now where p: "p_ok p" "saved_ok C p" "initRaft C n (int i) p now = Inr (servers c i)"
      unfolding clusterInit_def by blast
    from initRaft_inv[OF p(1,2), of n "int i" now] p(3)
    have "server_inv C (servers c i)" "npeers (servers c i) = n" "raftId (servers c i) = int i" by auto
    moreover have "voteNums (servers c i) = []" "status (servers c i) = Follower"
      using initRaft_fresh[OF p(3)] by simp_all
    ultimately show ?thesis using assms
      by (simp add: member_ok_def voter_ok_def tally_ok_def waits_ok_def clusterInit_def)
  qed
  then show ?thesis using assms by (simp add: cluster_inv_def network_ok_def history_ok_def clusterInit_def)
qed

definition guardedCluster :: "codec \<Rightarrow> nat \<Rightarrow> cluster \<Rightarrow> cluster \<Rightarrow> bool" where
  "guardedCluster C n c c' \<longleftrightarrow> codec_ok C \<and> clusterStep C n c c'"

interpretation cluster: invariant_of "clusterInit C n" "guardedCluster C n" "cluster_inv C n" for C n
  by unfold_locales (auto simp: guardedCluster_def cluster_init_inv cluster_step_inv)

end
