(* ===== verification/RaftReplicas.thy ===== *)
theory RaftReplicas
  imports RaftCluster
begin

text \<open>
  The cluster of \<open>RaftCluster\<close> with the messages that replicate the log: what a leader's heartbeat round sends
  is kept in a network that may lose, delay, reorder and repeat it, a follower handles only such messages, and a
  thread that waits for an answer gets an answer its peer gave to that message.  Snapshots, where they are allowed,
  are taken at any index and installed from arbitrary requests.  The entries leaders created are history that
  no step reads.
\<close>

section \<open>State and steps\<close>

record replicas =
  voting :: cluster
  appends :: "(nat \<times> appendEntriesArgs) set" \<comment> \<open>receiver, message\<close>
  appendThreads :: "(nat \<times> int \<times> appendEntriesArgs \<times> nat) set" \<comment> \<open>owner, peer, message, counter\<close>
  appendAnswers :: "(nat \<times> appendEntriesArgs \<times> appendEntriesReply) set" \<comment> \<open>follower, message, reply\<close>
  created :: "(int \<times> int \<times> string) set" \<comment> \<open>index, term, command\<close>

abbreviation node :: "replicas \<Rightarrow> nat \<Rightarrow> raft" where
  "node s i \<equiv> servers (voting s) i"

definition setNode :: "nat \<Rightarrow> raft \<Rightarrow> replicas \<Rightarrow> replicas" where
  "setNode i r s = s\<lparr>voting := (voting s)\<lparr>servers := (servers (voting s))(i := r)\<rparr>\<rparr>"

definition restarted :: "nat \<Rightarrow> raft \<Rightarrow> cluster \<Rightarrow> cluster" where
  "restarted i r c = c\<lparr>servers := (servers c)(i := r), waiting := {w \<in> waiting c. fst w \<noteq> i},
     elections := (elections c)(i := [])\<rparr>"

definition sentAppends :: "spawn list \<Rightarrow> (nat \<times> appendEntriesArgs) set" where
  "sentAppends sp = {(nat p, args) | p args a. SendAppendEntries p args a \<in> set sp}"

definition appendThreadsOf :: "nat \<Rightarrow> spawn list \<Rightarrow> (nat \<times> int \<times> appendEntriesArgs \<times> nat) set" where
  "appendThreadsOf i sp = {(i, p, args, a) | p args a. SendAppendEntries p args a \<in> set sp}"

text \<open>The steps of one server that are not driven by the messages of replication.\<close>

inductive localStep :: "codec \<Rightarrow> bool \<Rightarrow> raft \<Rightarrow> raft \<Rightarrow> bool" for C snaps where
  l_commit: "leaderUpdateCommitIndex r = Inr r' \<Longrightarrow> localStep C snaps r r'"
| l_apply: "getApplyLogs r = Inr (ms, r') \<Longrightarrow> localStep C snaps r r'"
| l_snapshot: "snaps \<Longrightarrow> snapshot C index snap r = Inr r' \<Longrightarrow> localStep C snaps r r'"
| l_install: "snaps \<Longrightarrow> installSnapshotImpl C now sargs r = Inr (sreply, r', sp) \<Longrightarrow> localStep C snaps r r'"
| l_installReply: "snaps \<Longrightarrow> leaderSendSnapshot C now peer sargs isOk sreply r = Inr r' \<Longrightarrow> localStep C snaps r r'"

inductive replicaStep :: "codec \<Rightarrow> nat \<Rightarrow> bool \<Rightarrow> replicas \<Rightarrow> replicas \<Rightarrow> bool" for C n snaps where
  r_vote: "voteStep C n (voting s) c \<Longrightarrow> replicaStep C n snaps s (s\<lparr>voting := c\<rparr>)"
| r_restart: "i < n \<Longrightarrow> initRaft C n (int i) (persister (node s i)) now = Inr r' \<Longrightarrow>
    replicaStep C n snaps s (s\<lparr>voting := restarted i r' (voting s),
      appendThreads := {w \<in> appendThreads s. fst w \<noteq> i}\<rparr>)"
| r_command: "i < n \<Longrightarrow> start C op (node s i) = ((x, t, isLeader), r') \<Longrightarrow>
    replicaStep C n snaps s ((setNode i r' s)\<lparr>created := (if isLeader then insert (x, t, op) (created s) else created s)\<rparr>)"
| r_heartBeat: "i < n \<Longrightarrow> doHeartBeat now (node s i) = Inr (r', sp) \<Longrightarrow>
    replicaStep C n snaps s ((setNode i r' s)\<lparr>appends := appends s \<union> sentAppends sp,
      appendThreads := appendThreads s \<union> appendThreadsOf i sp\<rparr>)"
| r_append: "j < n \<Longrightarrow> (j, args) \<in> appends s \<Longrightarrow> appendEntriesimpl C now args (node s j) = Inr (reply, r') \<Longrightarrow>
    replicaStep C n snaps s ((setNode j r' s)\<lparr>appendAnswers := insert (j, args, reply) (appendAnswers s)\<rparr>)"
| r_reply: "(i, p, args, a) \<in> appendThreads s \<Longrightarrow> i < n \<Longrightarrow> (isOk \<Longrightarrow> (nat p, args, reply) \<in> appendAnswers s) \<Longrightarrow>
    sendAppendEntries p args isOk reply a (node s i) = Inr r' \<Longrightarrow>
    replicaStep C n snaps s ((setNode i r' s)\<lparr>appendThreads := appendThreads s - {(i, p, args, a)}\<rparr>)"
| r_local: "i < n \<Longrightarrow> localStep C snaps (node s i) r' \<Longrightarrow> replicaStep C n snaps s (setNode i r' s)"

text \<open>Every server starts for the first time.\<close>

definition replicaInit :: "codec \<Rightarrow> nat \<Rightarrow> replicas \<Rightarrow> bool" where
  "replicaInit C n s \<longleftrightarrow> clusterInit C n (voting s) \<and>
     (\<forall>i<n. savedState C (persister (node s i)) = Inr (0, -1, 0, 0, [])) \<and>
     appends s = {} \<and> appendThreads s = {} \<and> appendAnswers s = {} \<and> created s = {}"

lemma node_setNode [simp]: "node (setNode i r s) j = (if j = i then r else node s j)"
  by (simp add: setNode_def)

lemma setNode_fields [simp]:
  "appends (setNode i r s) = appends s" "appendThreads (setNode i r s) = appendThreads s"
  "appendAnswers (setNode i r s) = appendAnswers s" "created (setNode i r s) = created s"
  "ballots (voting (setNode i r s)) = ballots (voting s)" "elections (voting (setNode i r s)) = elections (voting s)"
  "leaderships (voting (setNode i r s)) = leaderships (voting s)"
  by (simp_all add: setNode_def)

lemma restarted_fields [simp]:
  "servers (restarted i r c) j = (if j = i then r else servers c j)" "ballots (restarted i r c) = ballots c"
  "leaderships (restarted i r c) = leaderships c" "elections (restarted i r c) j = (if j = i then [] else elections c j)"
  by (simp_all add: restarted_def)

section \<open>What the steps do to a log\<close>

text \<open>New entries come from \<open>X\<close>, and a server that leads after the step led the same term before and lost no
  entry at the end.\<close>

definition grows :: "logEntry set \<Rightarrow> raft \<Rightarrow> raft \<Rightarrow> bool" where
  "grows X r r' \<longleftrightarrow> set (logs r') \<subseteq> set (logs r) \<union> X \<and>
     (status r' = Leader \<longrightarrow> status r = Leader \<and> currentTerm r' = currentTerm r \<and> getLastLogIndex r \<le> getLastLogIndex r')"

lemma grows_same:
  assumes "logs r' = logs r" "lastSnapshotIncludeIndex r' = lastSnapshotIncludeIndex r"
    "lastSnapshotIncludeTerm r' = lastSnapshotIncludeTerm r"
    and "status r' = Leader \<longrightarrow> status r = Leader \<and> currentTerm r' = currentTerm r"
  shows "grows X r r'"
  using assms log_funs_cong(2)[OF assms(1-3)] by (simp add: grows_def)

lemma progressed_log:
  assumes "progressed r r'"
  shows "logs r' = logs r" "lastSnapshotIncludeIndex r' = lastSnapshotIncludeIndex r"
    "lastSnapshotIncludeTerm r' = lastSnapshotIncludeTerm r" "status r' = status r" "currentTerm r' = currentTerm r"
  using assms by (auto simp: progressed_def)

lemma sendAppendEntries_grows: "sendAppendEntries p args isOk reply a r = Inr r' \<Longrightarrow> grows {} r r'"
  by (drule sendAppendEntries_form, elim disjE) (auto intro!: grows_same simp: progressed_log)

lemma start_grows:
  assumes "raft_inv r" and "start C op r = ((x, t, isLeader), r')"
  shows "grows {\<lparr>command = op, logterm = currentTerm r, logindex = getLastLogIndex r + 1\<rparr>} r r'"
    and "isLeader \<longleftrightarrow> status r = Leader" and "isLeader \<Longrightarrow> x = getLastLogIndex r + 1 \<and> t = currentTerm r"
    and "isLeader \<Longrightarrow> getLastLogIndex r' = getLastLogIndex r + 1" and "\<not> isLeader \<Longrightarrow> r' = r"
proof -
  let ?e = "\<lparr>command = op, logterm = currentTerm r, logindex = getLastLogIndex r + 1\<rparr>"
  let ?r = "r\<lparr>logs := logs r @ [?e]\<rparr>"
  show lead: "isLeader \<longleftrightarrow> status r = Leader" using assms(2) by (auto simp: start_def Let_def split: if_splits)
  have last: "getLastLogIndex ?r = getLastLogIndex r + 1" by (simp add: getLastLogIndex_def getLastLogIndexAndTerm_def)
  show f: "r' = r" if "\<not> isLeader" using that assms(2) lead by (simp add: start_def)
  have l: "r' = persist C ?r \<and> x = getLastLogIndex r + 1 \<and> t = currentTerm r" if "isLeader"
    using start_leader(1)[OF assms(1), of C op] assms(2) lead that by simp
  then show "x = getLastLogIndex r + 1 \<and> t = currentTerm r" "getLastLogIndex r' = getLastLogIndex r + 1"
    if isLeader using that last by (simp_all add: log_keep)
  show "grows {?e} r r'"
  proof (cases isLeader)
    case True
    then show ?thesis using l lead last by (simp add: grows_def log_keep)
  next
    case False
    then show ?thesis using f lead by (auto simp: grows_def)
  qed
qed

text \<open>A round's messages continue the leader's log from an index in it.\<close>

lemma heartBeatTo_form:
  assumes "log_wf r" and "heartBeatTo r k i = Inr (SendAppendEntries p args a)"
  shows "p = int i" "a = k" "contiguous (ae_prevlogindex args) (ae_entries args)" "set (ae_entries args) \<subseteq> set (logs r)"
    "ae_prevlogindex args + int (length (ae_entries args)) = getLastLogIndex r" "ae_term args = currentTerm r"
    "ae_leaderid args = raftId r" "lastSnapshotIncludeIndex r \<le> ae_prevlogindex args"
    "ae_prevlogindex args = lastSnapshotIncludeIndex r \<Longrightarrow> ae_prevlogterm args = lastSnapshotIncludeTerm r"
proof -
  from assms(2) obtain prev trm es where g: "getPrevLogInfo r (int i) = Inr (prev, trm)" "heartBeatEntries r prev = Inr es"
    "prev + int (length es) = getLastLogIndex r"
    and s: "SendAppendEntries p args a = SendAppendEntries (int i)
             \<lparr>ae_term = currentTerm r, ae_leaderid = raftId r, ae_prevlogindex = prev,
              ae_prevlogterm = trm, ae_entries = es, ae_leadercommit = commitIndex r\<rparr> k"
    unfolding heartBeatTo_def andThen_eq_Inr myAssert_eq_Inr
    by (auto simp: andThen_eq_Inr myAssert_eq_Inr split: if_splits)
  have es: "contiguous prev es \<and> set es \<subseteq> set (logs r) \<and> lastSnapshotIncludeIndex r \<le> prev"
  proof (cases "prev = lastSnapshotIncludeIndex r")
    case True
    then show ?thesis using g(2) assms(1) by (simp add: heartBeatEntries_def log_wf_contiguous)
  next
    case False
    with g(2) have e: "lastSnapshotIncludeIndex r < prev" "prev \<le> getLastLogIndex r"
      "es = drop (nat (prev - lastSnapshotIncludeIndex r)) (logs r)"
      by (auto simp: heartBeatEntries_def andThen_eq_Inr slices_Inr)
    have "contiguous (lastSnapshotIncludeIndex r + int (nat (prev - lastSnapshotIncludeIndex r))) es"
      unfolding e(3) by (rule contiguous_drop)
        (use e assms(1) lastLogIndex_wf[OF assms(1)] in \<open>simp_all add: log_wf_contiguous\<close>)
    then show ?thesis using e set_drop_subset by fastforce
  qed
  have "trm = lastSnapshotIncludeTerm r" if "prev = lastSnapshotIncludeIndex r"
    using g(1) that by (auto simp: getPrevLogInfo_def andThen_eq_Inr entryAt_def slices_Inr split: if_splits)
  with s es g(3) show "p = int i" "a = k" "contiguous (ae_prevlogindex args) (ae_entries args)" "set (ae_entries args) \<subseteq> set (logs r)"
    "ae_prevlogindex args + int (length (ae_entries args)) = getLastLogIndex r" "ae_term args = currentTerm r"
    "ae_leaderid args = raftId r" "lastSnapshotIncludeIndex r \<le> ae_prevlogindex args"
    "ae_prevlogindex args = lastSnapshotIncludeIndex r \<Longrightarrow> ae_prevlogterm args = lastSnapshotIncludeTerm r" by simp_all
qed

lemma list_all2_right: "list_all2 P xs ys \<Longrightarrow> \<forall>y\<in>set ys. \<exists>x\<in>set xs. P x y"
  by (induction rule: list_all2_induct) auto

lemma doHeartBeat_form:
  assumes "raft_inv r" and "doHeartBeat now r = Inr (r', sp)"
  shows "grows {} r r'" "logs r' = logs r" "getLastLogIndex r' = getLastLogIndex r"
    "currentTerm r' = currentTerm r" "status r' = status r"
    "lastSnapshotIncludeIndex r' = lastSnapshotIncludeIndex r" "lastSnapshotIncludeTerm r' = lastSnapshotIncludeTerm r"
    "nextIndex r' = nextIndex r" "matchIndex r' = matchIndex r" "length (appendNums r) \<le> length (appendNums r')"
    and "SendAppendEntries p args a \<in> set sp \<Longrightarrow>
      contiguous (ae_prevlogindex args) (ae_entries args) \<and> set (ae_entries args) \<subseteq> set (logs r) \<and>
      ae_prevlogindex args + int (length (ae_entries args)) = getLastLogIndex r \<and> ae_term args = currentTerm r \<and>
      ae_leaderid args = raftId r \<and> lastSnapshotIncludeIndex r \<le> ae_prevlogindex args \<and>
      (ae_prevlogindex args = lastSnapshotIncludeIndex r \<longrightarrow> ae_prevlogterm args = lastSnapshotIncludeTerm r) \<and>
      status r = Leader \<and> a < length (appendNums r') \<and> 0 \<le> p \<and> p < int (npeers r) \<and> p \<noteq> raftId r"
proof -
  let ?r = "r\<lparr>appendNums := appendNums r @ [1]\<rparr>"
  have "log_wf r" using assms(1) by (simp add: raft_inv_def)
  then have wf: "log_wf ?r" and last: "getLastLogIndex ?r = getLastLogIndex r"
    using log_funs_cong(2,3)[of ?r r] by simp_all
  have r': "r' = r \<and> sp = [] \<or> status r = Leader \<and> r' = r\<lparr>appendNums := appendNums r @ [1], lastResetHearBeatTime := now\<rparr> \<and>
      mapR (heartBeatTo ?r (length (appendNums r))) (filter (\<lambda>i. int i \<noteq> raftId r) [0..<npeers r]) = Inr sp"
    using assms(2) by (auto simp: doHeartBeat_def Let_def andThen_eq_Inr split: if_splits)
  then show g: "logs r' = logs r" "currentTerm r' = currentTerm r" "status r' = status r"
    "lastSnapshotIncludeIndex r' = lastSnapshotIncludeIndex r" "lastSnapshotIncludeTerm r' = lastSnapshotIncludeTerm r"
    "nextIndex r' = nextIndex r" "matchIndex r' = matchIndex r" "length (appendNums r) \<le> length (appendNums r')" by auto
  show "grows {} r r'" by (rule grows_same) (use g in auto)
  show "getLastLogIndex r' = getLastLogIndex r" using log_funs_cong(2)[OF g(1,4,5)] .
  assume "SendAppendEntries p args a \<in> set sp"
  with r' have lead: "status r = Leader" "r' = r\<lparr>appendNums := appendNums r @ [1], lastResetHearBeatTime := now\<rparr>"
    and l2: "list_all2 (\<lambda>x y. heartBeatTo ?r (length (appendNums r)) x = Inr y)
      (filter (\<lambda>i. int i \<noteq> raftId r) [0..<npeers r]) sp" by (auto simp: mapR_eq_Inr)
  from list_all2_right[OF l2] \<open>SendAppendEntries p args a \<in> set sp\<close> obtain i where i: "i < npeers r" "int i \<noteq> raftId r"
    and h: "heartBeatTo ?r (length (appendNums r)) i = Inr (SendAppendEntries p args a)" by force
  from heartBeatTo_form[OF wf h] last lead i show "contiguous (ae_prevlogindex args) (ae_entries args) \<and>
      set (ae_entries args) \<subseteq> set (logs r) \<and>
      ae_prevlogindex args + int (length (ae_entries args)) = getLastLogIndex r \<and> ae_term args = currentTerm r \<and>
      ae_leaderid args = raftId r \<and> lastSnapshotIncludeIndex r \<le> ae_prevlogindex args \<and>
      (ae_prevlogindex args = lastSnapshotIncludeIndex r \<longrightarrow> ae_prevlogterm args = lastSnapshotIncludeTerm r) \<and>
      status r = Leader \<and> a < length (appendNums r') \<and> 0 \<le> p \<and> p < int (npeers r) \<and> p \<noteq> raftId r" by simp
qed

text \<open>The follower's handler, on a message in order.\<close>

definition entering :: "int \<Rightarrow> appendEntriesArgs \<Rightarrow> raft \<Rightarrow> raft" where
  \<comment> \<open>the state in which it compares logs\<close>
  "entering now args r = (if ae_term args > currentTerm r
     then r\<lparr>status := Follower, currentTerm := ae_term args, votedFor := -1\<rparr> else r)
     \<lparr>status := Follower, lastResetElectionTime := now\<rparr>"

lemma entering_fields [simp]:
  "logs (entering now args r) = logs r" "lastSnapshotIncludeIndex (entering now args r) = lastSnapshotIncludeIndex r"
  "lastSnapshotIncludeTerm (entering now args r) = lastSnapshotIncludeTerm r" "status (entering now args r) = Follower"
  "commitIndex (entering now args r) = commitIndex r" "persister (entering now args r) = persister r"
  "currentTerm (entering now args r) = max (currentTerm r) (ae_term args)" "appendNums (entering now args r) = appendNums r"
  by (simp_all add: entering_def)

lemma entering_inv: "raft_inv (entering now args r) = raft_inv r"
  by (rule raft_inv_cong) (simp_all add: entering_def)

lemmas entering_log [simp] = log_funs_cong[OF entering_fields(1-3)]

lemma appendEntriesimpl_entering:
  "appendEntriesimpl C now args r =
     (if ae_term args < currentTerm r
      then Inr (\<lparr>aer_term = currentTerm r, aer_success = False, aer_updatenextindex = -100, aer_appstate = AppNormal\<rparr>, r)
      else andThen (appendEntriesBody args (entering now args r)) (\<lambda>(reply, r3). Inr (reply, persist C r3)))"
  by (simp add: appendEntriesimpl_def entering_def Let_def)

text \<open>Which of the cases of the body applies.\<close>

lemma appendBody_cases:
  fixes args :: appendEntriesArgs and r :: raft
  obtains (short) "ae_prevlogindex args > getLastLogIndex r"
    | (snapshotted) "ae_prevlogindex args \<le> getLastLogIndex r" "ae_prevlogindex args < lastSnapshotIncludeIndex r"
    | (mismatch) "lastSnapshotIncludeIndex r \<le> ae_prevlogindex args" "ae_prevlogindex args \<le> getLastLogIndex r"
        "ae_prevlogterm args \<noteq> termAt r (ae_prevlogindex args)"
    | (match) "lastSnapshotIncludeIndex r \<le> ae_prevlogindex args" "ae_prevlogindex args \<le> getLastLogIndex r"
        "ae_prevlogterm args = termAt r (ae_prevlogindex args)"
  by linarith

lemma storedLog_set: "set (storedLog l k es) \<subseteq> set l \<union> set es"
  by (auto simp: storedLog_def dest: in_set_takeD in_set_dropD)

lemma appendBody_log:
  assumes "raft_inv r" and "contiguous (ae_prevlogindex args) (ae_entries args)"
    and "appendEntriesBody args r = Inr (reply, r')"
  shows "set (logs r') \<subseteq> set (logs r) \<union> set (ae_entries args) \<and> status r' = status r"
proof (cases rule: appendBody_cases[where args = args and r = r])
  case mismatch
  then show ?thesis using appendBody_mismatch[OF assms(1) mismatch] assms(3) by auto
next
  case match
  then show ?thesis using appendBody_match(1)[OF assms(1) match assms(2)] assms(3) storedLog_set
    by (fastforce split: if_splits)
qed (use assms(3) in \<open>auto simp: appendBody_short appendBody_snapshotted\<close>)

lemma append_grows:
  assumes "raft_inv r" and "contiguous (ae_prevlogindex args) (ae_entries args)"
    and "appendEntriesimpl C now args r = Inr (reply, r')"
  shows "grows (set (ae_entries args)) r r'"
proof (cases "ae_term args < currentTerm r")
  case True
  then show ?thesis using assms(3) by (auto simp: appendEntriesimpl_entering grows_def)
next
  case False
  with assms(3) obtain r3 where "appendEntriesBody args (entering now args r) = Inr (reply, r3)" "r' = persist C r3"
    by (auto simp: appendEntriesimpl_entering andThen_eq_Inr)
  with appendBody_log[of "entering now args r" args reply r3] assms(1,2) show ?thesis
    by (auto simp: entering_inv grows_def)
qed

lemma local_grows:
  assumes "codec_ok C" and "server_inv C r" and "localStep C snaps r r'"
  shows "grows {} r r'"
  using assms(3)
proof cases
  case l_commit
  have "commitIndex r \<le> getLastLogIndex r" using assms(2) by (simp add: server_inv_def raft_inv_def)
  then obtain c where "r' = r\<lparr>commitIndex := c\<rparr>"
    using commitScan_form[of r "nat (getLastLogIndex r - commitIndex r)" r'] l_commit
    by (auto simp: leaderUpdateCommitIndex_def)
  then show ?thesis by (intro grows_same) auto
next
  case (l_apply ms)
  then show ?thesis using getApplyLogs_wf[of r] assms(2) by (intro grows_same) (auto simp: server_inv_def)
next
  case (l_snapshot index snap)
  show ?thesis
  proof (cases "index \<le> lastSnapshotIncludeIndex r \<or> commitIndex r < index")
    case True
    then show ?thesis using l_snapshot snapshot_ignored[OF True] by (simp add: grows_def)
  next
    case False
    then show ?thesis using l_snapshot snapshot_taken[where r = r and i = index] assms(2)
      by (auto simp: server_inv_def grows_def log_keep dest: in_set_dropD)
  qed
next
  case (l_install now sargs sreply sp)
  then show ?thesis using installSnapshot_eq[OF assms(1,2), of now sargs]
    by (auto simp: grows_def joined_def installed_def Let_def dest: in_set_dropD split: if_splits)
next
  case (l_installReply now peer sargs isOk sreply)
  then show ?thesis unfolding leaderSendSnapshot_def andThen_eq_Inr
    by (intro grows_same) (auto simp: andThen_eq_Inr split: if_splits)
qed

section \<open>What elections do to a server\<close>

text \<open>Its log stays, and if it leads afterwards it did before, or it has just won.\<close>

definition election_kept :: "codec \<Rightarrow> raft \<Rightarrow> raft \<Rightarrow> bool" where
  "election_kept C r r' \<longleftrightarrow> logs r' = logs r \<and> lastSnapshotIncludeIndex r' = lastSnapshotIncludeIndex r \<and>
     lastSnapshotIncludeTerm r' = lastSnapshotIncludeTerm r \<and> appendNums r' = appendNums r \<and>
     currentTerm r \<le> currentTerm r' \<and>
     (savedState C (persister r') = savedState C (persister r) \<or> savedState C (persister r') = Inr (hardState r')) \<and>
     (status r' = Leader \<longrightarrow> currentTerm r' = currentTerm r \<and>
        (if status r = Leader then nextIndex r' = nextIndex r \<and> matchIndex r' = matchIndex r
         else nextIndex r' = map (\<lambda>_. getLastLogIndex r + 1) (nextIndex r) \<and> matchIndex r' = map (\<lambda>_. 0) (nextIndex r)))"

lemma election_kept_refl [simp]: "election_kept C r r"
  by (simp add: election_kept_def)

lemma doElection_kept:
  assumes "codec_ok C" and "p_ok (persister r)" and "status r \<noteq> Leader" and "doElection C r = (r', sp)"
  shows "election_kept C r r'"
proof -
  note f = doElection_facts[OF assms]
  have "logs r' = logs r" "lastSnapshotIncludeIndex r' = lastSnapshotIncludeIndex r"
    "lastSnapshotIncludeTerm r' = lastSnapshotIncludeTerm r" "appendNums r' = appendNums r"
    using assms(3,4) by (auto simp: doElection_def Let_def split: prod.splits)
  with f show ?thesis by (simp add: election_kept_def)
qed

lemma requestVote_kept:
  assumes "codec_ok C" and "p_ok (persister r)" and "requestVoteImpl C now args r = (reply, r')"
  shows "election_kept C r r'"
proof -
  note f = requestVote_facts(1)[OF assms]
  have "logs r' = logs r" "lastSnapshotIncludeIndex r' = lastSnapshotIncludeIndex r"
    "lastSnapshotIncludeTerm r' = lastSnapshotIncludeTerm r" "appendNums r' = appendNums r"
    "currentTerm r \<le> currentTerm r'"
    "status r' = Leader \<longrightarrow> currentTerm r' = currentTerm r \<and> status r = Leader \<and> nextIndex r' = nextIndex r \<and>
      matchIndex r' = matchIndex r"
    using assms(3) by (auto simp: requestVoteImpl_def Let_def split: if_splits)
  with f show ?thesis by (simp add: election_kept_def)
qed

lemma sendRequestVote_kept:
  assumes "codec_ok C" and "p_ok (persister r)" and "sendRequestVote C isOk reply a r = Inr (r', sp)"
  shows "election_kept C r r'"
proof (cases "counted isOk reply r")
  case False
  let ?s = "r\<lparr>status := Follower, currentTerm := rvr_term reply, votedFor := -1\<rparr>"
  have "p_ok (persister ?s)" using assms(2) by simp
  note saved = persist_saved(1)[OF assms(1) this]
  show ?thesis using False assms(3) saved
    by (auto simp: sendRequestVote_def counted_def election_kept_def split: if_splits)
next
  case True
  then have body: "andThen (vecGet (voteNums r) (int a)) (\<lambda>n.
        let r1 = r\<lparr>voteNums := (voteNums r)[a := n + 1]\<rparr>
        in if n + 1 \<ge> majority r1
           then andThen (myAssert (status r1 \<noteq> Leader)) (\<lambda>_.
             Inr (r1\<lparr>voteNums := (voteNums r1)[a := 0], status := Leader,
                     nextIndex := map (\<lambda>_. getLastLogIndex r1 + 1) (nextIndex r1),
                     matchIndex := map (\<lambda>_. 0) (nextIndex r1)\<rparr>, [DoHeartBeat]))
           else Inr (r1, [])) = Inr (r', sp)" using assms(3) by (simp add: sendRequestVote_def counted_def)
  have "getLastLogIndex (r\<lparr>voteNums := v\<rparr>) = getLastLogIndex r" for v by (rule log_funs_cong(2)) simp_all
  with body show ?thesis
    by (auto simp: andThen_eq_Inr myAssert_eq_Inr Let_def election_kept_def split: if_splits)
qed

lemma voteStep_kept:
  assumes "codec_ok C" and "cluster_inv C n c" and "voteStep C n c c'" and "j < n"
  shows "election_kept C (servers c j) (servers c' j)"
proof -
  have ok: "p_ok (persister (servers c j))"
    using assms(2,4) by (simp add: cluster_inv_def member_ok_def server_inv_def)
  from assms(3) show ?thesis
  proof cases
    case (c_elect i r' sp)
    then show ?thesis using doElection_kept[OF assms(1), of "servers c i" r' sp] ok by (cases "j = i") auto
  next
    case (c_vote i args now reply r')
    then show ?thesis using requestVote_kept[OF assms(1), of "servers c i" now args reply r'] ok by (cases "j = i") auto
  next
    case (c_reply i p args a isOk reply r' sp won)
    then show ?thesis using sendRequestVote_kept[OF assms(1), of "servers c i" isOk reply a r' sp] ok by (cases "j = i") auto
  qed
qed

section \<open>A term is won once\<close>

text \<open>Who became leader of a term voted for itself in it, and the counter of that term, if it still exists, is
  marked as won.\<close>

definition wins_ok :: "cluster \<Rightarrow> bool" where
  "wins_ok c \<longleftrightarrow> (\<forall>i t. (i, t) \<in> leaderships c \<longrightarrow> (i, t, int i) \<in> ballots c \<and>
     (\<forall>G w. (t, G, w) \<in> set (elections c i) \<longrightarrow> w))"

lemma wins_ok_cong:
  assumes "ballots c' = ballots c" "leaderships c' = leaderships c" "elections c' = elections c"
  shows "wins_ok c' = wins_ok c"
  unfolding wins_ok_def assms ..

lemma wins_term:
  assumes "cluster_inv C n c" and "wins_ok c" and "(i, t) \<in> leaderships c"
  shows "t \<le> currentTerm (servers c i)" "i < n"
proof -
  show i: "i < n" using assms(1,3) by (simp add: cluster_inv_def history_ok_def)
  then have "voter_ok C (ballots c) i (servers c i)" using assms(1) by (simp add: cluster_inv_def member_ok_def)
  moreover have "(i, t, int i) \<in> ballots c" using assms(2,3) by (simp add: wins_ok_def)
  ultimately show "t \<le> currentTerm (servers c i)" unfolding voter_ok_def by blast
qed

text \<open>The step in which a server wins.\<close>

lemma reply_wins:
  assumes "codec_ok C" and inv: "cluster_inv C n c" and w: "(i, p, args, a) \<in> waiting c"
    and ans: "isOk \<Longrightarrow> (nat p, args, reply) \<in> answers c"
    and send: "sendRequestVote C isOk reply a (servers c i) = Inr (r', sp)"
    and won: "status (servers c i) \<noteq> Leader" "status r' = Leader"
  shows "counted isOk reply (servers c i)" "currentTerm r' = currentTerm (servers c i)"
    "(i, currentTerm r', int i) \<in> ballots c" "a < length (elections c i)"
    "fst (elections c i ! a) = currentTerm r'" "\<not> snd (snd (elections c i ! a))"
    "distinct (map fst (elections c i))"
proof -
  let ?r = "servers c i"
  have "i < n" using inv w unfolding cluster_inv_def network_ok_def by fastforce
  with inv have m: "tally_ok n (ballots c) i ?r (elections c i)" "npeers ?r = n" "p_ok (persister ?r)"
    by (simp_all add: cluster_inv_def member_ok_def server_inv_def)
  show cnt: "counted isOk reply ?r"
  proof (rule ccontr)
    assume "\<not> counted isOk reply ?r"
    from sendRequestVote_uncounted[OF assms(1) m(3) this, of a] send won show False by auto
  qed
  note A = waiting_answer[OF inv w ans cnt]
  have al: "a < length (voteNums ?r)" using m(1) A(2) by (auto simp: tally_ok_def dest: list_all2_lengthD)
  note E = counted_entry[OF m(1,2) A(1,2,3,4,5,6,7)]
  from sendRequestVote_counted[OF cnt al E(1), of C] send won
  have maj: "voteNums ?r ! a + 1 \<ge> majority ?r" "currentTerm r' = currentTerm ?r" by (auto split: if_splits)
  show "currentTerm r' = currentTerm ?r" using maj(2) .
  show "a < length (elections c i)" "fst (elections c i ! a) = currentTerm r'" using A maj(2) by simp_all
  show "\<not> snd (snd (elections c i ! a))" using E(2) maj(1) by simp
  show "(i, currentTerm r', int i) \<in> ballots c" using E(3) maj by auto
  show "distinct (map fst (elections c i))" using m(1) by (simp add: tally_ok_def)
qed

lemma win_fresh:
  assumes "codec_ok C" and "cluster_inv C n c" and "wins_ok c" and "voteStep C n c c'"
    and "status (servers c j) \<noteq> Leader" and "status (servers c' j) = Leader"
  shows "(j, currentTerm (servers c' j)) \<notin> leaderships c" "(j, currentTerm (servers c' j)) \<in> leaderships c'"
proof -
  have "j < n \<and> (j, currentTerm (servers c' j)) \<notin> leaderships c \<and> (j, currentTerm (servers c' j)) \<in> leaderships c'"
    using assms(4)
  proof cases
    case (c_elect i r' sp)
    have "p_ok (persister (servers c i))"
      using assms(2) c_elect(2) by (simp add: cluster_inv_def member_ok_def server_inv_def)
    then show ?thesis using doElection_kept[OF assms(1) _ c_elect(3,4)] assms(5,6) c_elect
        doElection_facts(3)[OF assms(1) _ c_elect(3,4)] by (cases "j = i") auto
  next
    case (c_vote i args now reply r')
    then show ?thesis using assms(5,6) by (cases "j = i") (auto simp: requestVoteImpl_def Let_def split: if_splits)
  next
    case (c_reply i p args a isOk reply r' sp won)
    then have ji: "j = i" "status r' = Leader" using assms(5,6) by (auto split: if_splits)
    note W = reply_wins[OF assms(1,2) c_reply(2,3,4) assms(5)[unfolded ji(1)] ji(2)]
    have "(fst (elections c i ! a), snd (elections c i ! a)) \<in> set (elections c i)" using W(4) by simp
    then have "(i, currentTerm r') \<notin> leaderships c"
      using assms(3) W(5,6) unfolding wins_ok_def by (metis prod.collapse)
    moreover have "i < n" using assms(2) c_reply(2) unfolding cluster_inv_def network_ok_def by fastforce
    ultimately show ?thesis using c_reply ji assms(5) by simp
  qed
  then show "(j, currentTerm (servers c' j)) \<notin> leaderships c" "(j, currentTerm (servers c' j)) \<in> leaderships c'" by blast+
qed

lemma tallyVote_mem:
  assumes "(t, G, w) \<in> set (tallyVote p a won es)" and "a < length es"
  shows "(\<exists>G. (t, G, w) \<in> set es) \<or> t = fst (es ! a) \<and> (w \<longleftrightarrow> snd (snd (es ! a)) \<or> won)"
  using assms by (cases "es ! a") (auto simp: tallyVote_def dest!: set_update_subset_insert[THEN subsetD])

text \<open>The flag of an election's counter after a counted vote.\<close>

lemma tallyVote_won:
  assumes "distinct (map fst es)" and a: "a < length es" and "(fst (es ! a), G, w) \<in> set (tallyVote v a True es)"
  shows w
proof -
  have d: "distinct (map fst (tallyVote v a True es))" using assms(1) tallyVote_fst[OF a] by simp
  have "length (tallyVote v a True es) = length es" using tallyVote_fst[OF a] by (metis length_map)
  then have "tallyVote v a True es ! a = (fst (es ! a), G, w)"
    using nth_same_fst[OF d assms(3)] a tallyVote_fst[OF a] by (metis nth_map)
  then show w using a by (auto simp: tallyVote_def split: prod.splits)
qed

lemma tallyVote_flags:
  assumes a: "a < length es" and "\<And>G w. (t, G, w) \<in> set es \<Longrightarrow> w" and "(t, G, w) \<in> set (tallyVote v a won es)"
  shows w
proof -
  have "(fst (es ! a), fst (snd (es ! a)), snd (snd (es ! a))) \<in> set es" using a by simp
  with tallyVote_mem[OF assms(3) a] assms(2) show w by metis
qed

lemma wins_step:
  assumes "codec_ok C" and "cluster_inv C n c" and "wins_ok c" and "voteStep C n c c'"
  shows "wins_ok c'"
  using assms(4)
proof cases
  case (c_elect i r' sp)
  have "p_ok (persister (servers c i))"
    using assms(2) c_elect(2) by (simp add: cluster_inv_def member_ok_def server_inv_def)
  from doElection_facts(1)[OF assms(1) this c_elect(3,4)]
  have "(i, currentTerm r') \<notin> leaderships c" using wins_term(1)[OF assms(2,3), of i "currentTerm r'"] by auto
  then show ?thesis using assms(3) c_elect(1) by (auto simp: wins_ok_def)
next
  case c_vote
  then show ?thesis using assms(3) by (auto simp: wins_ok_def)
next
  case (c_reply i p args a isOk reply r' sp won)
  have i: "i < n" using assms(2) c_reply(2) unfolding cluster_inv_def network_ok_def by fastforce
  then have m: "tally_ok n (ballots c) i (servers c i) (elections c i)" "waits_ok n (waiting c) i (elections c i)"
    using assms(2) by (simp_all add: cluster_inv_def member_ok_def)
  then have a: "a < length (elections c i)" using c_reply(2) unfolding waits_ok_def by blast
  note W = reply_wins[OF assms(1,2) c_reply(2,3,4)]
  have "(j, t, int j) \<in> ballots c \<and> (\<forall>G w. (t, G, w) \<in> set (elections c' j) \<longrightarrow> w)" if l: "(j, t) \<in> leaderships c'" for j t
  proof (cases "won \<and> (j, t) = (i, currentTerm r')")
    case True
    then have W: "counted isOk reply (servers c i)" "(i, t, int i) \<in> ballots c" "fst (elections c i ! a) = t"
      "distinct (map fst (elections c i))" "j = i" using W c_reply(5) by auto
    then have "w" if "(t, G, w) \<in> set (tallyVote (nat p) a won (elections c i))" for G w
      using tallyVote_won[OF W(4) a] that True by auto
    then show ?thesis using W True c_reply(1) by auto
  next
    case False
    then have old: "(j, t) \<in> leaderships c" using l c_reply(1) by (auto split: if_splits)
    then have o: "(j, t, int j) \<in> ballots c" "\<And>G w. (t, G, w) \<in> set (elections c j) \<Longrightarrow> w"
      using assms(3) by (auto simp: wins_ok_def)
    have "w" if "(t, G, w) \<in> set (tallyVote (nat p) a won (elections c i))" "j = i" for G w
      using tallyVote_flags[OF a _ that(1)] o(2) that(2) by blast
    then show ?thesis using o c_reply(1) by auto
  qed
  moreover have "ballots c' = ballots c" using c_reply(1) by simp
  ultimately show ?thesis by (auto simp: wins_ok_def)
qed

end
