(* ===== verification/RaftEntries.thy ===== *)
theory RaftEntries
  imports RaftReplicas
begin

text \<open>
  The entries of the logs of a cluster: index and term identify an entry everywhere, because a term has one
  leader, a server wins a term once, and a leader only appends.  Hence the assertion with which a follower
  guards against two commands at one index and term never fires on a message a leader sent.
\<close>

section \<open>The invariant\<close>

definition entryKey :: "logEntry \<Rightarrow> int \<times> int \<times> string" where
  "entryKey e = (logindex e, logterm e, command e)"

definition entries_ok :: "codec \<Rightarrow> (int \<times> int \<times> string) set \<Rightarrow> raft \<Rightarrow> bool" where
  \<comment> \<open>the log in memory and in the state file\<close>
  "entries_ok C E r \<longleftrightarrow> entryKey ` set (logs r) \<subseteq> E \<and>
     (\<forall>t v si st l. savedState C (persister r) = Inr (t, v, si, st, l) \<longrightarrow> entryKey ` set l \<subseteq> E)"

definition leads_all :: "(int \<times> int \<times> string) set \<Rightarrow> raft \<Rightarrow> bool" where
  \<comment> \<open>a leader's log reaches every entry of its term\<close>
  "leads_all E r \<longleftrightarrow> (status r = Leader \<longrightarrow> (\<forall>x c. (x, currentTerm r, c) \<in> E \<longrightarrow> x \<le> getLastLogIndex r))"

definition entry_source :: "cluster \<Rightarrow> (int \<times> int \<times> string) set \<Rightarrow> bool" where
  "entry_source c E \<longleftrightarrow> (\<forall>x t d. (x, t, d) \<in> E \<longrightarrow>
     (\<exists>i. (i, t) \<in> leaderships c) \<and> (\<forall>d'. (x, t, d') \<in> E \<longrightarrow> d' = d))"

definition message_ok :: "(int \<times> int \<times> string) set \<Rightarrow> appendEntriesArgs \<Rightarrow> bool" where
  "message_ok E args \<longleftrightarrow> contiguous (ae_prevlogindex args) (ae_entries args) \<and> entryKey ` set (ae_entries args) \<subseteq> E"

definition entries_inv :: "codec \<Rightarrow> nat \<Rightarrow> replicas \<Rightarrow> bool" where
  "entries_inv C n s \<longleftrightarrow> cluster_inv C n (voting s) \<and> wins_ok (voting s) \<and> entry_source (voting s) (created s) \<and>
     (\<forall>i<n. entries_ok C (created s) (node s i) \<and> leads_all (created s) (node s i)) \<and>
     (\<forall>(j, args)\<in>appends s. message_ok (created s) args)"

lemma entries_invI:
  assumes "cluster_inv C n (voting s)" "wins_ok (voting s)" "entry_source (voting s) (created s)"
    "\<And>i. i < n \<Longrightarrow> entries_ok C (created s) (node s i)" "\<And>i. i < n \<Longrightarrow> leads_all (created s) (node s i)"
    "\<And>j args. (j, args) \<in> appends s \<Longrightarrow> message_ok (created s) args"
  shows "entries_inv C n s"
  using assms unfolding entries_inv_def by blast

lemma entries_invD:
  assumes "entries_inv C n s"
  shows "cluster_inv C n (voting s)" "wins_ok (voting s)" "entry_source (voting s) (created s)"
    "\<And>i. i < n \<Longrightarrow> entries_ok C (created s) (node s i)" "\<And>i. i < n \<Longrightarrow> leads_all (created s) (node s i)"
    "\<And>j args. (j, args) \<in> appends s \<Longrightarrow> message_ok (created s) args"
    "\<And>i. i < n \<Longrightarrow> server_inv C (node s i)" "\<And>i. i < n \<Longrightarrow> raft_inv (node s i)"
    "\<And>i. i < n \<Longrightarrow> status (node s i) = Leader \<Longrightarrow> (i, currentTerm (node s i)) \<in> leaderships (voting s)"
    "\<And>i. i < n \<Longrightarrow> npeers (node s i) = n \<and> raftId (node s i) = int i"
proof -
  show c: "cluster_inv C n (voting s)" "wins_ok (voting s)" "entry_source (voting s) (created s)"
    "\<And>i. i < n \<Longrightarrow> entries_ok C (created s) (node s i)" "\<And>i. i < n \<Longrightarrow> leads_all (created s) (node s i)"
    "\<And>j args. (j, args) \<in> appends s \<Longrightarrow> message_ok (created s) args"
    using assms unfolding entries_inv_def by blast+
  then have m: "\<And>i. i < n \<Longrightarrow> member_ok C n (voting s) i" by (simp add: cluster_inv_def)
  then show "\<And>i. i < n \<Longrightarrow> server_inv C (node s i)" "\<And>i. i < n \<Longrightarrow> raft_inv (node s i)"
    "\<And>i. i < n \<Longrightarrow> status (node s i) = Leader \<Longrightarrow> (i, currentTerm (node s i)) \<in> leaderships (voting s)"
    "\<And>i. i < n \<Longrightarrow> npeers (node s i) = n \<and> raftId (node s i) = int i"
    by (simp_all add: member_ok_def server_inv_def)
qed

lemma entries_okD:
  assumes "entries_ok C E r" and "savedState C (persister r) = Inr (t, v, si, st, l)"
  shows "entryKey ` set l \<subseteq> E"
  using assms by (simp add: entries_ok_def)

lemma entries_ok_step:
  assumes "entries_ok C E r" and "set (logs r') \<subseteq> set (logs r) \<union> X" and "entryKey ` X \<subseteq> E'" and "E \<subseteq> E'"
    and "savedState C (persister r') = savedState C (persister r) \<or> savedState C (persister r') = Inr (hardState r')"
  shows "entries_ok C E' r'"
proof -
  have "entryKey ` set (logs r') \<subseteq> entryKey ` set (logs r) \<union> entryKey ` X"
    using image_mono[OF assms(2), of entryKey] by (simp add: image_Un)
  also have "\<dots> \<subseteq> E'" using assms(1,3,4) unfolding entries_ok_def by (meson Un_least subset_trans)
  finally have log: "entryKey ` set (logs r') \<subseteq> E'" .
  have "entryKey ` set l \<subseteq> E'" if "savedState C (persister r') = Inr (t, v, si, st, l)" for t v si st l
    using assms(5)
  proof
    assume "savedState C (persister r') = savedState C (persister r)"
    then have "savedState C (persister r) = Inr (t, v, si, st, l)" using that by simp
    from entries_okD[OF assms(1) this] have "entryKey ` set l \<subseteq> E" .
    then show ?thesis using assms(4) by (rule subset_trans)
  next
    assume "savedState C (persister r') = Inr (hardState r')"
    then show ?thesis using that log by (simp add: hardState_def)
  qed
  with log show ?thesis unfolding entries_ok_def by blast
qed

lemma entries_ok_mono: "entries_ok C E r \<Longrightarrow> E \<subseteq> E' \<Longrightarrow> entries_ok C E' r"
  by (rule entries_ok_step[where r = r and X = "{}"]) simp_all

lemma message_ok_mono: "message_ok E args \<Longrightarrow> E \<subseteq> E' \<Longrightarrow> message_ok E' args"
  unfolding message_ok_def by blast

lemma leads_all_grows: "leads_all E r \<Longrightarrow> grows X r r' \<Longrightarrow> leads_all E r'"
  unfolding leads_all_def grows_def by fastforce

lemma entry_source_mono:
  assumes "entry_source c E" and "leaderships c \<subseteq> leaderships c'"
  shows "entry_source c' E"
  using assms unfolding entry_source_def by blast

section \<open>Every step keeps it\<close>

text \<open>A step of one server that only takes entries that are there.\<close>

lemma entries_node_step:
  assumes inv: "entries_inv C n s" and i: "i < n"
    and step: "otherStep C (node s i) r'" and C: "codec_ok C"
    and grows: "grows X (node s i) r'" and X: "entryKey ` X \<subseteq> created s"
    and s': "voting s' = voting (setNode i r' s)" "created s' = created s"
    and msgs: "\<And>j args. (j, args) \<in> appends s' \<Longrightarrow> (j, args) \<notin> appends s \<Longrightarrow> message_ok (created s) args"
  shows "entries_inv C n s'"
proof -
  note D = entries_invD[OF inv]
  have k: "votes_kept C (node s i) r'" using otherStep_keeps[OF step C D(7)[OF i]] by simp
  have "set (logs r') \<subseteq> set (logs (node s i)) \<union> X" using grows by (simp add: grows_def)
  moreover have "savedState C (persister r') = savedState C (persister (node s i)) \<or>
      savedState C (persister r') = Inr (hardState r')" using k by (simp add: votes_kept_def)
  ultimately have new: "entries_ok C (created s) r'" "leads_all (created s) r'"
    using entries_ok_step[OF D(4)[OF i] _ X subset_refl] leads_all_grows[OF D(5)[OF i] grows] by blast+
  have cl: "cluster_inv C n (voting s')" using cluster_other[OF C D(1) i step] s'(1) by (simp add: setNode_def)
  have same: "node s' j = (if j = i then r' else node s j)" for j unfolding s'(1) by simp
  have hist: "ballots (voting s') = ballots (voting s)" "elections (voting s') = elections (voting s)"
    "leaderships (voting s') = leaderships (voting s)" unfolding s'(1) by simp_all
  have "wins_ok (voting s')" using D(2) wins_ok_cong[OF hist(1,3,2)] by simp
  moreover have "entry_source (voting s') (created s')" using D(3) by (simp add: entry_source_def hist s'(2))
  moreover have "message_ok (created s) args" if "(j, args) \<in> appends s'" for j args
    using msgs[OF that] D(6) by (cases "(j, args) \<in> appends s") simp_all
  ultimately show ?thesis using cl new D(4,5) by (intro entries_invI) (auto simp: same s'(2))
qed

lemma entries_vote:
  assumes C: "codec_ok C" and inv: "entries_inv C n s" and step: "voteStep C n (voting s) c"
  shows "entries_inv C n (s\<lparr>voting := c\<rparr>)"
proof -
  note D = entries_invD[OF inv]
  have cl: "cluster_inv C n c" using cluster_vote_inv[OF C D(1) step] .
  have lsub: "leaderships (voting s) \<subseteq> leaderships c" using step by (cases rule: voteStep.cases) auto
  have "entries_ok C (created s) (servers c i) \<and> leads_all (created s) (servers c i)" if i: "i < n" for i
  proof
    note k = voteStep_kept[OF C D(1) step i, unfolded election_kept_def]
    show "entries_ok C (created s) (servers c i)"
      by (rule entries_ok_step[OF D(4)[OF i], of _ "{}"]) (use k in auto)
    have last: "getLastLogIndex (servers c i) = getLastLogIndex (node s i)" using k log_funs_cong(2) by blast
    show "leads_all (created s) (servers c i)"
    proof (cases "status (node s i) = Leader")
      case True
      then show ?thesis using k last D(5)[OF i] by (simp add: leads_all_def)
    next
      case False
      have "(x, currentTerm (servers c i), d) \<notin> created s" if lead: "status (servers c i) = Leader" for x d
      proof
        assume "(x, currentTerm (servers c i), d) \<in> created s"
        then obtain k where k: "(k, currentTerm (servers c i)) \<in> leaderships (voting s)"
          using D(3) unfolding entry_source_def by blast
        note w = win_fresh[OF C D(1,2) step False lead]
        have "k = i" using one_leader_per_term[OF cl] k w(2) lsub by blast
        with k w(1) show False by simp
      qed
      then show ?thesis by (simp add: leads_all_def)
    qed
  qed
  then show ?thesis
    using cl wins_step[OF C D(1,2) step] entry_source_mono[OF D(3) lsub] D(6) by (intro entries_invI) simp_all
qed

lemma entries_restart:
  assumes C: "codec_ok C" and inv: "entries_inv C n s" and i: "i < n"
    and init: "initRaft C n (int i) (persister (node s i)) now = Inr r'"
  shows "entries_inv C n (s\<lparr>voting := restarted i r' (voting s), appendThreads := T\<rparr>)"
proof -
  note D = entries_invD[OF inv]
  have cl: "cluster_inv C n (restarted i r' (voting s))"
    using cluster_restart[OF D(1) i init] by (simp add: restarted_def)
  have ok: "p_ok (persister (node s i))" "saved_ok C (persister (node s i))"
    using D(7)[OF i] by (simp_all add: server_inv_def)
  from initRaft_inv[OF ok, of n "int i" now] init
  have f: "persister r' = persister (node s i)" "savedState C (persister (node s i)) = Inr (hardState r')" by auto
  have "status r' = Follower" using initRaft_fresh[OF init] by simp
  then have lead: "leads_all (created s) r'" by (simp add: leads_all_def)
  have "entryKey ` set (logs r') \<subseteq> created s" using entries_okD[OF D(4)[OF i] f(2)[unfolded hardState_def]] .
  then have ent: "entries_ok C (created s) r'" using D(4)[OF i] f(1) unfolding entries_ok_def by simp
  have "wins_ok (restarted i r' (voting s))" using D(2) by (auto simp: wins_ok_def)
  moreover have "entry_source (restarted i r' (voting s)) (created s)" using D(3) by (simp add: entry_source_def)
  ultimately show ?thesis using cl lead ent D(4-6) by (intro entries_invI) simp_all
qed

lemma entries_command:
  assumes C: "codec_ok C" and inv: "entries_inv C n s" and i: "i < n"
    and start: "start C op (node s i) = ((x, t, isLeader), r')"
  shows "entries_inv C n ((setNode i r' s)\<lparr>created := (if isLeader then insert (x, t, op) (created s) else created s)\<rparr>)"
    (is "entries_inv C n ?s")
proof (cases isLeader)
  case False
  note D = entries_invD[OF inv]
  have "r' = node s i" using start_grows(5)[OF D(8)[OF i] start] False by simp
  moreover have "setNode i (node s i) s = s" by (simp add: setNode_def)
  ultimately show ?thesis using inv False by simp
next
  case True
  note D = entries_invD[OF inv]
  let ?e = "\<lparr>command = op, logterm = currentTerm (node s i), logindex = getLastLogIndex (node s i) + 1\<rparr>"
  let ?E = "insert (entryKey ?e) (created s)"
  note g = start_grows[OF D(8)[OF i] start]
  have lead: "status (node s i) = Leader" and xt: "(x, t, op) = entryKey ?e" using g(2,3) True by (simp_all add: entryKey_def)
  have last: "getLastLogIndex r' = getLastLogIndex (node s i) + 1" using g(4) True by simp
  have step: "otherStep C (node s i) r'" using start by (rule command_)
  note k = otherStep_keeps[OF step C D(7)[OF i], THEN conjunct2, unfolded votes_kept_def]
  have "entries_ok C ?E r'"
    by (rule entries_ok_step[OF D(4)[OF i], of _ "{?e}"]) (use g(1) k in \<open>auto simp: grows_def\<close>)
  moreover have "leads_all ?E r'"
    using D(5)[OF i] lead g(1) last k by (fastforce simp: leads_all_def grows_def entryKey_def)
  moreover have "leads_all ?E (node s j)" if j: "j < n" "j \<noteq> i" for j
  proof -
    have "currentTerm (node s j) \<noteq> currentTerm (node s i)" if "status (node s j) = Leader"
      using one_leader_per_term[OF D(1) D(9)[OF j(1) that]] D(9)[OF i lead] j(2) by metis
    then show ?thesis using D(5)[OF j(1)] by (auto simp: leads_all_def entryKey_def)
  qed
  moreover have "entry_source (voting s) ?E"
  proof -
    have fresh: "(getLastLogIndex (node s i) + 1, currentTerm (node s i), d) \<notin> created s" for d
      using D(5)[OF i] lead unfolding leads_all_def by fastforce
    show ?thesis using D(3) D(9)[OF i lead] fresh unfolding entry_source_def entryKey_def by auto
  qed
  moreover have "cluster_inv C n (voting (setNode i r' s))" using cluster_other[OF C D(1) i step] by (simp add: setNode_def)
  moreover have "wins_ok (voting (setNode i r' s))"
    using D(2) wins_ok_cong[OF setNode_fields(5,7,6)] by simp
  moreover have "entry_source (voting (setNode i r' s)) ?E"
    using calculation(4) by (simp add: entry_source_def)
  ultimately show ?thesis
    using True D(4,6) entries_ok_mono[OF _ subset_insertI] message_ok_mono[OF _ subset_insertI]
    by (intro entries_invI) (simp_all add: xt)
qed

lemma entries_step:
  assumes C: "codec_ok C" and inv: "entries_inv C n s" and step: "replicaStep C n snaps s s'"
  shows "entries_inv C n s'"
  using step
proof cases
  case (r_vote c)
  then show ?thesis using entries_vote[OF C inv] by simp
next
  case (r_restart i now r')
  then show ?thesis using entries_restart[OF C inv] by simp
next
  case (r_command i op x t isLeader r')
  then show ?thesis using entries_command[OF C inv] by simp
next
  case (r_heartBeat i now r' sp)
  note D = entries_invD[OF inv]
  note h = doHeartBeat_form[OF D(8)[OF r_heartBeat(2)] r_heartBeat(3)]
  have msg: "message_ok (created s) args" if "(j, args) \<in> sentAppends sp" for j args
  proof -
    from that obtain p a where "SendAppendEntries p args a \<in> set sp" by (auto simp: sentAppends_def)
    with h(11) have "contiguous (ae_prevlogindex args) (ae_entries args)" "set (ae_entries args) \<subseteq> set (logs (node s i))"
      by blast+
    moreover have "entryKey ` set (logs (node s i)) \<subseteq> created s" using D(4)[OF r_heartBeat(2)] by (simp add: entries_ok_def)
    ultimately show ?thesis using image_mono subset_trans unfolding message_ok_def by metis
  qed
  show ?thesis
    by (rule entries_node_step[OF inv r_heartBeat(2) heartBeat[OF r_heartBeat(3)] C h(1)])
      (use r_heartBeat(1) msg in auto)
next
  case (r_append j args now reply r')
  note D = entries_invD[OF inv]
  have m: "message_ok (created s) args" using D(6) r_append(3) by simp
  then have cont: "contiguous (ae_prevlogindex args) (ae_entries args)" by (simp add: message_ok_def)
  show ?thesis
    by (rule entries_node_step[OF inv r_append(2) append[OF cont r_append(4)] C append_grows[OF D(8)[OF r_append(2)] cont r_append(4)]])
      (use r_append(1) m in \<open>auto simp: message_ok_def\<close>)
next
  case (r_reply i p args a isOk reply r')
  show ?thesis
    by (rule entries_node_step[OF inv r_reply(3) appendReply[OF r_reply(5)] C sendAppendEntries_grows[OF r_reply(5)]])
      (use r_reply(1) in auto)
next
  case (r_local i r')
  have other: "otherStep C (node s i) r'" using r_local(3) by cases (auto intro: otherStep.intros)
  show ?thesis
    by (rule entries_node_step[OF inv r_local(2) other C local_grows[OF C entries_invD(7)[OF inv r_local(2)] r_local(3)]])
      (use r_local(1) in auto)
qed

lemma entries_init:
  assumes "replicaInit C n s"
  shows "entries_inv C n s"
proof -
  have cl: "cluster_inv C n (voting s)" and l: "leaderships (voting s) = {}"
    using assms cluster_init_inv by (auto simp: replicaInit_def clusterInit_def)
  have first: "status (node s i) = Follower \<and> logs (node s i) = [] \<and> savedState C (persister (node s i)) = Inr (0, -1, 0, 0, [])"
    if i: "i < n" for i
  proof -
    from assms i obtain p now where p: "p_ok p" "saved_ok C p" "initRaft C n (int i) p now = Inr (node s i)"
      unfolding replicaInit_def clusterInit_def by blast
    from initRaft_inv[OF p(1,2), of n "int i" now] p(3) have "persister (node s i) = p" "savedState C p = Inr (hardState (node s i))"
      by auto
    then show ?thesis using assms i initRaft_fresh[OF p(3)] by (auto simp: replicaInit_def hardState_def)
  qed
  show ?thesis
    by (rule entries_invI)
      (use cl l first assms in \<open>auto simp: wins_ok_def entry_source_def entries_ok_def leads_all_def replicaInit_def\<close>)
qed

definition guardedReplicas :: "codec \<Rightarrow> nat \<Rightarrow> bool \<Rightarrow> replicas \<Rightarrow> replicas \<Rightarrow> bool" where
  "guardedReplicas C n snaps s s' \<longleftrightarrow> codec_ok C \<and> replicaStep C n snaps s s'"

interpretation replicas: invariant_of "replicaInit C n" "guardedReplicas C n snaps" "entries_inv C n" for C n snaps
  by unfold_locales (auto simp: guardedReplicas_def entries_init entries_step)

lemma replicas_reach_inv:
  assumes "codec_ok C" and "reach (replicaInit C n) (replicaStep C n snaps) s"
  shows "entries_inv C n s"
proof -
  have "guardedReplicas C n snaps = replicaStep C n snaps" using assms(1) by (intro ext) (simp add: guardedReplicas_def)
  then show ?thesis using replicas.reach_inv[of C n snaps s] assms(2) by simp
qed

text \<open>The replicas are a cluster: what holds of its elections holds here.\<close>

lemma replicas_simulate:
  assumes inv: "entries_inv C n s" and step: "replicaStep C n snaps s s'"
  shows "clusterStep C n (voting s) (voting s')"
  using step
proof cases
  case (r_vote c)
  then show ?thesis by (simp add: c_votes)
next
  case (r_restart i now r')
  then show ?thesis using c_restart[of i n C "voting s" now r'] by (simp add: restarted_def)
next
  case (r_append j args now reply r')
  have "contiguous (ae_prevlogindex args) (ae_entries args)"
    using entries_invD(6)[OF inv r_append(3)] by (simp add: message_ok_def)
  then show ?thesis using r_append c_other[OF r_append(2) append[OF _ r_append(4)]] by (simp add: setNode_def)
next
  case (r_local i r')
  have "otherStep C (node s i) r'" using r_local(3) by cases (auto intro: otherStep.intros)
  then show ?thesis using r_local by (simp add: setNode_def c_other)
next
  case (r_command i op x t isLeader r')
  then show ?thesis using c_other[OF r_command(2) command_[OF r_command(3)]] by (simp add: setNode_def)
next
  case (r_heartBeat i now r' sp)
  then show ?thesis using c_other[OF r_heartBeat(2) heartBeat[OF r_heartBeat(3)]] by (simp add: setNode_def)
next
  case (r_reply i p args a isOk reply r')
  then show ?thesis using c_other[OF r_reply(3) appendReply[OF r_reply(5)]] by (simp add: setNode_def)
qed

section \<open>No two commands at one index and term\<close>

lemma entry_unique:
  assumes "entry_source c E" and "entryKey e \<in> E" and "entryKey f \<in> E"
    and "logindex e = logindex f" and "logterm e = logterm f"
  shows "e = f"
proof -
  have "command e = command f" using assms unfolding entry_source_def entryKey_def by metis
  with assms(4,5) show ?thesis by simp
qed

lemma no_clash:
  assumes inv: "entries_inv C n s" and j: "j < n" and msg: "(j', args) \<in> appends s"
    and range: "lastSnapshotIncludeIndex (node s j) \<le> ae_prevlogindex args"
  shows "\<not> clash (logs (node s j)) (nat (ae_prevlogindex args - lastSnapshotIncludeIndex (node s j))) (ae_entries args)"
proof
  let ?r = "node s j" and ?k = "nat (ae_prevlogindex args - lastSnapshotIncludeIndex (node s j))"
  note D = entries_invD[OF inv]
  have m: "contiguous (ae_prevlogindex args) (ae_entries args)" "entryKey ` set (ae_entries args) \<subseteq> created s"
    using D(6)[OF msg] by (simp_all add: message_ok_def)
  have wf: "log_wf ?r" "entryKey ` set (logs ?r) \<subseteq> created s"
    using D(8)[OF j] D(4)[OF j] by (simp_all add: raft_inv_def entries_ok_def)
  assume "clash (logs ?r) ?k (ae_entries args)"
  then obtain x where x: "x < length (ae_entries args)" "?k + x < length (logs ?r)"
    "logterm (logs ?r ! (?k + x)) = logterm (ae_entries args ! x)"
    "command (logs ?r ! (?k + x)) \<noteq> command (ae_entries args ! x)" unfolding clash_def by blast
  have "logindex (logs ?r ! (?k + x)) = logindex (ae_entries args ! x)"
    using m(1) wf(1) x range by (simp add: contiguous_def log_wf_def)
  moreover have "entryKey (logs ?r ! (?k + x)) \<in> created s" "entryKey (ae_entries args ! x) \<in> created s"
    using wf(2) m(2) x by (meson image_subset_iff nth_mem)+
  ultimately show False using entry_unique[OF D(3)] x(3,4) by metis
qed

lemma follower_returns:
  assumes inv: "entries_inv C n s" and j: "j < n" and msg: "(j', args) \<in> appends s"
  shows "\<exists>reply r'. appendEntriesimpl C now args (node s j) = Inr (reply, r')"
proof (cases "ae_term args < currentTerm (node s j)")
  case True
  then show ?thesis by (simp add: appendEntriesimpl_entering)
next
  case False
  let ?r = "entering now args (node s j)"
  have r: "raft_inv ?r" using entries_invD(8)[OF inv j] by (simp add: entering_inv)
  have cont: "contiguous (ae_prevlogindex args) (ae_entries args)"
    using entries_invD(6)[OF inv msg] by (simp add: message_ok_def)
  have "\<exists>reply r3. appendEntriesBody args ?r = Inr (reply, r3)"
  proof (cases rule: appendBody_cases[where args = args and r = ?r])
    case mismatch
    then show ?thesis using appendBody_mismatch[OF r mismatch] by blast
  next
    case match
    then have "\<not> clash (logs ?r) (nat (ae_prevlogindex args - lastSnapshotIncludeIndex ?r)) (ae_entries args)"
      using no_clash[OF inv j msg] by simp
    then show ?thesis using appendBody_match(1)[OF r match cont] by simp
  qed (simp_all add: appendBody_short appendBody_snapshotted)
  then show ?thesis using False by (auto simp: appendEntriesimpl_entering)
qed

end
