(* ===== verification/RaftTheorems.thy ===== *)
theory RaftTheorems
  imports RaftCluster
begin

text \<open>
  The properties of the Raft layer: election safety of the cluster, the invariant and durability
  of a server, and the functional behaviour of its handlers.
\<close>

section \<open>Example servers\<close>

definition sampleServer :: "nat \<Rightarrow> nat \<Rightarrow> raft" where
  \<comment> \<open>member \<open>i\<close> of \<open>n\<close> after its first start\<close>
  "sampleServer n i = \<lparr>npeers = n, raftId = int i, currentTerm = 0, votedFor = -1, logs = [],
     commitIndex = 0, lastApplied = 0, nextIndex = replicate n 0, matchIndex = replicate n 0,
     status = Follower, lastResetElectionTime = 0, lastResetHearBeatTime = 0,
     lastSnapshotIncludeIndex = 0, lastSnapshotIncludeTerm = 0,
     persister = newPersister (int i) Map.empty [], voteNums = [], appendNums = []\<rparr>"

lemma fresh_files: "ReadRaftState (newPersister i Map.empty []) = []"
  by (simp add: newPersister_def ReadRaftState_def ReadRawData_def Let_def)

lemma sampleServer_init:
  "initRaft C n (int i) (newPersister (int i) Map.empty []) 0 = Inr (sampleServer n i)"
  "saved_ok C (newPersister (int i) Map.empty [])"
  "savedState C (persister (sampleServer n i)) = Inr (0, -1, 0, 0, [])"
  by (simp_all add: initRaft_def readPersist_def fresh_files sampleServer_def saved_ok_def savedState_def)

lemma sampleServer_inv: "server_inv C (sampleServer n i)"
  using initRaft_inv[OF newPersister_ok[of "int i"] sampleServer_init(2), of C n "int i" 0]
    sampleServer_init(1)[of C n i] by auto

lemma sampleServer_serverInit: "serverInit C (sampleServer n i)"
  unfolding serverInit_def using sampleServer_init newPersister_ok by blast

definition sampleCluster :: "nat \<Rightarrow> cluster" where
  "sampleCluster n = \<lparr>servers = sampleServer n, requests = {}, answers = {}, waiting = {}, ballots = {},
     elections = (\<lambda>_. []), leaderships = {}\<rparr>"

lemma sampleCluster_init: "clusterInit C n (sampleCluster n)"
  unfolding clusterInit_def sampleCluster_def using sampleServer_init newPersister_ok by fastforce

section \<open>Elections\<close>

lemma cluster_reach_inv:
  assumes "codec_ok C" and "reach (clusterInit C n) (clusterStep C n) c"
  shows "cluster_inv C n c"
proof -
  have "guardedCluster C n = clusterStep C n" using assms(1) by (intro ext) (simp add: guardedCluster_def)
  then show ?thesis using cluster.reach_inv[of C n c] assms(2) by simp
qed

text \<open>A run in which server 0 of two is elected.\<close>

lemma sample_candidate:
  "\<exists>c args. reach (\<lambda>c. c = sampleCluster 2) (voteStep sampleCodec 2) c \<and>
     (1, args) \<in> requests c \<and> (0, 1, args, 0) \<in> waiting c \<and> servers c 1 = sampleServer 2 1 \<and>
     currentTerm (servers c 0) = 1 \<and> status (servers c 0) = Candidate \<and> voteNums (servers c 0) = [1] \<and>
     npeers (servers c 0) = 2 \<and> rv_term args = 1 \<and> rv_candidateid args = 0 \<and>
     rv_lastlogindex args = 0 \<and> rv_lastlogterm args = 0 \<and> elections c 0 = [(1, {}, False)]"
proof -
  let ?c = "sampleCluster 2" and ?r = "sampleServer 2 0"
  obtain r' sp where el: "doElection sampleCodec ?r = (r', sp)" by fastforce
  have p: "p_ok (persister ?r)" and nl: "status ?r \<noteq> Leader"
    using newPersister_ok by (simp_all add: sampleServer_def)
  note f = doElection_facts[OF sampleCodec_ok p nl el]
  have log: "logs r' = [] \<and> lastSnapshotIncludeIndex r' = 0 \<and> lastSnapshotIncludeTerm r' = 0"
    using el by (auto simp: doElection_def sampleServer_def getLastLogIndexAndTerm_def split: prod.splits)
  define args where "args = \<lparr>rv_term = 1, rv_candidateid = 0, rv_lastlogindex = 0, rv_lastlogterm = 0\<rparr>"
  have sp: "SendRequestVote 1 args 0 \<in> set sp"
    using el by (auto simp: doElection_def sampleServer_def getLastLogIndexAndTerm_def args_def
        numeral_2_eq_2 split: prod.splits)
  let ?c' = "?c\<lparr>servers := (servers ?c)(0 := r'),
      requests := requests ?c \<union> sentVotes sp, waiting := waiting ?c \<union> voteThreads 0 sp,
      ballots := insert (0, currentTerm r', int 0) (ballots ?c),
      elections := (elections ?c)(0 := elections ?c 0 @ [(currentTerm r', {}, False)])\<rparr>"
  have "voteStep sampleCodec 2 ?c ?c'"
    by (rule c_elect) (use el nl in \<open>simp_all add: sampleCluster_def\<close>)
  then have "reach (\<lambda>c. c = sampleCluster 2) (voteStep sampleCodec 2) ?c'"
    by (rule reach_step[rotated]) (simp add: reach_init)
  moreover have "(1, args) \<in> sentVotes sp" unfolding sentVotes_def using sp
    by (intro CollectI exI[of _ 1] exI[of _ args] exI[of _ 0]) simp
  moreover have "(0, 1, args, 0) \<in> voteThreads 0 sp" using sp by (simp add: voteThreads_def)
  moreover have "currentTerm r' = 1" "status r' = Candidate" "voteNums r' = [1]" "npeers r' = 2"
    using f by (simp_all add: sampleServer_def)
  ultimately show ?thesis
    by (intro exI[of _ ?c'] exI[of _ args]) (simp add: sampleCluster_def args_def)
qed

lemma sample_elected:
  "\<exists>c. reach (\<lambda>c. c = sampleCluster 2) (voteStep sampleCodec 2) c \<and>
     status (servers c 0) = Leader \<and> currentTerm (servers c 0) = 1 \<and> (0, 1) \<in> leaderships c"
proof -
  from sample_candidate obtain c args where c: "reach (\<lambda>c. c = sampleCluster 2) (voteStep sampleCodec 2) c"
    "(1, args) \<in> requests c" "(0, 1, args, 0) \<in> waiting c" "servers c 1 = sampleServer 2 1"
    "currentTerm (servers c 0) = 1" "status (servers c 0) = Candidate" "voteNums (servers c 0) = [1]"
    "npeers (servers c 0) = 2" "rv_term args = 1" "rv_candidateid args = 0"
    "rv_lastlogindex args = 0" "rv_lastlogterm args = 0" by blast
  define reply where "reply = \<lparr>rvr_term = 1, rvr_votegranted = True, rvr_votestate = Normal\<rparr>"
  have "fst (requestVoteImpl sampleCodec 0 args (servers c 1)) = reply"
    using c(4,9-12) by (simp add: requestVoteImpl_def sampleServer_def reply_def upToDate_def
        getLastLogIndexAndTerm_def Let_def)
  then obtain r1 where v: "requestVoteImpl sampleCodec 0 args (servers c 1) = (reply, r1)"
    by (metis prod.collapse)
  let ?c2 = "c\<lparr>servers := (servers c)(1 := r1), answers := insert (1, args, reply) (answers c),
      ballots := (if rvr_votegranted reply then insert (1, rvr_term reply, rv_candidateid args) (ballots c)
                  else ballots c)\<rparr>"
  have "voteStep sampleCodec 2 c ?c2" by (rule c_vote[OF _ c(2) v]) simp
  with c(1) have reach2: "reach (\<lambda>c. c = sampleCluster 2) (voteStep sampleCodec 2) ?c2" by (rule reach_step)
  have cnt: "counted True reply (servers ?c2 0)" using c(5) by (simp add: counted_def reply_def)
  have "0 < length (voteNums (servers ?c2 0))" "status (servers ?c2 0) \<noteq> Leader"
    "voteNums (servers ?c2 0) ! 0 + 1 \<ge> majority (servers ?c2 0)"
    using c(6-8) by (simp_all add: majority_def)
  from sendRequestVote_counted[OF cnt this(1), of sampleCodec] this(2,3) obtain r' sp where
    s: "sendRequestVote sampleCodec True reply 0 (servers ?c2 0) = Inr (r', sp)"
    and r': "status r' = Leader" "currentTerm r' = 1" using c(5) by auto
  have w: "(0, 1, args, 0) \<in> waiting ?c2" and a: "(nat 1, args, reply) \<in> answers ?c2"
    using c(3) by simp_all
  have won: "True = (status (servers ?c2 0) \<noteq> Leader \<and> status r' = Leader)" using c(6) r'(1) by simp
  have "\<exists>c3. voteStep sampleCodec 2 ?c2 c3 \<and> servers c3 0 = r' \<and> (0, 1) \<in> leaderships c3"
    using c_reply[OF w a s won] r'(2) by fastforce
  then show ?thesis using reach_step[OF reach2] r' by blast
qed

lemma sample_reach:
  "reach (\<lambda>c. c = sampleCluster 2) (voteStep sampleCodec 2) c \<Longrightarrow>
   reach (clusterInit sampleCodec 2) (clusterStep sampleCodec 2) c"
  by (erule reach_mono) (simp_all add: sampleCluster_init c_votes)

text \<open>C1: in every reachable state of the cluster, with lost, delayed and repeated messages and restarts
  at any time, two servers that lead in the same term are the same server, and so are any two
  that ever became leader of one term.\<close>

theorem election_safety:
  assumes "codec_ok C" and "reach (clusterInit C n) (clusterStep C n) c"
  shows "(\<forall>i<n. \<forall>j<n. status (servers c i) = Leader \<and> status (servers c j) = Leader \<and>
      currentTerm (servers c i) = currentTerm (servers c j) \<longrightarrow> i = j) \<and>
    (\<forall>i j t. (i, t) \<in> leaderships c \<and> (j, t) \<in> leaderships c \<longrightarrow> i = j)"
proof -
  have inv: "cluster_inv C n c" using cluster_reach_inv[OF assms] .
  then have lead: "(i, currentTerm (servers c i)) \<in> leaderships c"
    if "i < n" "status (servers c i) = Leader" for i
    using that by (simp add: cluster_inv_def member_ok_def)
  show ?thesis using one_leader_per_term[OF inv] lead by metis
qed

theorem election_safety_witness:
  "\<exists>c::cluster. status (servers c 0) = Leader \<and> (0, 1) \<in> leaderships c \<and>
    (\<forall>i<2. \<forall>j<2. status (servers c i) = Leader \<and> status (servers c j) = Leader \<and>
      currentTerm (servers c i) = currentTerm (servers c j) \<longrightarrow> i = j) \<and>
    (\<forall>i j t. (i, t) \<in> leaderships c \<and> (j, t) \<in> leaderships c \<longrightarrow> i = j)"
proof -
  from sample_elected obtain c where c: "reach (clusterInit sampleCodec 2) (clusterStep sampleCodec 2) c"
    "status (servers c 0) = Leader" "(0, 1) \<in> leaderships c" using sample_reach by blast
  from election_safety[OF sampleCodec_ok c(1)] c(2,3) show ?thesis by blast
qed



text \<open>C13: a vote is granted exactly if the term is not stale, the candidate's log is at least as up to
  date, and no other vote was given in that term; the answer carries the voter's term, and the
  vote is in the state file when the answer leaves.\<close>

theorem requestVote_rule:
  assumes "codec_ok C" and "p_ok (persister r)"
  shows "case requestVoteImpl C now args r of (reply, r') \<Rightarrow>
    (rvr_votegranted reply \<longleftrightarrow> currentTerm r \<le> rv_term args \<and>
       upToDate r (rv_lastlogindex args) (rv_lastlogterm args) \<and>
       (currentTerm r < rv_term args \<or> votedFor r = -1 \<or> votedFor r = rv_candidateid args)) \<and>
    rvr_term reply = currentTerm r' \<and> currentTerm r' = max (currentTerm r) (rv_term args) \<and>
    (rvr_votegranted reply \<longrightarrow> votedFor r' = rv_candidateid args) \<and>
    savedState C (persister r') = Inr (hardState r') \<and> logs r' = logs r"
proof -
  obtain reply r' where v: "requestVoteImpl C now args r = (reply, r')" by fastforce
  have "upToDate (r\<lparr>status := Follower, currentTerm := rv_term args, votedFor := -1\<rparr>) i t = upToDate r i t" for i t
    by (simp add: upToDate_def getLastLogIndexAndTerm_def)
  then have "(rvr_votegranted reply \<longleftrightarrow> currentTerm r \<le> rv_term args \<and>
       upToDate r (rv_lastlogindex args) (rv_lastlogterm args) \<and>
       (currentTerm r < rv_term args \<or> votedFor r = -1 \<or> votedFor r = rv_candidateid args)) \<and>
    rvr_term reply = currentTerm r' \<and> currentTerm r' = max (currentTerm r) (rv_term args) \<and>
    (rvr_votegranted reply \<longrightarrow> votedFor r' = rv_candidateid args) \<and> logs r' = logs r"
    using v unfolding requestVoteImpl_def Let_def by (simp split: if_splits) auto
  then show ?thesis using requestVote_facts(1)[OF assms v] v by simp
qed

theorem requestVote_rule_witness:
  "case requestVoteImpl sampleCodec 7 \<lparr>rv_term = 3, rv_candidateid = 0, rv_lastlogindex = 0, rv_lastlogterm = 0\<rparr>
      (sampleServer 3 1) of (reply, r') \<Rightarrow>
    (rvr_votegranted reply \<longleftrightarrow> currentTerm (sampleServer 3 1) \<le> 3 \<and> upToDate (sampleServer 3 1) 0 0 \<and>
       (currentTerm (sampleServer 3 1) < 3 \<or> votedFor (sampleServer 3 1) = -1 \<or> votedFor (sampleServer 3 1) = 0)) \<and>
    rvr_term reply = currentTerm r' \<and> currentTerm r' = max (currentTerm (sampleServer 3 1)) 3 \<and>
    (rvr_votegranted reply \<longrightarrow> votedFor r' = 0) \<and>
    savedState sampleCodec (persister r') = Inr (hardState r') \<and> logs r' = logs (sampleServer 3 1)"
  using requestVote_rule[OF sampleCodec_ok, where r = "sampleServer 3 1" and now = 7 and
      args = "\<lparr>rv_term = 3, rv_candidateid = 0, rv_lastlogindex = 0, rv_lastlogterm = 0\<rparr>"]
  using sampleServer_inv[of sampleCodec 3 1] by (simp add: server_inv_def)

end
