(* ===== verification/RaftLogTheorems.thy ===== *)
theory RaftLogTheorems
  imports RaftTheorems
begin

text \<open>
  The properties of one server's log: its invariant over every run, restarts, replication,
  delivery, snapshots and commitment.
\<close>

section \<open>The invariant and restarts\<close>



text \<open>C15: a server that persisted and then crashed restarts with the same term, vote, snapshot position
  and log; it starts as a follower that has applied what its snapshot covers.\<close>

theorem restart_recovers:
  assumes "codec_ok C" and "p_ok (persister r)"
  shows "\<exists>r'. initRaft C (npeers r) (raftId r) (persister (persist C r)) now = Inr r' \<and>
    currentTerm r' = currentTerm r \<and> votedFor r' = votedFor r \<and> logs r' = logs r \<and>
    lastSnapshotIncludeIndex r' = lastSnapshotIncludeIndex r \<and>
    lastSnapshotIncludeTerm r' = lastSnapshotIncludeTerm r \<and>
    status r' = Follower \<and> commitIndex r' = 0 \<and> lastApplied r' = max 0 (lastSnapshotIncludeIndex r)"
  using persist_saved(1)[OF assms] by (simp add: initRaft_saved hardState_def)

theorem restart_recovers_witness:
  "\<exists>r'. initRaft sampleCodec (npeers (sampleServer 3 0)) (raftId (sampleServer 3 0))
      (persister (persist sampleCodec (sampleServer 3 0))) 9 = Inr r' \<and>
    currentTerm r' = currentTerm (sampleServer 3 0) \<and> votedFor r' = votedFor (sampleServer 3 0) \<and>
    logs r' = logs (sampleServer 3 0) \<and>
    lastSnapshotIncludeIndex r' = lastSnapshotIncludeIndex (sampleServer 3 0) \<and>
    lastSnapshotIncludeTerm r' = lastSnapshotIncludeTerm (sampleServer 3 0) \<and>
    status r' = Follower \<and> commitIndex r' = 0 \<and>
    lastApplied r' = max 0 (lastSnapshotIncludeIndex (sampleServer 3 0))"
  by (rule restart_recovers[OF sampleCodec_ok])
    (use sampleServer_inv[of sampleCodec 3 0] in \<open>simp add: server_inv_def\<close>)

section \<open>Replication\<close>

text \<open>A leader's \<open>start\<close> appends the command as the next entry of its term and persists it; any
  other server refuses and changes nothing.\<close>

theorem start_appends:
  assumes "raft_inv r"
  shows "start C op r =
    (if status r = Leader
     then ((getLastLogIndex r + 1, currentTerm r, True),
       persist C (r\<lparr>logs := logs r @ [\<lparr>command = op, logterm = currentTerm r, logindex = getLastLogIndex r + 1\<rparr>]\<rparr>))
     else ((-1, -1, False), r))"
  using start_leader(1)[OF assms, of C op] by (simp add: start_def)

theorem start_appends_witness:
  "start sampleCodec ''x'' (sampleServer 3 0) =
    (if status (sampleServer 3 0) = Leader
     then ((getLastLogIndex (sampleServer 3 0) + 1, currentTerm (sampleServer 3 0), True),
       persist sampleCodec ((sampleServer 3 0)\<lparr>logs := logs (sampleServer 3 0) @
         [\<lparr>command = ''x'', logterm = currentTerm (sampleServer 3 0),
           logindex = getLastLogIndex (sampleServer 3 0) + 1\<rparr>]\<rparr>))
     else ((-1, -1, False), sampleServer 3 0))"
  by (rule start_appends) (use sampleServer_inv[of sampleCodec 3 0] in \<open>simp add: server_inv_def\<close>)

text \<open>The message of a heartbeat round to peer \<open>i\<close>.\<close>

definition heartBeatMsg :: "raft \<Rightarrow> int \<Rightarrow> appendEntriesArgs" where
  "heartBeatMsg r next =
     \<lparr>ae_term = currentTerm r, ae_leaderid = raftId r, ae_prevlogindex = next - 1,
      ae_prevlogterm = termAt r (next - 1),
      ae_entries = drop (nat (next - 1 - lastSnapshotIncludeIndex r)) (logs r),
      ae_leadercommit = commitIndex r\<rparr>"

lemma heartBeatTo_wf:
  assumes inv: "raft_inv r" and i: "i < npeers r"
    and ni: "1 \<le> nextIndex r ! i" "nextIndex r ! i \<le> getLastLogIndex r + 1"
  shows "heartBeatTo r a i = Inr
     (if nextIndex r ! i \<le> lastSnapshotIncludeIndex r then LeaderSendSnapshot (int i)
      else SendAppendEntries (int i) (heartBeatMsg r (nextIndex r ! i)) a)"
proof -
  have wf: "log_wf r" and len: "length (nextIndex r) = npeers r" using inv by (simp_all add: raft_inv_def)
  have get: "vecGet (nextIndex r) (int i) = Inr (nextIndex r ! i)" using i len by (simp add: vecGet_def)
  note last = lastLogIndex_wf[OF wf]
  show ?thesis
  proof (cases "nextIndex r ! i \<le> lastSnapshotIncludeIndex r")
    case True
    then show ?thesis using get ni by (simp add: heartBeatTo_def)
  next
    case False
    let ?p = "nextIndex r ! i - 1" and ?S = "lastSnapshotIncludeIndex r"
    have prev: "getPrevLogInfo r (int i) = Inr (?p, termAt r ?p)"
    proof (cases "?p = ?S")
      case True
      then show ?thesis using get by (auto simp: getPrevLogInfo_def termAt_def algebra_simps)
    next
      case ne: False
      then show ?thesis using get False ni entryAt_wf(1)[OF wf, of ?p]
        by (auto simp: getPrevLogInfo_def termAt_def)
    qed
    have es: "heartBeatEntries r ?p = Inr (drop (nat (?p - ?S)) (logs r))"
      using False ni slices_wf[OF wf, of ?p] by (auto simp: heartBeatEntries_def algebra_simps)
    have "?p + int (length (drop (nat (?p - ?S)) (logs r))) = getLastLogIndex r"
      using False ni last by simp
    then show ?thesis using get ni False prev es
      by (simp add: heartBeatTo_def heartBeatMsg_def algebra_simps)
  qed
qed

text \<open>A leader whose \<open>nextIndex\<close> values lie in its log sends one message to every peer: the snapshot
  if the peer is behind it, and otherwise every entry after the peer's \<open>nextIndex - 1\<close>, with the
  term at that index; no assertion of the round fails.\<close>

lemma doHeartBeat_sends:
  assumes "raft_inv r" and "status r = Leader"
    and "\<forall>i<npeers r. int i \<noteq> raftId r \<longrightarrow> 1 \<le> nextIndex r ! i \<and> nextIndex r ! i \<le> getLastLogIndex r + 1"
  shows "doHeartBeat now r = Inr
    (r\<lparr>appendNums := appendNums r @ [1], lastResetHearBeatTime := now\<rparr>,
     map (\<lambda>i. if nextIndex r ! i \<le> lastSnapshotIncludeIndex r then LeaderSendSnapshot (int i)
              else SendAppendEntries (int i) (heartBeatMsg r (nextIndex r ! i)) (length (appendNums r)))
       (filter (\<lambda>i. int i \<noteq> raftId r) [0..<npeers r]))"
proof -
  let ?s = "r\<lparr>appendNums := appendNums r @ [1]\<rparr>"
  have inv: "raft_inv ?s" using raft_inv_cong[of ?s r] assms(1) by simp
  have same: "getLastLogIndex ?s = getLastLogIndex r" "heartBeatMsg ?s = heartBeatMsg r"
    using log_funs_cong(2)[of ?s r] by (auto simp: heartBeatMsg_def termAt_def slot_def fun_eq_iff)
  have "mapR (heartBeatTo ?s (length (appendNums r))) (filter (\<lambda>i. int i \<noteq> raftId r) [0..<npeers r]) = Inr
     (map (\<lambda>i. if nextIndex r ! i \<le> lastSnapshotIncludeIndex r then LeaderSendSnapshot (int i)
              else SendAppendEntries (int i) (heartBeatMsg r (nextIndex r ! i)) (length (appendNums r)))
       (filter (\<lambda>i. int i \<noteq> raftId r) [0..<npeers r]))"
    by (rule mapR_Inr) (use assms(3) heartBeatTo_wf[OF inv] same in auto)
  then show ?thesis using assms(2) by (simp add: doHeartBeat_def Let_def)
qed

definition sampleLeader :: raft where
  \<comment> \<open>server 0 of three leading term 2, one entry in its log\<close>
  "sampleLeader = (sampleServer 3 0)\<lparr>status := Leader, currentTerm := 2,
     logs := [\<lparr>command = ''x'', logterm = 2, logindex = 1\<rparr>], nextIndex := [2, 1, 1]\<rparr>"

lemma sampleLeader_inv: "raft_inv sampleLeader" "getLastLogIndex sampleLeader = 1"
  "status sampleLeader = Leader" "npeers sampleLeader = 3"
  by (simp_all add: sampleLeader_def sampleServer_def raft_inv_def log_wf_def getLastLogIndex_def
      getLastLogIndexAndTerm_def)

lemma doHeartBeat_sends_witness:
  "doHeartBeat 5 sampleLeader = Inr
    (sampleLeader\<lparr>appendNums := appendNums sampleLeader @ [1], lastResetHearBeatTime := 5\<rparr>,
     map (\<lambda>i. if nextIndex sampleLeader ! i \<le> lastSnapshotIncludeIndex sampleLeader then LeaderSendSnapshot (int i)
              else SendAppendEntries (int i) (heartBeatMsg sampleLeader (nextIndex sampleLeader ! i))
                     (length (appendNums sampleLeader)))
       (filter (\<lambda>i. int i \<noteq> raftId sampleLeader) [0..<npeers sampleLeader]))"
proof (rule doHeartBeat_sends[OF sampleLeader_inv(1,3)])
  show "\<forall>i<npeers sampleLeader. int i \<noteq> raftId sampleLeader \<longrightarrow>
      1 \<le> nextIndex sampleLeader ! i \<and> nextIndex sampleLeader ! i \<le> getLastLogIndex sampleLeader + 1"
    by (auto simp: sampleLeader_inv less_Suc_eq numeral_3_eq_3) (simp_all add: sampleLeader_def)
qed

text \<open>Entries of the log after an accepted message, by position.\<close>

lemma storedLog_nth:
  assumes "k \<le> length l" and "x < length (storedLog l k es)"
  shows "storedLog l k es ! x = (if k \<le> x \<and> x < k + length es then es ! (x - k) else l ! x)"
  using assms by (auto simp: storedLog_def nth_append)

lemma appendEntries_accepts:
  assumes C: "codec_ok C" and inv: "raft_inv f" and ok: "p_ok (persister f)"
    and trm: "currentTerm f \<le> ae_term args"
    and range: "lastSnapshotIncludeIndex f \<le> ae_prevlogindex args" "ae_prevlogindex args \<le> getLastLogIndex f"
    and same: "termAt f (ae_prevlogindex args) = ae_prevlogterm args"
    and cont: "contiguous (ae_prevlogindex args) (ae_entries args)"
  defines "k \<equiv> nat (ae_prevlogindex args - lastSnapshotIncludeIndex f)"
  assumes noclash: "\<not> clash (logs f) k (ae_entries args)"
  shows "\<exists>reply f'. appendEntriesimpl C now args f = Inr (reply, f') \<and> aer_success reply \<and>
    aer_term reply = ae_term args \<and> currentTerm f' = ae_term args \<and> status f' = Follower \<and>
    logs f' = storedLog (logs f) k (ae_entries args) \<and> raft_inv f' \<and>
    lastSnapshotIncludeIndex f' = lastSnapshotIncludeIndex f \<and>
    commitIndex f' = max (commitIndex f) (min (ae_leadercommit args) (getLastLogIndex f')) \<and>
    getLastLogIndex f' = max (getLastLogIndex f) (ae_prevlogindex args + int (length (ae_entries args))) \<and>
    savedState C (persister f') = Inr (hardState f')"
proof -
  define s where "s = (if ae_term args > currentTerm f
      then f\<lparr>status := Follower, currentTerm := ae_term args, votedFor := -1\<rparr> else f)
      \<lparr>status := Follower, lastResetElectionTime := now\<rparr>"
  have fs: "logs s = logs f" "lastSnapshotIncludeIndex s = lastSnapshotIncludeIndex f"
    "lastSnapshotIncludeTerm s = lastSnapshotIncludeTerm f" "commitIndex s = commitIndex f"
    "persister s = persister f" "currentTerm s = ae_term args" "status s = Follower"
    using trm by (simp_all add: s_def)
  have sinv: "raft_inv s"
    using inv raft_inv_cong[of s f] fs by (simp add: s_def)
  note g = log_funs_cong[OF fs(1-3)]
  let ?l = "storedLog (logs f) k (ae_entries args)"
  let ?n = "lastSnapshotIncludeIndex f + int (length ?l)"
  let ?t = "s\<lparr>logs := ?l, commitIndex := max (commitIndex f) (min (ae_leadercommit args) ?n)\<rparr>"
  have m: "appendEntriesBody args s = Inr (\<lparr>aer_term = ae_term args, aer_success = True,
      aer_updatenextindex = 0, aer_appstate = AppNormal\<rparr>, ?t)"
    and cl: "contiguous (lastSnapshotIncludeIndex f) ?l" and kl: "k \<le> length (logs f)"
    using appendBody_match[OF sinv, of args] range same cont noclash by (simp_all add: fs g k_def)
  have tinv: "raft_inv ?t" using appendBody_inv[OF sinv cont m] by simp
  have last: "getLastLogIndex ?t = ?n" using lastLogIndex_wf[of ?t] tinv fs by (simp add: raft_inv_def)
  have "?n = max (getLastLogIndex f) (ae_prevlogindex args + int (length (ae_entries args)))"
    using storedLog_length[OF kl] lastLogIndex_wf[of f] inv range by (auto simp: raft_inv_def k_def)
  moreover have "appendEntriesimpl C now args f = Inr (\<lparr>aer_term = ae_term args, aer_success = True,
      aer_updatenextindex = 0, aer_appstate = AppNormal\<rparr>, persist C ?t)"
    using trm m by (simp add: appendEntriesimpl_def s_def Let_def)
  moreover have "savedState C (persister (persist C ?t)) = Inr (hardState ?t)"
    using persist_saved(1)[OF C, of ?t] ok fs by simp
  ultimately show ?thesis using tinv last fs by (simp add: log_keep)
qed

text \<open>The log of a follower that accepted a heartbeat, entry by entry.\<close>

lemma heartbeat_log:
  assumes "codec_ok C" and "raft_inv r" and "raft_inv f" and "p_ok (persister f)"
    and "currentTerm f \<le> currentTerm r"
    and "lastSnapshotIncludeIndex r < next" and "next \<le> getLastLogIndex r + 1"
    and "lastSnapshotIncludeIndex f < next" and "next \<le> getLastLogIndex f + 1"
    and "termAt f (next - 1) = termAt r (next - 1)"
    and "\<not> clash (logs f) (nat (next - 1 - lastSnapshotIncludeIndex f)) (ae_entries (heartBeatMsg r next))"
  defines "d \<equiv> nat (next - 1 - lastSnapshotIncludeIndex r)" and "k \<equiv> nat (next - 1 - lastSnapshotIncludeIndex f)"
  obtains reply f' where "appendEntriesimpl C now (heartBeatMsg r next) f = Inr (reply, f')" "aer_success reply"
    "aer_term reply = currentTerm r" "savedState C (persister f') = Inr (hardState f')"
    "getLastLogIndex f' = max (getLastLogIndex f) (getLastLogIndex r)"
    "\<And>i. lastSnapshotIncludeIndex f < i \<Longrightarrow> i \<le> getLastLogIndex f' \<Longrightarrow>
      entryAt f' i = Inr (storedLog (logs f) k (drop d (logs r)) ! slot f i) \<and>
      slot f i < length (storedLog (logs f) k (drop d (logs r)))"
    "d \<le> length (logs r)" "k \<le> length (logs f)" "next - 1 + int (length (drop d (logs r))) = getLastLogIndex r"
proof -
  let ?m = "heartBeatMsg r next" and ?S = "lastSnapshotIncludeIndex f" and ?R = "lastSnapshotIncludeIndex r"
  have wr: "log_wf r" and wf: "log_wf f" using assms(2,3) by (simp_all add: raft_inv_def)
  note lr = lastLogIndex_wf[OF wr] and lf = lastLogIndex_wf[OF wf]
  have es: "ae_entries ?m = drop d (logs r)" and d: "d \<le> length (logs r)"
    using assms(6,7) lr by (simp_all add: heartBeatMsg_def d_def)
  have cont: "contiguous (ae_prevlogindex ?m) (ae_entries ?m)"
    using contiguous_drop[of ?R "logs r" d] wr assms(6) d
    by (simp add: log_wf_contiguous es) (simp add: heartBeatMsg_def d_def)
  have "\<exists>reply f'. appendEntriesimpl C now ?m f = Inr (reply, f') \<and> aer_success reply \<and>
    aer_term reply = ae_term ?m \<and> currentTerm f' = ae_term ?m \<and> status f' = Follower \<and>
    logs f' = storedLog (logs f) (nat (ae_prevlogindex ?m - ?S)) (ae_entries ?m) \<and> raft_inv f' \<and>
    lastSnapshotIncludeIndex f' = ?S \<and>
    commitIndex f' = max (commitIndex f) (min (ae_leadercommit ?m) (getLastLogIndex f')) \<and>
    getLastLogIndex f' = max (getLastLogIndex f) (ae_prevlogindex ?m + int (length (ae_entries ?m))) \<and>
    savedState C (persister f') = Inr (hardState f')"
    by (rule appendEntries_accepts[OF assms(1,3,4)]) (use assms cont in \<open>simp_all add: heartBeatMsg_def\<close>)
  then obtain reply f' where a: "appendEntriesimpl C now ?m f = Inr (reply, f')" "aer_success reply"
    "aer_term reply = currentTerm r" "logs f' = storedLog (logs f) k (drop d (logs r))" "raft_inv f'"
    "lastSnapshotIncludeIndex f' = ?S"
    "getLastLogIndex f' = max (getLastLogIndex f) (next - 1 + int (length (drop d (logs r))))"
    "savedState C (persister f') = Inr (hardState f')"
    by (auto simp: heartBeatMsg_def k_def d_def)
  have wf': "log_wf f'" using a(5) by (simp add: raft_inv_def)
  have k: "k \<le> length (logs f)" using assms(8,9) lf by (simp add: k_def)
  have reach: "next - 1 + int (length (drop d (logs r))) = getLastLogIndex r"
    using d lr assms(6) by (simp add: d_def)
  have pos: "entryAt f' i = Inr (storedLog (logs f) k (drop d (logs r)) ! slot f i) \<and>
      slot f i < length (storedLog (logs f) k (drop d (logs r)))" if "?S < i" "i \<le> getLastLogIndex f'" for i
  proof -
    have "slot f' i = slot f i" using a(6) by (simp add: slot_def)
    then show ?thesis
      using entryAt_wf(1,2)[OF wf', of i] that a(4,6) by simp_all
  qed
  have last: "getLastLogIndex f' = max (getLastLogIndex f) (getLastLogIndex r)" using a(7) reach by simp
  show thesis by (rule that[OF a(1-3,8) last pos d k reach])
qed

lemma heartbeat_agrees:
  assumes "codec_ok C" and "raft_inv r" and "raft_inv f" and "p_ok (persister f)"
    and "currentTerm f \<le> currentTerm r"
    and "lastSnapshotIncludeIndex r < next" and "next \<le> getLastLogIndex r + 1"
    and "lastSnapshotIncludeIndex f < next" and "next \<le> getLastLogIndex f + 1"
    and "termAt f (next - 1) = termAt r (next - 1)"
    and "\<not> clash (logs f) (nat (next - 1 - lastSnapshotIncludeIndex f)) (ae_entries (heartBeatMsg r next))"
  shows "\<exists>reply f'. appendEntriesimpl C now (heartBeatMsg r next) f = Inr (reply, f') \<and>
    aer_success reply \<and> aer_term reply = currentTerm r \<and>
    (\<forall>i. next \<le> i \<and> i \<le> getLastLogIndex r \<longrightarrow> entryAt f' i = entryAt r i) \<and>
    (\<forall>i. lastSnapshotIncludeIndex f < i \<and> i \<le> getLastLogIndex f \<and> (i < next \<or> getLastLogIndex r < i) \<longrightarrow>
       entryAt f' i = entryAt f i) \<and>
    savedState C (persister f') = Inr (hardState f')"
proof -
  let ?S = "lastSnapshotIncludeIndex f"
  define d where "d = nat (next - 1 - lastSnapshotIncludeIndex r)"
  define k where "k = nat (next - 1 - ?S)"
  have wr: "log_wf r" and wf: "log_wf f" using assms(2,3) by (simp_all add: raft_inv_def)
  from heartbeat_log[OF assms, of now, folded d_def k_def] obtain reply f' where
    a: "appendEntriesimpl C now (heartBeatMsg r next) f = Inr (reply, f')" "aer_success reply"
      "aer_term reply = currentTerm r" "savedState C (persister f') = Inr (hardState f')"
      "getLastLogIndex f' = max (getLastLogIndex f) (getLastLogIndex r)"
    and pos: "\<And>i. ?S < i \<Longrightarrow> i \<le> getLastLogIndex f' \<Longrightarrow>
      entryAt f' i = Inr (storedLog (logs f) k (drop d (logs r)) ! slot f i) \<and>
      slot f i < length (storedLog (logs f) k (drop d (logs r)))"
    and d: "d \<le> length (logs r)" and k: "k \<le> length (logs f)"
    and reach: "next - 1 + int (length (drop d (logs r))) = getLastLogIndex r" by blast
  have new: "entryAt f' i = entryAt r i" if i: "next \<le> i" "i \<le> getLastLogIndex r" for i
  proof -
    have "?S < i" "i \<le> getLastLogIndex f'" using i assms(8) a(5) by auto
    note p = pos[OF this]
    have s: "slot f i = k + nat (i - next)" "slot r i = d + nat (i - next)"
      using i assms(6,8) by (simp_all add: slot_def k_def d_def)
    have "slot r i < length (logs r)" "entryAt r i = Inr (logs r ! slot r i)"
      using entryAt_wf(1,2)[OF wr, of i] i assms(6) by simp_all
    then show ?thesis using p storedLog_nth[OF k] p s d by simp
  qed
  have old: "entryAt f' i = entryAt f i"
    if i: "?S < i" "i \<le> getLastLogIndex f" "i < next \<or> getLastLogIndex r < i" for i
  proof -
    have "i \<le> getLastLogIndex f'" using i(2) a(5) by simp
    note p = pos[OF i(1) this]
    have "\<not> (k \<le> slot f i \<and> slot f i < k + length (drop d (logs r)))"
      using i reach assms(8) by (auto simp: slot_def k_def)
    then show ?thesis using p storedLog_nth[OF k] p entryAt_wf(1)[OF wf i(1,2)] by auto
  qed
  show ?thesis using a(1-4) new old by blast
qed

lemma appendEntries_connected: "appendEntriesimpl C now args f = Inr (reply, f') \<Longrightarrow> aer_appstate reply = AppNormal"
  by (auto simp: appendEntriesimpl_def appendEntriesBody_def andThen_eq_Inr Let_def split: if_splits)

text \<open>C11: a heartbeat's entries reach the follower: if the logs agree at the index before them, the
  follower accepts, and afterwards holds the leader's entry at every index from \<open>next\<close> to the
  leader's last; earlier entries stay, and so do entries beyond the leader's last one.\<close>

theorem replication_agrees:
  assumes "codec_ok C" and "raft_inv r" and "raft_inv f" and "p_ok (persister f)"
    and "currentTerm f \<le> currentTerm r"
    and "lastSnapshotIncludeIndex r < next" and "next \<le> getLastLogIndex r + 1"
    and "lastSnapshotIncludeIndex f < next" and "next \<le> getLastLogIndex f + 1"
    and "termAt f (next - 1) = termAt r (next - 1)"
    and "\<not> clash (logs f) (nat (next - 1 - lastSnapshotIncludeIndex f)) (ae_entries (heartBeatMsg r next))"
  shows "\<exists>reply f'. appendEntriesimpl C now (heartBeatMsg r next) f = Inr (reply, f') \<and>
    aer_success reply \<and> aer_term reply = currentTerm r \<and>
    (\<forall>i. next \<le> i \<and> i \<le> getLastLogIndex r \<longrightarrow> entryAt f' i = entryAt r i) \<and>
    (\<forall>i. lastSnapshotIncludeIndex f < i \<and> i \<le> getLastLogIndex f \<and> (i < next \<or> getLastLogIndex r < i) \<longrightarrow>
       entryAt f' i = entryAt f i) \<and>
    savedState C (persister f') = Inr (hardState f')"
  using assms by (rule heartbeat_agrees)

definition sampleFollower :: raft where
  \<comment> \<open>server 1 of three in term 1, with two entries of that term the leader does not have\<close>
  "sampleFollower = (sampleServer 3 1)\<lparr>currentTerm := 1,
     logs := [\<lparr>command = ''a'', logterm = 1, logindex = 1\<rparr>, \<lparr>command = ''b'', logterm = 1, logindex = 2\<rparr>]\<rparr>"

lemma sampleFollower_inv: "raft_inv sampleFollower" "getLastLogIndex sampleFollower = 2"
  "p_ok (persister sampleFollower)"
  by (simp_all add: sampleFollower_def sampleServer_def raft_inv_def log_wf_def getLastLogIndex_def
      getLastLogIndexAndTerm_def newPersister_ok less_Suc_eq)

theorem replication_agrees_witness:
  "\<exists>reply f'. appendEntriesimpl sampleCodec 4 (heartBeatMsg sampleLeader 1) sampleFollower = Inr (reply, f') \<and>
    aer_success reply \<and> aer_term reply = currentTerm sampleLeader \<and>
    (\<forall>i. 1 \<le> i \<and> i \<le> getLastLogIndex sampleLeader \<longrightarrow> entryAt f' i = entryAt sampleLeader i) \<and>
    (\<forall>i. lastSnapshotIncludeIndex sampleFollower < i \<and> i \<le> getLastLogIndex sampleFollower \<and>
       (i < 1 \<or> getLastLogIndex sampleLeader < i) \<longrightarrow> entryAt f' i = entryAt sampleFollower i) \<and>
    savedState sampleCodec (persister f') = Inr (hardState f')"
  by (rule replication_agrees[OF sampleCodec_ok sampleLeader_inv(1) sampleFollower_inv(1,3)])
    (simp_all add: sampleLeader_inv sampleFollower_inv,
     simp_all add: sampleLeader_def sampleFollower_def sampleServer_def termAt_def clash_def heartBeatMsg_def)



section \<open>Delivery\<close>

text \<open>\<open>getApplyLogs\<close> never fails on a server in order; it hands out exactly the committed entries
  not handed out before, in index order, each with its own index, and no entry twice: a second
  call right after returns nothing.\<close>

lemma getApplyLogs_delivers:
  assumes "raft_inv r"
  shows "\<exists>ms r'. getApplyLogs r = Inr (ms, r') \<and>
    map CommandIndex ms = [lastApplied r + 1..max (lastApplied r) (commitIndex r)] \<and>
    (\<forall>m\<in>set ms. CommandValid m \<and> \<not> SnapshotValid m \<and>
       (\<exists>e. entryAt r (CommandIndex m) = Inr e \<and> Command m = command e)) \<and>
    lastApplied r' = max (lastApplied r) (commitIndex r) \<and> logs r' = logs r \<and>
    getApplyLogs r' = Inr ([], r')"
proof -
  let ?n = "nat (commitIndex r - lastApplied r)"
  let ?msg = "\<lambda>i. newApplyMsg\<lparr>CommandValid := True, Command := command (logs r ! slot r (lastApplied r + 1 + int i)),
                          CommandIndex := lastApplied r + 1 + int i\<rparr>"
  let ?r' = "r\<lparr>lastApplied := max (lastApplied r) (commitIndex r)\<rparr>"
  have g: "getApplyLogs r = Inr (map ?msg [0..<?n], ?r')" using getApplyLogs_wf[OF assms] .
  have idx: "map CommandIndex (map ?msg [0..<?n]) = [lastApplied r + 1..max (lastApplied r) (commitIndex r)]"
    by (rule nth_equalityI) (auto simp: newApplyMsg_def)
  have inv: "raft_inv ?r'"
    using assms log_funs_cong(2,3)[of ?r' r] by (auto simp: raft_inv_def)
  have "entryAt r (lastApplied r + 1 + int i) = Inr (logs r ! slot r (lastApplied r + 1 + int i))" if "i < ?n" for i
    by (rule entryAt_wf) (use assms that in \<open>auto simp: raft_inv_def\<close>)
  then have "\<forall>m\<in>set (map ?msg [0..<?n]). CommandValid m \<and> \<not> SnapshotValid m \<and>
       (\<exists>e. entryAt r (CommandIndex m) = Inr e \<and> Command m = command e)"
    by (auto simp: newApplyMsg_def)
  moreover have "getApplyLogs ?r' = Inr ([], ?r')" using getApplyLogs_wf[OF inv] by simp
  ultimately show ?thesis using g idx by (intro exI[of _ "map ?msg [0..<?n]"] exI[of _ ?r']) simp
qed

lemma getApplyLogs_delivers_witness:
  "\<exists>ms r'. getApplyLogs (sampleLeader\<lparr>commitIndex := 1\<rparr>) = Inr (ms, r') \<and>
    map CommandIndex ms = [lastApplied (sampleLeader\<lparr>commitIndex := 1\<rparr>) + 1..
       max (lastApplied (sampleLeader\<lparr>commitIndex := 1\<rparr>)) (commitIndex (sampleLeader\<lparr>commitIndex := 1\<rparr>))] \<and>
    (\<forall>m\<in>set ms. CommandValid m \<and> \<not> SnapshotValid m \<and>
       (\<exists>e. entryAt (sampleLeader\<lparr>commitIndex := 1\<rparr>) (CommandIndex m) = Inr e \<and> Command m = command e)) \<and>
    lastApplied r' = max (lastApplied (sampleLeader\<lparr>commitIndex := 1\<rparr>)) (commitIndex (sampleLeader\<lparr>commitIndex := 1\<rparr>)) \<and>
    logs r' = logs (sampleLeader\<lparr>commitIndex := 1\<rparr>) \<and> getApplyLogs r' = Inr ([], r')"
  by (rule getApplyLogs_delivers)
    (simp add: sampleLeader_def sampleServer_def raft_inv_def log_wf_def getLastLogIndex_def
      getLastLogIndexAndTerm_def)

section \<open>Snapshots and commitment\<close>

lemma tail_entry:
  assumes "log_wf r" and "lastSnapshotIncludeIndex r < i" and "i < j" and "j \<le> getLastLogIndex r"
    and "log_wf r'" and "lastSnapshotIncludeIndex r' = i" and "logs r' = drop (Suc (slot r i)) (logs r)"
    and "getLastLogIndex r' = getLastLogIndex r"
  shows "entryAt r' j = entryAt r j"
proof -
  have s: "slot r j = Suc (slot r i) + slot r' j" using assms(2,3,6) by (simp add: slot_def)
  have l: "slot r j < length (logs r)" "slot r i < length (logs r)"
    using entryAt_wf(2)[OF assms(1)] assms(2-4) by auto
  have "entryAt r' j = Inr (logs r' ! slot r' j)" using entryAt_wf(1)[OF assms(5)] assms(3,4,6,8) by simp
  also have "\<dots> = Inr (logs r ! slot r j)" using l s by (simp add: assms(7))
  also have "\<dots> = entryAt r j" using entryAt_wf(1)[OF assms(1)] assms(2-4) by simp
  finally show ?thesis .
qed

text \<open>C33: \<open>snapshot\<close> at a committed index beyond the last snapshot drops exactly the entries up to it:
  the last index and every later entry stay, the snapshot's term is that of the dropped entry, and
  the state file and the snapshot file hold the new state; any other index changes nothing.\<close>

theorem snapshot_contract:
  assumes "codec_ok C" and "server_inv C r"
  shows "\<exists>r'. snapshot C i snap r = Inr r' \<and>
    (if lastSnapshotIncludeIndex r < i \<and> i \<le> commitIndex r
     then lastSnapshotIncludeIndex r' = i \<and> lastSnapshotIncludeTerm r' = termAt r i \<and>
       getLastLogIndex r' = getLastLogIndex r \<and> commitIndex r' = commitIndex r \<and>
       (\<forall>j. i < j \<and> j \<le> getLastLogIndex r \<longrightarrow> entryAt r' j = entryAt r j) \<and>
       savedState C (persister r') = Inr (hardState r') \<and> ReadSnapshot (persister r') = snap
     else r' = r)"
proof (cases "lastSnapshotIncludeIndex r < i \<and> i \<le> commitIndex r")
  case True
  have inv: "raft_inv r" "p_ok (persister r)" using assms(2) by (simp_all add: server_inv_def)
  define s where "s = r\<lparr>logs := drop (Suc (slot r i)) (logs r), lastSnapshotIncludeIndex := i,
      lastSnapshotIncludeTerm := termAt r i, lastApplied := max (lastApplied r) i\<rparr>"
  have t: "snapshot C i snap r = Inr (saveSnapshot C snap s)" "raft_inv s" "getLastLogIndex s = getLastLogIndex r"
    using snapshot_taken[OF inv(1)] True unfolding s_def by blast+
  have "p_ok (persister s)" using inv(2) by (simp add: s_def)
  note saved = saveSnapshot_saved[OF assms(1) this, of snap]
  have "entryAt (saveSnapshot C snap s) j = entryAt r j" if "i < j" "j \<le> getLastLogIndex r" for j
    using tail_entry[of r i j s] that True inv(1) t(2,3) by (simp add: raft_inv_def s_def log_keep)
  then show ?thesis using True t saved by (simp add: log_keep) (simp add: s_def)
next
  case False
  then show ?thesis using snapshot_ignored[of i r C snap] by auto
qed

definition sampleCommitted :: raft where
  \<comment> \<open>the sample leader after its entry was committed\<close>
  "sampleCommitted = sampleLeader\<lparr>commitIndex := 1\<rparr>"

lemma sampleCommitted_inv: "server_inv sampleCodec sampleCommitted"
  using sampleServer_inv[of sampleCodec 3 0]
  by (simp add: sampleCommitted_def sampleLeader_def sampleServer_def server_inv_def raft_inv_def
      log_wf_def getLastLogIndex_def getLastLogIndexAndTerm_def)

theorem snapshot_contract_witness:
  "\<exists>r'. snapshot sampleCodec 1 ''kv'' sampleCommitted = Inr r' \<and>
    (if lastSnapshotIncludeIndex sampleCommitted < 1 \<and> 1 \<le> commitIndex sampleCommitted
     then lastSnapshotIncludeIndex r' = 1 \<and> lastSnapshotIncludeTerm r' = termAt sampleCommitted 1 \<and>
       getLastLogIndex r' = getLastLogIndex sampleCommitted \<and> commitIndex r' = commitIndex sampleCommitted \<and>
       (\<forall>j. 1 < j \<and> j \<le> getLastLogIndex sampleCommitted \<longrightarrow> entryAt r' j = entryAt sampleCommitted j) \<and>
       savedState sampleCodec (persister r') = Inr (hardState r') \<and> ReadSnapshot (persister r') = ''kv''
     else r' = sampleCommitted)"
  by (rule snapshot_contract[OF sampleCodec_ok sampleCommitted_inv])

text \<open>C34: \<open>installSnapshotImpl\<close> never fails on a server in order; a snapshot newer than the server's own
  becomes its base, entries beyond it are kept (their terms are not compared with the
  leader's), commit and apply positions move up to it, files hold the new state and the data, and
  one message with the data is pushed upwards; an older one changes no log.\<close>

theorem installSnapshot_contract:
  assumes "codec_ok C" and "server_inv C r" and "currentTerm r \<le> is_term args"
  shows "\<exists>reply r' sp. installSnapshotImpl C now args r = Inr (reply, r', sp) \<and> server_inv C r' \<and>
    currentTerm r' = is_term args \<and> status r' = Follower \<and>
    (if lastSnapshotIncludeIndex r < is_lastsnapshotincludeindex args
     then lastSnapshotIncludeIndex r' = is_lastsnapshotincludeindex args \<and>
       getLastLogIndex r' = max (getLastLogIndex r) (is_lastsnapshotincludeindex args) \<and>
       (\<forall>j. is_lastsnapshotincludeindex args < j \<and> j \<le> getLastLogIndex r \<longrightarrow> entryAt r' j = entryAt r j) \<and>
       commitIndex r' = max (commitIndex r) (is_lastsnapshotincludeindex args) \<and>
       lastApplied r' = max (lastApplied r) (is_lastsnapshotincludeindex args) \<and>
       savedState C (persister r') = Inr (hardState r') \<and> ReadSnapshot (persister r') = is_data args \<and>
       isr_term reply = is_term args \<and>
       (\<exists>m. sp = [PushMsgToKvServer m] \<and> SnapshotValid m \<and> \<not> CommandValid m \<and> Snapshot m = is_data args \<and>
          SnapshotIndex m = is_lastsnapshotincludeindex args \<and> SnapshotTerm m = is_lastsnapshotincludeterm args)
     else logs r' = logs r \<and> lastSnapshotIncludeIndex r' = lastSnapshotIncludeIndex r \<and> sp = [])"
proof (cases "lastSnapshotIncludeIndex r < is_lastsnapshotincludeindex args")
  case False
  then have "installSnapshotImpl C now args r = Inr (\<lparr>isr_term = 0\<rparr>, joined C now args r, [])"
    using installSnapshot_eq[OF assms(1,2), of now args] assms(3) by simp
  then show ?thesis using joined_facts(1,4)[OF assms] False by (simp add: joined_def)
next
  case True
  let ?i = "is_lastsnapshotincludeindex args"
  define s where "s = (installed now args r)\<lparr>persister := persister (joined C now args r)\<rparr>"
  let ?msg = "newApplyMsg\<lparr>SnapshotValid := True, Snapshot := is_data args, SnapshotIndex := ?i,
    SnapshotTerm := is_lastsnapshotincludeterm args\<rparr>"
  have eq: "installSnapshotImpl C now args r =
      Inr (\<lparr>isr_term = is_term args\<rparr>, saveSnapshot C (is_data args) s, [PushMsgToKvServer ?msg])"
    using installSnapshot_eq[OF assms(1,2), of now args] assms(3) True by (simp add: s_def)
  have inv: "raft_inv r" using assms(2) by (simp add: server_inv_def)
  have same: "raft_inv s = raft_inv (installed now args r)" by (rule raft_inv_cong) (simp_all add: s_def)
  have sinv: "raft_inv s" using installed_inv(1)[OF inv True] same by simp
  have last: "getLastLogIndex s = max (getLastLogIndex r) ?i"
    using installed_inv(2)[OF inv True, of now] log_funs_cong(2)[of s "installed now args r"] by (simp add: s_def)
  have ok: "p_ok (persister s)" using joined_facts(1)[OF assms, of now] by (simp add: s_def server_inv_def)
  note saved = saveSnapshot_saved[OF assms(1) ok, of "is_data args"]
  have sf: "lastSnapshotIncludeIndex s = ?i" "commitIndex s = max (commitIndex r) ?i"
    "lastApplied s = max (lastApplied r) ?i" "currentTerm s = is_term args" "status s = Follower"
    "getLastLogIndex r > ?i \<longrightarrow> logs s = drop (Suc (slot r ?i)) (logs r)"
    by (simp_all add: s_def installed_def Let_def)
  have kept: "entryAt (saveSnapshot C (is_data args) s) j = entryAt r j" if "?i < j" "j \<le> getLastLogIndex r" for j
    using tail_entry[of r ?i j s] that True inv sinv sf last by (simp add: raft_inv_def log_keep)
  have "server_inv C (saveSnapshot C (is_data args) s)" using server_inv_save[OF assms(1) ok sinv] .
  then show ?thesis using eq True saved sf last kept
    by (simp add: log_keep newApplyMsg_def)
qed

theorem installSnapshot_contract_witness:
  "\<exists>reply r' sp. installSnapshotImpl sampleCodec 3 \<lparr>is_leaderid = 2, is_term = 4,
      is_lastsnapshotincludeindex = 5, is_lastsnapshotincludeterm = 3, is_data = ''kv''\<rparr> sampleCommitted =
      Inr (reply, r', sp) \<and> lastSnapshotIncludeIndex r' = 5 \<and> ReadSnapshot (persister r') = ''kv''"
proof -
  let ?a = "\<lparr>is_leaderid = 2, is_term = 4, is_lastsnapshotincludeindex = 5, is_lastsnapshotincludeterm = 3,
    is_data = ''kv''\<rparr>"
  have "currentTerm sampleCommitted \<le> is_term ?a" "lastSnapshotIncludeIndex sampleCommitted < is_lastsnapshotincludeindex ?a"
    by (simp_all add: sampleCommitted_def sampleLeader_def sampleServer_def)
  with installSnapshot_contract[OF sampleCodec_ok sampleCommitted_inv, of ?a 3] show ?thesis by auto
qed

text \<open>An index the leader may commit: of its own term, and known to be on a majority.\<close>

definition committable :: "raft \<Rightarrow> int \<Rightarrow> bool" where
  "committable r i \<longleftrightarrow> termAt r i = currentTerm r \<and>
     majority r \<le> 1 + int (length (filter (\<lambda>j. int j \<noteq> raftId r \<and> i \<le> matchIndex r ! j) [0..<npeers r]))"

lemma matchCount_wf:
  assumes "length (matchIndex r) = npeers r"
  shows "matchCount r i =
    Inr (1 + int (length (filter (\<lambda>j. int j \<noteq> raftId r \<and> i \<le> matchIndex r ! j) [0..<npeers r])))"
proof -
  let ?js = "filter (\<lambda>j. int j \<noteq> raftId r) [0..<npeers r]"
  have "mapR (\<lambda>j. vecGet (matchIndex r) (int j)) ?js = Inr (map (\<lambda>j. matchIndex r ! j) ?js)"
    by (rule mapR_Inr) (use assms in \<open>auto simp: vecGet_def\<close>)
  moreover have "filter (\<lambda>m. m \<ge> i) (map (\<lambda>j. matchIndex r ! j) ?js) =
      map (\<lambda>j. matchIndex r ! j) (filter (\<lambda>j. int j \<noteq> raftId r \<and> i \<le> matchIndex r ! j) [0..<npeers r])"
    by (simp add: filter_map comp_def conj_commute)
  ultimately show ?thesis by (simp add: matchCount_def)
qed

lemma commitScan_wf:
  assumes "raft_inv r" and "lastSnapshotIncludeIndex r \<le> commitIndex r"
    and "commitIndex r + int k \<le> getLastLogIndex r"
  shows "\<exists>c. commitScan r k = Inr (r\<lparr>commitIndex := c\<rparr>) \<and> commitIndex r \<le> c \<and> c \<le> commitIndex r + int k \<and>
    (c = commitIndex r \<or> committable r c) \<and>
    (\<forall>i. c < i \<and> i \<le> commitIndex r + int k \<longrightarrow> \<not> committable r i)"
  using assms(3)
proof (induction k)
  case 0
  then show ?case by (intro exI[of _ "commitIndex r"]) auto
next
  case (Suc k)
  let ?i = "commitIndex r + int (Suc k)"
  have t: "getLogTermFromLogIndex r ?i = Inr (termAt r ?i)"
    using assms(1,2) Suc.prems by (intro getLogTerm_wf) (auto simp: raft_inv_def)
  have m: "matchCount r ?i =
      Inr (1 + int (length (filter (\<lambda>j. int j \<noteq> raftId r \<and> ?i \<le> matchIndex r ! j) [0..<npeers r])))"
    using assms(1) by (intro matchCount_wf) (simp add: raft_inv_def)
  have step: "commitScan r (Suc k) = (if committable r ?i then Inr (r\<lparr>commitIndex := ?i\<rparr>) else commitScan r k)"
    by (simp add: t m Let_def committable_def del: of_nat_Suc)
  show ?case
  proof (cases "committable r ?i")
    case True
    then show ?thesis using step by (intro exI[of _ ?i]) auto
  next
    case False
    from Suc obtain c where c: "commitScan r k = Inr (r\<lparr>commitIndex := c\<rparr>)" "commitIndex r \<le> c"
      "c \<le> commitIndex r + int k" "c = commitIndex r \<or> committable r c"
      "\<forall>i. c < i \<and> i \<le> commitIndex r + int k \<longrightarrow> \<not> committable r i" by auto
    have "\<not> committable r i" if "c < i" "i \<le> ?i" for i
      using that c(5) False by (cases "i = ?i") auto
    then show ?thesis using step False c by (intro exI[of _ c]) auto
  qed
qed

text \<open>\<open>leaderUpdateCommitIndex\<close> moves the commit index to the greatest index of the current term
  that is known to be on a majority, and leaves it if there is none.\<close>

lemma leaderUpdateCommitIndex_max:
  assumes "raft_inv r" and "lastSnapshotIncludeIndex r \<le> commitIndex r"
  shows "\<exists>c. leaderUpdateCommitIndex r = Inr (r\<lparr>commitIndex := c\<rparr>) \<and> commitIndex r \<le> c \<and>
    c \<le> getLastLogIndex r \<and> (c = commitIndex r \<or> committable r c) \<and>
    (\<forall>i. c < i \<and> i \<le> getLastLogIndex r \<longrightarrow> \<not> committable r i)"
proof -
  have "commitIndex r \<le> getLastLogIndex r" using assms(1) by (simp add: raft_inv_def)
  then show ?thesis using commitScan_wf[OF assms, of "nat (getLastLogIndex r - commitIndex r)"]
    by (simp add: leaderUpdateCommitIndex_def)
qed

lemma leaderUpdateCommitIndex_max_witness:
  "\<exists>c. leaderUpdateCommitIndex (sampleLeader\<lparr>matchIndex := [0, 1, 0]\<rparr>) =
      Inr (sampleLeader\<lparr>matchIndex := [0, 1, 0], commitIndex := c\<rparr>) \<and>
    (c = commitIndex (sampleLeader\<lparr>matchIndex := [0, 1, 0]\<rparr>) \<or>
     committable (sampleLeader\<lparr>matchIndex := [0, 1, 0]\<rparr>) c)"
proof -
  let ?r = "sampleLeader\<lparr>matchIndex := [0, 1, 0]\<rparr>"
  have "raft_inv ?r" "lastSnapshotIncludeIndex ?r \<le> commitIndex ?r"
    by (simp_all add: sampleLeader_def sampleServer_def raft_inv_def log_wf_def getLastLogIndex_def
        getLastLogIndexAndTerm_def)
  from leaderUpdateCommitIndex_max[OF this] show ?thesis by auto
qed

end
