(* ===== verification/RaftNoPanic.thy ===== *)
theory RaftNoPanic
  imports RaftEntries RaftLogTheorems
begin

text \<open>
  A cluster that takes no snapshots: every answer a leader gets was given to a message of its own term, and what
  the answers say keeps the leader's indices inside its log.  So none of the assertions and vector accesses of
  replication fails, on either side.
\<close>

section \<open>The invariant\<close>

definition plain_log :: "codec \<Rightarrow> raft \<Rightarrow> bool" where
  "plain_log C r \<longleftrightarrow> lastSnapshotIncludeIndex r = 0 \<and> lastSnapshotIncludeTerm r = 0 \<and>
     (\<forall>t v si st l. savedState C (persister r) = Inr (t, v, si, st, l) \<longrightarrow> si = 0 \<and> st = 0)"

definition indices_ok :: "raft \<Rightarrow> bool" where
  \<comment> \<open>what a leader believes of its peers lies in its log\<close>
  "indices_ok r \<longleftrightarrow> (status r = Leader \<longrightarrow> (\<forall>j<npeers r. int j \<noteq> raftId r \<longrightarrow>
     1 \<le> nextIndex r ! j \<and> nextIndex r ! j \<le> getLastLogIndex r + 1 \<and>
     0 \<le> matchIndex r ! j \<and> matchIndex r ! j \<le> getLastLogIndex r))"

definition msgEnd :: "appendEntriesArgs \<Rightarrow> int" where
  "msgEnd args = ae_prevlogindex args + int (length (ae_entries args))"

definition sent_ok :: "nat \<Rightarrow> replicas \<Rightarrow> nat \<Rightarrow> appendEntriesArgs \<Rightarrow> bool" where
  \<comment> \<open>a message of a leader, whose log still covers it as long as it leads that term\<close>
  "sent_ok n s j args \<longleftrightarrow> 0 \<le> ae_prevlogindex args \<and> (ae_prevlogindex args = 0 \<longrightarrow> ae_prevlogterm args = 0) \<and>
     (\<exists>i<n. ae_leaderid args = int i \<and> i \<noteq> j \<and> (i, ae_term args) \<in> leaderships (voting s) \<and>
        (status (node s i) = Leader \<and> currentTerm (node s i) = ae_term args \<longrightarrow> msgEnd args \<le> getLastLogIndex (node s i)))"

definition answer_ok :: "appendEntriesArgs \<Rightarrow> appendEntriesReply \<Rightarrow> bool" where
  "answer_ok args reply \<longleftrightarrow> (aer_success reply \<longrightarrow> aer_term reply = ae_term args) \<and>
     (\<not> aer_success reply \<and> aer_updatenextindex reply \<noteq> -100 \<longrightarrow>
        aer_term reply = ae_term args \<and> 1 \<le> aer_updatenextindex reply \<and>
        aer_updatenextindex reply \<le> ae_prevlogindex args)"

definition thread_ok :: "nat \<Rightarrow> replicas \<Rightarrow> nat \<times> int \<times> appendEntriesArgs \<times> nat \<Rightarrow> bool" where
  "thread_ok n s w \<longleftrightarrow> (case w of (i, p, args, a) \<Rightarrow> i < n \<and> 0 \<le> p \<and> p < int n \<and> p \<noteq> int i \<and>
     (nat p, args) \<in> appends s \<and> ae_leaderid args = int i \<and> a < length (appendNums (node s i)))"

definition replication_inv :: "codec \<Rightarrow> nat \<Rightarrow> replicas \<Rightarrow> bool" where
  "replication_inv C n s \<longleftrightarrow> entries_inv C n s \<and> (\<forall>i<n. plain_log C (node s i) \<and> indices_ok (node s i)) \<and>
     (\<forall>(j, args)\<in>appends s. sent_ok n s j args) \<and> (\<forall>w\<in>appendThreads s. thread_ok n s w) \<and>
     (\<forall>(j, args, reply)\<in>appendAnswers s. answer_ok args reply)"

lemma replication_invD:
  assumes "replication_inv C n s"
  shows "entries_inv C n s" "\<And>i. i < n \<Longrightarrow> plain_log C (node s i)" "\<And>i. i < n \<Longrightarrow> indices_ok (node s i)"
    "\<And>j args. (j, args) \<in> appends s \<Longrightarrow> sent_ok n s j args" "\<And>w. w \<in> appendThreads s \<Longrightarrow> thread_ok n s w"
    "\<And>j args reply. (j, args, reply) \<in> appendAnswers s \<Longrightarrow> answer_ok args reply"
  using assms unfolding replication_inv_def by blast+

lemma replication_invI:
  assumes "entries_inv C n s" "\<And>i. i < n \<Longrightarrow> plain_log C (node s i)" "\<And>i. i < n \<Longrightarrow> indices_ok (node s i)"
    "\<And>j args. (j, args) \<in> appends s \<Longrightarrow> sent_ok n s j args" "\<And>w. w \<in> appendThreads s \<Longrightarrow> thread_ok n s w"
    "\<And>j args reply. (j, args, reply) \<in> appendAnswers s \<Longrightarrow> answer_ok args reply"
  shows "replication_inv C n s"
  using assms unfolding replication_inv_def by blast

section \<open>What the handlers do to it\<close>

text \<open>The answer of a follower without a snapshot.\<close>

lemma follower_answers:
  assumes "raft_inv r" and "lastSnapshotIncludeIndex r = 0" "lastSnapshotIncludeTerm r = 0"
    and "0 \<le> ae_prevlogindex args" "ae_prevlogindex args = 0 \<longrightarrow> ae_prevlogterm args = 0"
    and "contiguous (ae_prevlogindex args) (ae_entries args)"
    and "appendEntriesimpl C now args r = Inr (reply, r')"
  shows "answer_ok args reply \<and> lastSnapshotIncludeIndex r' = 0 \<and> lastSnapshotIncludeTerm r' = 0 \<and>
    appendNums r' = appendNums r \<and> (r' = r \<or> status r' = Follower)"
proof (cases "ae_term args < currentTerm r")
  case True
  then show ?thesis using assms(2,3,7) by (auto simp: appendEntriesimpl_entering answer_ok_def)
next
  case False
  let ?r = "entering now args r"
  from False assms(7) obtain r3 where r3: "appendEntriesBody args ?r = Inr (reply, r3)" "r' = persist C r3"
    by (auto simp: appendEntriesimpl_entering andThen_eq_Inr)
  have inv: "raft_inv ?r" using assms(1) by (simp add: entering_inv)
  have last: "0 \<le> getLastLogIndex r" using assms(1) by (auto simp: raft_inv_def)
  have trm: "currentTerm ?r = ae_term args" using False by simp
  have "answer_ok args reply \<and> (r3 = ?r \<or> (\<exists>l c. r3 = ?r\<lparr>logs := l, commitIndex := c\<rparr>))"
  proof (cases rule: appendBody_cases[where args = args and r = ?r])
    case short
    then show ?thesis using r3(1) last trm by (auto simp: appendBody_short answer_ok_def)
  next
    case snapshotted
    then show ?thesis using assms(2,4) by simp
  next
    case mismatch
    have "ae_prevlogindex args \<noteq> 0" using mismatch(3) assms(2,3,5) by (auto simp: termAt_def)
    with appendBody_mismatch[OF inv mismatch] r3(1) trm assms(2,4) show ?thesis by (auto simp: answer_ok_def)
  next
    case match
    from appendBody_match(1)[OF inv match assms(6)] r3(1) trm show ?thesis
      by (auto simp: answer_ok_def split: if_splits)
  qed
  then show ?thesis using r3(2) assms(2,3) by auto
qed

text \<open>The thread that gets an answer of the leader's own term.\<close>

lemma commitRound_returns:
  assumes "commitIndex r \<le> getLastLogIndex r" and "a < length (appendNums r)" and "msgEnd args \<le> getLastLogIndex r"
  shows "\<exists>an c. commitRound args a r = Inr (r\<lparr>appendNums := an, commitIndex := c\<rparr>) \<and> length an = length (appendNums r)"
proof -
  have last: "getLastLogIndex (r\<lparr>appendNums := an, commitIndex := c\<rparr>) = getLastLogIndex r"
    "getLastLogIndex (r\<lparr>appendNums := an\<rparr>) = getLastLogIndex r" for an c
    by (rule log_funs_cong(2); simp)+
  have eq: "r = r\<lparr>appendNums := appendNums r, commitIndex := commitIndex r\<rparr>"
    "r\<lparr>appendNums := an\<rparr> = r\<lparr>appendNums := an, commitIndex := commitIndex r\<rparr>" for an by simp_all
  have get: "vecGet (appendNums r) (int a) = Inr (appendNums r ! a)" using assms(2) by (simp add: vecGet_def)
  consider "appendNums r ! a < majority r"
    | (raise) "majority r \<le> appendNums r ! a" "ae_entries args \<noteq> []" "logterm (last (ae_entries args)) = currentTerm r"
    | (stay) "majority r \<le> appendNums r ! a" "ae_entries args = [] \<or> logterm (last (ae_entries args)) \<noteq> currentTerm r"
    by linarith
  then show ?thesis
  proof cases
    case 1
    then show ?thesis using get eq(1)
      by (intro exI[of _ "appendNums r"] exI[of _ "commitIndex r"]) (simp add: commitRound_def)
  next
    case raise
    then have "commitRound args a r = Inr (r\<lparr>appendNums := (appendNums r)[a := 0],
        commitIndex := max (commitIndex r) (msgEnd args)\<rparr>)"
      using get assms(1,3) by (simp add: commitRound_def Let_def last msgEnd_def)
    then show ?thesis by (intro exI conjI) (assumption, simp)
  next
    case stay
    then have "commitRound args a r = Inr (r\<lparr>appendNums := (appendNums r)[a := 0], commitIndex := commitIndex r\<rparr>)"
      using get assms(1) by (auto simp: commitRound_def Let_def last)
    then show ?thesis by (intro exI conjI) (assumption, simp)
  qed
qed

lemma accepted_returns:
  assumes inv: "raft_inv r" and idx: "indices_ok r" and lead: "status r = Leader"
    and p: "0 \<le> p" "p < int (npeers r)" "p \<noteq> raftId r" and a: "a < length (appendNums r)"
    and e: "msgEnd args \<le> getLastLogIndex r"
  shows "\<exists>r'. appendAccepted p args a r = Inr r' \<and> indices_ok r' \<and> length (appendNums r') = length (appendNums r)"
proof -
  let ?m = "max (matchIndex r ! nat p) (msgEnd args)"
  let ?r = "r\<lparr>appendNums := (appendNums r)[a := appendNums r ! a + 1], matchIndex := (matchIndex r)[nat p := ?m],
    nextIndex := (nextIndex r)[nat p := ?m + 1]\<rparr>"
  have len: "length (nextIndex r) = npeers r" "length (matchIndex r) = npeers r" "commitIndex r \<le> getLastLogIndex r"
    using inv by (simp_all add: raft_inv_def)
  have np: "nat p < npeers r" "int (nat p) \<noteq> raftId r" using p by auto
  have m: "0 \<le> ?m" "?m \<le> getLastLogIndex r" using idx lead np e by (auto simp: indices_ok_def)
  have last: "getLastLogIndex (r\<lparr>appendNums := an, matchIndex := mi, nextIndex := ni\<rparr>) = getLastLogIndex r"
    "getLastLogIndex (r\<lparr>appendNums := an, matchIndex := mi, nextIndex := ni, commitIndex := c\<rparr>) = getLastLogIndex r"
    for an mi ni c by (rule log_funs_cong(2); simp)+
  have "appendAccepted p args a r = commitRound args a ?r"
    using a p(1,2) np(1) len m(2)
    by (simp add: appendAccepted_def vecGet_def vecSet_def Let_def last msgEnd_def)
  moreover have "\<exists>an c. commitRound args a ?r = Inr (?r\<lparr>appendNums := an, commitIndex := c\<rparr>) \<and>
      length an = length (appendNums ?r)"
    by (rule commitRound_returns) (use len a e in \<open>simp_all add: last\<close>)
  then obtain an c where "commitRound args a ?r = Inr (?r\<lparr>appendNums := an, commitIndex := c\<rparr>)"
    "length an = length (appendNums r)" by auto
  moreover have "indices_ok (?r\<lparr>appendNums := an, commitIndex := c\<rparr>)" for an c
  proof -
    have last2: "getLastLogIndex (?r\<lparr>appendNums := an, commitIndex := c\<rparr>) = getLastLogIndex r"
      by (rule log_funs_cong(2)) simp_all
    show ?thesis unfolding indices_ok_def last2
      using idx lead m len np by (auto simp: indices_ok_def nth_list_update)
  qed
  ultimately show ?thesis by auto
qed

lemma reply_returns:
  assumes inv: "raft_inv r" and idx: "indices_ok r"
    and p: "0 \<le> p" "p < int (npeers r)" "p \<noteq> raftId r" and a: "a < length (appendNums r)"
    and e: "status r = Leader \<and> currentTerm r = ae_term args \<longrightarrow> msgEnd args \<le> getLastLogIndex r"
    and ans: "isOk \<longrightarrow> answer_ok args reply"
  shows "\<exists>r'. sendAppendEntries p args isOk reply a r = Inr r' \<and> indices_ok r' \<and>
    length (appendNums r') = length (appendNums r)"
proof -
  consider "\<not> isOk \<or> aer_appstate reply = Disconnected \<or> aer_term reply < currentTerm r \<or>
      (aer_term reply = currentTerm r \<and> status r \<noteq> Leader)"
    | "isOk" "aer_appstate reply \<noteq> Disconnected" "aer_term reply > currentTerm r"
    | (own) "isOk" "aer_appstate reply \<noteq> Disconnected" "aer_term reply = currentTerm r" "status r = Leader"
    by linarith
  then show ?thesis
  proof cases
    case own
    have nI: "nat p < length (nextIndex r)" "int (nat p) = p" using inv p by (auto simp: raft_inv_def)
    show ?thesis
    proof (cases "aer_success reply")
      case True
      then have "msgEnd args \<le> getLastLogIndex r" using own e ans by (auto simp: answer_ok_def)
      from accepted_returns[OF inv idx own(4) p a this] show ?thesis
        using own True by (simp add: sendAppendEntries_def)
    next
      case refused: False
      show ?thesis
      proof (cases "aer_updatenextindex reply = -100")
        case True
        then show ?thesis using own refused idx by (simp add: sendAppendEntries_def)
      next
        case False
        let ?ni = "(nextIndex r)[nat p := aer_updatenextindex reply]"
        have "1 \<le> aer_updatenextindex reply" "aer_updatenextindex reply \<le> getLastLogIndex r"
          using own refused False ans e by (auto simp: answer_ok_def msgEnd_def)
        moreover have "getLastLogIndex (r\<lparr>nextIndex := ?ni\<rparr>) = getLastLogIndex r" by (rule log_funs_cong(2)) simp_all
        ultimately have "indices_ok (r\<lparr>nextIndex := ?ni\<rparr>)"
          using idx nI(1) by (simp add: indices_ok_def nth_list_update)
        then show ?thesis using own refused False nI p(1) by (simp add: sendAppendEntries_def vecSet_def)
      qed
    qed
  qed (use idx in \<open>auto simp: sendAppendEntries_def indices_ok_def\<close>)
qed

lemma heartBeat_returns:
  assumes "raft_inv r" and "indices_ok r"
  shows "\<exists>r' sp. doHeartBeat now r = Inr (r', sp)"
proof (cases "status r = Leader")
  case True
  let ?r = "r\<lparr>appendNums := appendNums r @ [1]\<rparr>"
  have inv: "raft_inv ?r" using raft_inv_cong[of ?r r] assms(1) by simp
  have last: "getLastLogIndex ?r = getLastLogIndex r" by (rule log_funs_cong(2)) simp_all
  have "\<exists>x. heartBeatTo ?r (length (appendNums r)) i = Inr x" if "i < npeers r" "int i \<noteq> raftId r" for i
    using heartBeatTo_wf[OF inv, of i] that assms(2) True last by (auto simp: indices_ok_def)
  then have "mapR (heartBeatTo ?r (length (appendNums r))) (filter (\<lambda>i. int i \<noteq> raftId r) [0..<npeers r]) =
      Inr (map (\<lambda>i. projr (heartBeatTo ?r (length (appendNums r)) i)) (filter (\<lambda>i. int i \<noteq> raftId r) [0..<npeers r]))"
    by (intro mapR_Inr) (auto, metis sum.sel(2))
  then show ?thesis using True by (auto simp: doHeartBeat_def Let_def)
qed (simp add: doHeartBeat_def)

section \<open>Every step keeps the invariant\<close>

lemma plain_log_step:
  assumes "plain_log C r" and "lastSnapshotIncludeIndex r' = 0" "lastSnapshotIncludeTerm r' = 0"
    and "savedState C (persister r') = savedState C (persister r) \<or> savedState C (persister r') = Inr (hardState r')"
  shows "plain_log C r'"
  using assms by (auto simp: plain_log_def hardState_def)

lemma sent_ok_grows:
  assumes "sent_ok n s j args" and "\<And>k. k \<noteq> i \<Longrightarrow> node s' k = node s k" and "grows X (node s i) (node s' i)"
    and "leaderships (voting s) \<subseteq> leaderships (voting s')"
  shows "sent_ok n s' j args"
proof -
  from assms(1) obtain k where k: "k < n" "ae_leaderid args = int k" "k \<noteq> j" "(k, ae_term args) \<in> leaderships (voting s)"
    "status (node s k) = Leader \<and> currentTerm (node s k) = ae_term args \<longrightarrow> msgEnd args \<le> getLastLogIndex (node s k)"
    and p: "0 \<le> ae_prevlogindex args" "ae_prevlogindex args = 0 \<longrightarrow> ae_prevlogterm args = 0"
    unfolding sent_ok_def by blast
  have "status (node s' k) = Leader \<and> currentTerm (node s' k) = ae_term args \<longrightarrow> msgEnd args \<le> getLastLogIndex (node s' k)"
    using k(5) assms(2)[of k] assms(3) by (cases "k = i") (auto simp: grows_def)
  then show ?thesis unfolding sent_ok_def using k(1-4) p assms(4) by blast
qed

lemma thread_ok_step:
  assumes "thread_ok n s w" and "appends s \<subseteq> appends s'"
    and "\<And>k. k = fst w \<Longrightarrow> length (appendNums (node s k)) \<le> length (appendNums (node s' k))"
  shows "thread_ok n s' w"
  using assms by (fastforce simp: thread_ok_def split: prod.splits)

lemma replication_node_step:
  assumes inv: "replication_inv C n s" and C: "codec_ok C" and i: "i < n"
    and step: "replicaStep C n False s s'" and other: "otherStep C (node s i) r'"
    and s': "voting s' = voting (setNode i r' s)" and grows: "grows X (node s i) r'"
    and plain: "lastSnapshotIncludeIndex r' = 0" "lastSnapshotIncludeTerm r' = 0"
    and idx: "indices_ok r'" and nums: "length (appendNums (node s i)) \<le> length (appendNums r')"
    and sub: "appends s \<subseteq> appends s'"
    and msgs: "\<And>j args. (j, args) \<in> appends s' \<Longrightarrow> (j, args) \<notin> appends s \<Longrightarrow> sent_ok n s' j args"
    and threads: "\<And>w. w \<in> appendThreads s' \<Longrightarrow> w \<notin> appendThreads s \<Longrightarrow> thread_ok n s' w"
    and answers: "\<And>j args reply. (j, args, reply) \<in> appendAnswers s' \<Longrightarrow> (j, args, reply) \<notin> appendAnswers s \<Longrightarrow>
      answer_ok args reply"
  shows "replication_inv C n s'"
proof -
  note D = replication_invD[OF inv]
  have node: "node s' k = (if k = i then r' else node s k)" for k unfolding s' by simp
  have lead: "leaderships (voting s') = leaderships (voting s)" unfolding s' by simp
  have "server_inv C (node s i)" using entries_invD(7)[OF D(1) i] .
  then have k: "votes_kept C (node s i) r'" using otherStep_keeps[OF other C] by simp
  have pl: "plain_log C r'" by (rule plain_log_step[OF D(2)[OF i] plain]) (use k in \<open>simp add: votes_kept_def\<close>)
  show ?thesis
  proof (rule replication_invI)
    show "entries_inv C n s'" using entries_step[OF C D(1) step] .
    show "plain_log C (node s' j)" "indices_ok (node s' j)" if "j < n" for j
      using that pl idx D(2,3) node by simp_all
    show "sent_ok n s' j args" if m: "(j, args) \<in> appends s'" for j args
    proof (cases "(j, args) \<in> appends s")
      case True
      show ?thesis by (rule sent_ok_grows[OF D(4)[OF True], of i _ X]) (use grows in \<open>simp_all add: node lead\<close>)
    qed (use msgs[OF m] in simp)
    show "thread_ok n s' w" if w: "w \<in> appendThreads s'" for w
    proof (cases "w \<in> appendThreads s")
      case True
      show ?thesis by (rule thread_ok_step[OF D(5)[OF True] sub]) (use nums in \<open>simp add: node\<close>)
    qed (use threads[OF w] in simp)
    show "answer_ok args reply" if a: "(j, args, reply) \<in> appendAnswers s'" for j args reply
      using answers[OF a] D(6) by (cases "(j, args, reply) \<in> appendAnswers s") simp_all
  qed
qed

lemma replication_heartBeat:
  assumes inv: "replication_inv C n s" and C: "codec_ok C" and i: "i < n"
    and hb: "doHeartBeat now (node s i) = Inr (r', sp)"
    and s': "s' = (setNode i r' s)\<lparr>appends := appends s \<union> sentAppends sp, appendThreads := appendThreads s \<union> appendThreadsOf i sp\<rparr>"
  shows "replication_inv C n s'"
proof -
  note D = replication_invD[OF inv]
  note E = entries_invD[OF D(1)]
  note h = doHeartBeat_form[OF E(8)[OF i] hb]
  have pl: "lastSnapshotIncludeIndex (node s i) = 0" "lastSnapshotIncludeTerm (node s i) = 0"
    using D(2)[OF i] by (simp_all add: plain_log_def)
  have np: "npeers (node s i) = n" "raftId (node s i) = int i" using E(10)[OF i] by simp_all
  have "votes_kept C (node s i) r'" using heartBeat_keeps[OF E(7)[OF i] hb] by simp
  then have idx: "indices_ok r'" using D(3)[OF i] h(3,5,8,9) by (auto simp: indices_ok_def votes_kept_def)
  have sp: "sent_ok n s' (nat p) args \<and> thread_ok n s' (i, p, args, a)" if m: "SendAppendEntries p args a \<in> set sp" for p args a
  proof -
    note f = h(11)[OF m, unfolded np pl]
    have "(i, ae_term args) \<in> leaderships (voting s)" using E(9)[OF i] f by simp
    moreover have "(nat p, args) \<in> sentAppends sp" using m by (auto simp: sentAppends_def)
    ultimately show ?thesis using f i h(3) by (auto simp: sent_ok_def thread_ok_def s' msgEnd_def)
  qed
  have step: "replicaStep C n False s s'" unfolding s' by (rule r_heartBeat[OF i hb])
  show ?thesis
    by (rule replication_node_step[OF inv C i step heartBeat[OF hb] _ h(1)])
      (use pl h idx in simp_all, use sp in \<open>auto simp: s' sentAppends_def appendThreadsOf_def\<close>)
qed

lemma replication_append:
  assumes inv: "replication_inv C n s" and C: "codec_ok C" and j: "j < n" and msg: "(j, args) \<in> appends s"
    and app: "appendEntriesimpl C now args (node s j) = Inr (reply, r')"
    and s': "s' = (setNode j r' s)\<lparr>appendAnswers := insert (j, args, reply) (appendAnswers s)\<rparr>"
  shows "replication_inv C n s'"
proof -
  note D = replication_invD[OF inv]
  note E = entries_invD[OF D(1)]
  have cont: "contiguous (ae_prevlogindex args) (ae_entries args)" using E(6)[OF msg] by (simp add: message_ok_def)
  have pl: "lastSnapshotIncludeIndex (node s j) = 0" "lastSnapshotIncludeTerm (node s j) = 0"
    using D(2)[OF j] by (simp_all add: plain_log_def)
  have prev: "0 \<le> ae_prevlogindex args" "ae_prevlogindex args = 0 \<longrightarrow> ae_prevlogterm args = 0"
    using D(4)[OF msg] by (auto simp: sent_ok_def)
  note f = follower_answers[OF E(8)[OF j] pl prev cont app]
  then have idx: "indices_ok r'" using D(3)[OF j] by (auto simp: indices_ok_def)
  have step: "replicaStep C n False s s'" unfolding s' by (rule r_append[OF j msg app])
  show ?thesis
    by (rule replication_node_step[OF inv C j step append[OF cont app] _ append_grows[OF E(8)[OF j] cont app]])
      (use f idx in \<open>auto simp: s'\<close>)
qed

text \<open>What a waiting thread finds: its message covered by the log, if the server still leads that term.\<close>

lemma thread_facts:
  assumes inv: "replication_inv C n s" and w: "(i, p, args, a) \<in> appendThreads s"
    and ans: "isOk \<Longrightarrow> (nat p, args, reply) \<in> appendAnswers s"
  shows "i < n" "0 \<le> p" "p < int (npeers (node s i))" "p \<noteq> raftId (node s i)" "a < length (appendNums (node s i))"
    "status (node s i) = Leader \<and> currentTerm (node s i) = ae_term args \<longrightarrow> msgEnd args \<le> getLastLogIndex (node s i)"
    "isOk \<longrightarrow> answer_ok args reply"
proof -
  note D = replication_invD[OF inv]
  have t: "i < n" "0 \<le> p" "p < int n" "p \<noteq> int i" "(nat p, args) \<in> appends s" "ae_leaderid args = int i"
    "a < length (appendNums (node s i))" using D(5)[OF w] by (simp_all add: thread_ok_def)
  then show "i < n" "0 \<le> p" "p < int (npeers (node s i))" "p \<noteq> raftId (node s i)" "a < length (appendNums (node s i))"
    using entries_invD(10)[OF D(1) t(1)] by simp_all
  show "status (node s i) = Leader \<and> currentTerm (node s i) = ae_term args \<longrightarrow> msgEnd args \<le> getLastLogIndex (node s i)"
    using D(4)[OF t(5)] t(6) by (auto simp: sent_ok_def)
  show "isOk \<longrightarrow> answer_ok args reply" using D(6) ans by blast
qed

lemma replication_reply:
  assumes inv: "replication_inv C n s" and C: "codec_ok C" and w: "(i, p, args, a) \<in> appendThreads s"
    and ans: "isOk \<Longrightarrow> (nat p, args, reply) \<in> appendAnswers s"
    and send: "sendAppendEntries p args isOk reply a (node s i) = Inr r'"
    and s': "s' = (setNode i r' s)\<lparr>appendThreads := appendThreads s - {(i, p, args, a)}\<rparr>"
  shows "replication_inv C n s'"
proof -
  note D = replication_invD[OF inv]
  note t = thread_facts[where isOk = isOk and reply = reply, OF inv w ans]
  note E = entries_invD[OF D(1)]
  have f: "indices_ok r'" "length (appendNums r') = length (appendNums (node s i))"
    using reply_returns[OF E(8)[OF t(1)] D(3)[OF t(1)] t(2-7)] send by auto
  have pl: "lastSnapshotIncludeIndex r' = 0" "lastSnapshotIncludeTerm r' = 0"
    using sendAppendEntries_form[OF send] D(2)[OF t(1)] progressed_log by (auto simp: plain_log_def)
  have step: "replicaStep C n False s s'" unfolding s' by (rule r_reply[OF w t(1) ans send])
  show ?thesis
    by (rule replication_node_step[OF inv C t(1) step appendReply[OF send] _ sendAppendEntries_grows[OF send] pl f(1)])
      (use f in \<open>auto simp: s'\<close>)
qed

lemma start_fields:
  assumes "start C op r = (res, r')"
  shows "lastSnapshotIncludeIndex r' = lastSnapshotIncludeIndex r" "lastSnapshotIncludeTerm r' = lastSnapshotIncludeTerm r"
    "nextIndex r' = nextIndex r" "matchIndex r' = matchIndex r" "appendNums r' = appendNums r" "npeers r' = npeers r"
    "raftId r' = raftId r"
  using assms by (auto simp: start_def Let_def split: if_splits)

lemma replication_command:
  assumes inv: "replication_inv C n s" and C: "codec_ok C" and i: "i < n"
    and start: "start C op (node s i) = ((x, t, isLeader), r')"
    and s': "s' = (setNode i r' s)\<lparr>created := (if isLeader then insert (x, t, op) (created s) else created s)\<rparr>"
  shows "replication_inv C n s'"
proof -
  note D = replication_invD[OF inv]
  note g = start_grows(1)[OF entries_invD(8)[OF D(1) i] start]
  note f = start_fields[OF start]
  have step: "replicaStep C n False s s'" unfolding s' by (rule r_command[OF i start])
  have "indices_ok r'" using D(3)[OF i] f g by (fastforce simp: indices_ok_def grows_def)
  then show ?thesis
    by (intro replication_node_step[OF inv C i step command_[OF start] _ g])
      (use f D(2)[OF i] in \<open>auto simp: s' plain_log_def\<close>)
qed

lemma local_fields:
  assumes "server_inv C r" and "localStep C False r r'"
  shows "\<exists>c la. r' = r\<lparr>commitIndex := c, lastApplied := la\<rparr>"
  using assms(2)
proof cases
  case l_commit
  have "commitIndex r \<le> getLastLogIndex r" using assms(1) by (simp add: server_inv_def raft_inv_def)
  then obtain c where "r' = r\<lparr>commitIndex := c\<rparr>"
    using commitScan_form[of r "nat (getLastLogIndex r - commitIndex r)" r'] l_commit
    by (auto simp: leaderUpdateCommitIndex_def)
  then show ?thesis by (intro exI[of _ c] exI[of _ "lastApplied r"]) simp
next
  case (l_apply ms)
  then have "r' = r\<lparr>lastApplied := max (lastApplied r) (commitIndex r)\<rparr>"
    using getApplyLogs_wf[of r] assms(1) by (simp add: server_inv_def)
  then show ?thesis by (intro exI[of _ "commitIndex r"] exI[of _ "max (lastApplied r) (commitIndex r)"]) simp
qed simp_all

lemma replication_local:
  assumes inv: "replication_inv C n s" and C: "codec_ok C" and i: "i < n" and loc: "localStep C False (node s i) r'"
  shows "replication_inv C n (setNode i r' s)"
proof -
  note D = replication_invD[OF inv]
  have sinv: "server_inv C (node s i)" using entries_invD(7)[OF D(1) i] .
  have other: "otherStep C (node s i) r'" using loc by cases (auto intro: otherStep.intros)
  obtain c la where r': "r' = (node s i)\<lparr>commitIndex := c, lastApplied := la\<rparr>" using local_fields[OF sinv loc] by blast
  have last: "getLastLogIndex r' = getLastLogIndex (node s i)" by (rule log_funs_cong(2)) (simp_all add: r')
  have "indices_ok r'" using D(3)[OF i] by (simp add: indices_ok_def last) (simp add: r')
  then show ?thesis
    by (intro replication_node_step[OF inv C i r_local[OF i loc] other _ local_grows[OF C sinv loc]])
      (use D(2)[OF i] in \<open>auto simp: r' plain_log_def\<close>)
qed

lemma vote_indices:
  assumes k: "election_kept C r r'" and inv: "raft_inv r" and ok: "indices_ok r"
    and same: "npeers r' = npeers r" "raftId r' = raftId r"
  shows "indices_ok r'"
proof (cases "status r = Leader")
  case True
  have "getLastLogIndex r' = getLastLogIndex r"
    by (rule log_funs_cong(2)) (use k in \<open>simp_all add: election_kept_def\<close>)
  with True show ?thesis using ok k same by (simp add: indices_ok_def election_kept_def)
next
  case False
  have "getLastLogIndex r' = getLastLogIndex r"
    by (rule log_funs_cong(2)) (use k in \<open>simp_all add: election_kept_def\<close>)
  moreover have "length (nextIndex r) = npeers r" "0 \<le> getLastLogIndex r" using inv by (auto simp: raft_inv_def)
  ultimately show ?thesis using False k same by (simp add: indices_ok_def election_kept_def)
qed

lemma vote_sent:
  assumes inv: "replication_inv C n s" and C: "codec_ok C" and vote: "voteStep C n (voting s) c"
    and m: "(j, args) \<in> appends s"
  shows "sent_ok n (s\<lparr>voting := c\<rparr>) j args"
proof -
  note D = replication_invD[OF inv]
  note E = entries_invD[OF D(1)]
  have lsub: "leaderships (voting s) \<subseteq> leaderships c" using vote by (cases rule: voteStep.cases) auto
  from D(4)[OF m] obtain k where k: "k < n" "ae_leaderid args = int k" "k \<noteq> j" "(k, ae_term args) \<in> leaderships (voting s)"
    "status (node s k) = Leader \<and> currentTerm (node s k) = ae_term args \<longrightarrow> msgEnd args \<le> getLastLogIndex (node s k)"
    and p: "0 \<le> ae_prevlogindex args" "ae_prevlogindex args = 0 \<longrightarrow> ae_prevlogterm args = 0"
    unfolding sent_ok_def by blast
  note kept = voteStep_kept[OF C E(1) vote k(1), unfolded election_kept_def]
  have last: "getLastLogIndex (servers c k) = getLastLogIndex (node s k)"
    by (rule log_funs_cong(2)) (use kept in simp_all)
  have "msgEnd args \<le> getLastLogIndex (servers c k)"
    if "status (servers c k) = Leader" "currentTerm (servers c k) = ae_term args"
  proof (cases "status (node s k) = Leader")
    case True
    then show ?thesis using k(5) that kept last by simp
  next
    case False
    from win_fresh(1)[OF C E(1,2) vote False that(1)] k(4) that(2) show ?thesis by simp
  qed
  then show ?thesis unfolding sent_ok_def using k(1-4) p lsub by auto
qed

lemma replication_vote:
  assumes inv: "replication_inv C n s" and C: "codec_ok C" and vote: "voteStep C n (voting s) c"
  shows "replication_inv C n (s\<lparr>voting := c\<rparr>)"
proof -
  note D = replication_invD[OF inv]
  note E = entries_invD[OF D(1)]
  have kept: "election_kept C (node s k) (servers c k)" if "k < n" for k
    using voteStep_kept[OF C E(1) vote that] .
  have inv': "entries_inv C n (s\<lparr>voting := c\<rparr>)" using entries_vote[OF C D(1) vote] .
  have "indices_ok (servers c k)" if k: "k < n" for k
    by (rule vote_indices[OF kept[OF k] E(8)[OF k] D(3)[OF k]])
      (use entries_invD(10)[OF inv' k] E(10)[OF k] in simp_all)
  moreover have "thread_ok n (s\<lparr>voting := c\<rparr>) w" if "w \<in> appendThreads s" for w
    using D(5)[OF that] kept by (auto simp: thread_ok_def election_kept_def)
  moreover have "plain_log C (servers c k)" if k: "k < n" for k
    by (rule plain_log_step[OF D(2)[OF k]])
      (use D(2)[OF k] kept[OF k] in \<open>simp_all add: plain_log_def election_kept_def\<close>)
  ultimately show ?thesis
    using inv' D(6) vote_sent[OF inv C vote] by (intro replication_invI) simp_all
qed

lemma replication_restart:
  assumes inv: "replication_inv C n s" and C: "codec_ok C" and i: "i < n"
    and init: "initRaft C n (int i) (persister (node s i)) now = Inr r'"
  shows "replication_inv C n (s\<lparr>voting := restarted i r' (voting s), appendThreads := {w \<in> appendThreads s. fst w \<noteq> i}\<rparr>)"
    (is "replication_inv C n ?s")
proof -
  note D = replication_invD[OF inv]
  have sinv: "server_inv C (node s i)" using entries_invD(7)[OF D(1) i] .
  from initRaft_inv[of "persister (node s i)" C n "int i" now] init sinv
  have f: "persister r' = persister (node s i)" "savedState C (persister (node s i)) = Inr (hardState r')"
    by (auto simp: server_inv_def)
  have fol: "status r' = Follower" using initRaft_fresh[OF init] by simp
  have plain: "plain_log C r'" using D(2)[OF i] f by (auto simp: plain_log_def hardState_def)
  have idx: "indices_ok r'" using fol by (simp add: indices_ok_def)
  have "grows {} r'' r'" if "set (logs r') \<subseteq> set (logs r'')" for r'' using that fol by (simp add: grows_def)
  have "sent_ok n ?s j args" if m: "(j, args) \<in> appends s" for j args
    using D(4)[OF m] fol by (fastforce simp: sent_ok_def)
  moreover have "thread_ok n ?s w" if "w \<in> appendThreads s" "fst w \<noteq> i" for w
    using D(5)[OF that(1)] that(2) by (auto simp: thread_ok_def)
  moreover have "entries_inv C n ?s" using entries_restart[OF C D(1) i init] .
  ultimately show ?thesis using D(2,3,6) plain idx by (intro replication_invI) auto
qed

lemma replication_step:
  assumes "codec_ok C" and "replication_inv C n s" and "replicaStep C n False s s'"
  shows "replication_inv C n s'"
  using assms(3)
proof cases
  case (r_vote c)
  then show ?thesis using replication_vote[OF assms(2,1)] by simp
next
  case (r_restart i now r')
  then show ?thesis using replication_restart[OF assms(2,1)] by simp
next
  case (r_command i op x t isLeader r')
  then show ?thesis using replication_command[OF assms(2,1)] by blast
next
  case (r_heartBeat i now r' sp)
  then show ?thesis using replication_heartBeat[OF assms(2,1)] by blast
next
  case (r_append j args now reply r')
  then show ?thesis using replication_append[OF assms(2,1)] by blast
next
  case (r_reply i p args a isOk reply r')
  then show ?thesis using replication_reply[OF assms(2,1) r_reply(2)] by blast
next
  case (r_local i r')
  then show ?thesis using replication_local[OF assms(2,1)] by blast
qed

lemma replication_init:
  assumes "replicaInit C n s"
  shows "replication_inv C n s"
proof -
  have E: "entries_inv C n s" using entries_init[OF assms] .
  have first: "status (node s i) = Follower \<and> plain_log C (node s i)" if i: "i < n" for i
  proof -
    from assms i obtain p now where p: "p_ok p" "saved_ok C p" "initRaft C n (int i) p now = Inr (node s i)"
      unfolding replicaInit_def clusterInit_def by blast
    from initRaft_inv[OF p(1,2), of n "int i" now] p(3)
    have "persister (node s i) = p" "savedState C p = Inr (hardState (node s i))" by auto
    then show ?thesis using assms i initRaft_fresh[OF p(3)] by (auto simp: replicaInit_def hardState_def plain_log_def)
  qed
  show ?thesis
    by (rule replication_invI) (use E first assms in \<open>auto simp: indices_ok_def replicaInit_def\<close>)
qed

interpretation replication: invariant_of "replicaInit C n" "guardedReplicas C n False" "replication_inv C n" for C n
  by unfold_locales (auto simp: guardedReplicas_def replication_init replication_step)

lemma replication_reach_inv:
  assumes "codec_ok C" and "reach (replicaInit C n) (replicaStep C n False) s"
  shows "replication_inv C n s"
proof -
  have "guardedReplicas C n False = replicaStep C n False" using assms(1) by (intro ext) (simp add: guardedReplicas_def)
  then show ?thesis using replication.reach_inv[of C n s] assms(2) by simp
qed

end
