(* ===== verification/RaftReplicaTheorems.thy ===== *)
theory RaftReplicaTheorems
  imports RaftNoPanic RaftTheorems
begin

text \<open>
  The properties of replication in a whole cluster, and why the second needs a cluster without snapshots.
\<close>

section \<open>An example run\<close>

definition sampleReplicas :: "cluster \<Rightarrow> replicas" where
  "sampleReplicas c = \<lparr>voting = c, appends = {}, appendThreads = {}, appendAnswers = {}, created = {}\<rparr>"

lemma sampleReplicas_votes:
  assumes "reach (\<lambda>c. c = sampleCluster 2) (voteStep sampleCodec 2) c"
  shows "reach (replicaInit sampleCodec 2) (replicaStep sampleCodec 2 snaps) (sampleReplicas c)"
  using assms
proof (induction rule: reach.induct)
  case (reach_init c)
  then have "replicaInit sampleCodec 2 (sampleReplicas c)"
    using sampleCluster_init sampleServer_init(3)
    by (simp add: replicaInit_def sampleReplicas_def) (simp add: sampleCluster_def)
  then show ?case by (rule reach.reach_init)
next
  case (reach_step c c')
  have "replicaStep sampleCodec 2 snaps (sampleReplicas c) (sampleReplicas c\<lparr>voting := c'\<rparr>)"
    by (rule r_vote) (use reach_step.hyps(2) in \<open>simp add: sampleReplicas_def\<close>)
  then have "replicaStep sampleCodec 2 snaps (sampleReplicas c) (sampleReplicas c')" by (simp add: sampleReplicas_def)
  with reach_step.IH show ?case by (rule reach.reach_step)
qed

text \<open>Server 0 of two is elected, accepts a command and sends it.\<close>

abbreviation sampleEntry :: logEntry where
  "sampleEntry \<equiv> \<lparr>command = ''x'', logterm = 1, logindex = 1\<rparr>"

lemma sample_command:
  "\<exists>s. reach (replicaInit sampleCodec 2) (replicaStep sampleCodec 2 False) s \<and>
     status (node s 0) = Leader \<and> logs (node s 0) = [sampleEntry] \<and>
     lastSnapshotIncludeIndex (node s 0) = 0 \<and> nextIndex (node s 0) ! 1 = 1"
proof -
  from sample_elected obtain c where c: "reach (\<lambda>c. c = sampleCluster 2) (voteStep sampleCodec 2) c"
    "status (servers c 0) = Leader" "currentTerm (servers c 0) = 1" by blast
  let ?s = "sampleReplicas c" and ?r = "servers c 0"
  have reach0: "reach (replicaInit sampleCodec 2) (replicaStep sampleCodec 2 False) ?s"
    using sampleReplicas_votes[OF c(1)] .
  have node0: "node ?s 0 = ?r" by (simp add: sampleReplicas_def)
  note inv = replication_invD[OF replication_reach_inv[OF sampleCodec_ok reach0]]
  note E = entries_invD[OF inv(1)]
  have rinv: "raft_inv ?r" using E(8)[of 0] node0 by simp
  have empty: "logs ?r = []" using E(4)[of 0] node0 by (simp add: entries_ok_def sampleReplicas_def)
  have plain: "lastSnapshotIncludeIndex ?r = 0" using inv(2)[of 0] node0 by (simp add: plain_log_def)
  have last: "getLastLogIndex ?r = 0" using lastLogIndex_wf[of ?r] rinv empty plain by (simp add: raft_inv_def)
  obtain x t isLeader r1 where st: "start sampleCodec ''x'' ?r = ((x, t, isLeader), r1)" by (metis prod_cases3 surj_pair)
  have r1: "logs r1 = [sampleEntry]" "status r1 = Leader" "currentTerm r1 = 1" "isLeader"
    using start_leader(1)[OF rinv c(2), of sampleCodec "''x''"] st empty last c(2,3) by auto
  let ?s1 = "(setNode 0 r1 ?s)\<lparr>created := (if isLeader then insert (x, t, ''x'') (created ?s) else created ?s)\<rparr>"
  have step1: "replicaStep sampleCodec 2 False ?s ?s1"
    by (rule r_command) (use st node0 in simp_all)
  have "1 \<le> nextIndex ?r ! 1 \<and> nextIndex ?r ! 1 \<le> getLastLogIndex ?r + 1"
    using inv(3)[of 0] node0 c(2) E(10)[of 0] unfolding indices_ok_def by (auto dest!: spec[of _ 1])
  then have "nextIndex r1 ! 1 = 1" using last start_fields(3)[OF st] by simp
  then show ?thesis
    using reach_step[OF reach0 step1] r1 start_fields(1)[OF st] plain by (intro exI[of _ ?s1]) simp
qed

lemma sample_sent:
  "\<exists>s args. reach (replicaInit sampleCodec 2) (replicaStep sampleCodec 2 False) s \<and>
     status (node s 0) = Leader \<and> logs (node s 0) = [sampleEntry] \<and> (1, args) \<in> appends s \<and>
     ae_entries args = [sampleEntry] \<and> appendThreads s \<noteq> {}"
proof -
  from sample_command obtain s where reach1: "reach (replicaInit sampleCodec 2) (replicaStep sampleCodec 2 False) s"
    and n: "status (node s 0) = Leader" "logs (node s 0) = [sampleEntry]" "lastSnapshotIncludeIndex (node s 0) = 0"
      "nextIndex (node s 0) ! 1 = 1" by blast
  let ?r = "node s 0"
  note inv = replication_invD[OF replication_reach_inv[OF sampleCodec_ok reach1]]
  note E = entries_invD[OF inv(1)]
  have rinv: "raft_inv ?r" and np: "npeers ?r = 2" "raftId ?r = 0" using E(8,10)[of 0] by simp_all
  obtain r2 sp where hb: "doHeartBeat 5 ?r = Inr (r2, sp)" using heartBeat_returns[OF rinv, of 5] inv(3)[of 0] by auto
  let ?q = "?r\<lparr>appendNums := appendNums ?r @ [1]\<rparr>"
  let ?args = "heartBeatMsg ?q 1"
  have "heartBeatTo ?q (length (appendNums ?r)) 1 = Inr (SendAppendEntries 1 ?args (length (appendNums ?r)))"
    using heartBeatTo_wf[of ?q 1] raft_inv_cong[of ?q ?r] rinv np n log_funs_cong(2)[of ?q ?r]
      lastLogIndex_wf[of ?r] by (simp add: raft_inv_def)
  then have sp: "SendAppendEntries 1 ?args (length (appendNums ?r)) \<in> set sp"
    using hb n(1) np by (auto simp: doHeartBeat_def Let_def andThen_eq_Inr numeral_2_eq_2)
  let ?s2 = "(setNode 0 r2 s)\<lparr>appends := appends s \<union> sentAppends sp, appendThreads := appendThreads s \<union> appendThreadsOf 0 sp\<rparr>"
  have "replicaStep sampleCodec 2 False s ?s2" by (rule r_heartBeat) (use hb in simp_all)
  with reach1 have "reach (replicaInit sampleCodec 2) (replicaStep sampleCodec 2 False) ?s2" by (rule reach_step)
  moreover have "(1, ?args) \<in> sentAppends sp" "appendThreadsOf 0 sp \<noteq> {}"
    using sp by (force simp: sentAppends_def appendThreadsOf_def)+
  moreover have "ae_entries ?args = [sampleEntry]" using n by (simp add: heartBeatMsg_def)
  moreover have "status r2 = Leader" "logs r2 = [sampleEntry]"
    using doHeartBeat_form(2,5)[OF rinv hb] n by simp_all
  ultimately show ?thesis by (intro exI[of _ ?s2] exI[of _ ?args]) simp
qed

section \<open>Properties\<close>

text \<open>C4: In every reachable state of a cluster, with messages lost, delayed or repeated, restarts, and snapshots taken
  and installed at any index, two log entries of the same index and term are equal, on whatever servers they are; and
  no message of a leader makes a follower's handler fail, in particular not the assertion against a different command.\<close>

theorem one_command_per_index_and_term:
  assumes "codec_ok C" and "reach (replicaInit C n) (replicaStep C n snaps) s"
  shows "(\<forall>i<n. \<forall>j<n. \<forall>e\<in>set (logs (node s i)). \<forall>f\<in>set (logs (node s j)).
      logindex e = logindex f \<and> logterm e = logterm f \<longrightarrow> e = f) \<and>
    (\<forall>j<n. \<forall>args now. (j, args) \<in> appends s \<longrightarrow> returns (appendEntriesimpl C now args (node s j)))"
proof -
  note inv = replicas_reach_inv[OF assms]
  note E = entries_invD[OF inv]
  have "entryKey e \<in> created s" if "i < n" "e \<in> set (logs (node s i))" for i e
    using E(4)[OF that(1)] that(2) by (auto simp: entries_ok_def)
  then have "e = f" if "i < n" "j < n" "e \<in> set (logs (node s i))" "f \<in> set (logs (node s j))"
    "logindex e = logindex f" "logterm e = logterm f" for i j e f
    using entry_unique[OF E(3)] that by blast
  moreover have "returns (appendEntriesimpl C now args (node s j))" if "j < n" "(j, args) \<in> appends s" for j args now
    using follower_returns[OF inv that(1) that(2)] by (auto simp: returns_iff)
  ultimately show ?thesis by blast
qed

theorem one_command_per_index_and_term_witness:
  "\<exists>s args. ae_entries args = [sampleEntry] \<and> logs (node s 0) = [sampleEntry] \<and>
    (\<forall>e\<in>set (logs (node s 0)). \<forall>f\<in>set (logs (node s 1)). logindex e = logindex f \<and> logterm e = logterm f \<longrightarrow> e = f) \<and>
    returns (appendEntriesimpl sampleCodec 7 args (node s 1))"
proof -
  from sample_sent obtain s args where s: "reach (replicaInit sampleCodec 2) (replicaStep sampleCodec 2 False) s"
    "logs (node s 0) = [sampleEntry]" "(1, args) \<in> appends s" "ae_entries args = [sampleEntry]" by blast
  have "(0::nat) < 2" "(1::nat) < 2" by simp_all
  with one_command_per_index_and_term[OF sampleCodec_ok s(1)] s(3)
  have "\<forall>e\<in>set (logs (node s 0)). \<forall>f\<in>set (logs (node s 1)). logindex e = logindex f \<and> logterm e = logterm f \<longrightarrow> e = f"
    "returns (appendEntriesimpl sampleCodec 7 args (node s 1))" by blast+
  then show ?thesis using s(2,4) by (intro exI[of _ s] exI[of _ args]) simp
qed

text \<open>C6: In a cluster that takes no snapshots, no thread of replication ever fails: every heartbeat round
  of every server returns, the applier returns, and whatever a waiting thread gets back - nothing, or any answer its
  peer gave to its message, however late - it returns: no assertion fires and no index leaves a vector.\<close>

theorem replication_never_fails:
  assumes "codec_ok C" and "reach (replicaInit C n) (replicaStep C n False) s"
  shows "(\<forall>i<n. \<forall>now. returns (doHeartBeat now (node s i)) \<and> returns (getApplyLogs (node s i))) \<and>
    (\<forall>(i, p, args, a)\<in>appendThreads s. \<forall>isOk reply. (isOk \<longrightarrow> (nat p, args, reply) \<in> appendAnswers s) \<longrightarrow>
       returns (sendAppendEntries p args isOk reply a (node s i)))"
proof -
  note inv = replication_reach_inv[OF assms]
  note D = replication_invD[OF inv]
  note E = entries_invD[OF D(1)]
  have "returns (doHeartBeat now (node s i)) \<and> returns (getApplyLogs (node s i))" if "i < n" for i now
    using heartBeat_returns[OF E(8)[OF that] D(3)[OF that]] getApplyLogs_wf[OF E(8)[OF that]]
    by (auto simp: returns_iff)
  moreover have "returns (sendAppendEntries p args isOk reply a (node s i))"
    if w: "(i, p, args, a) \<in> appendThreads s" and ans: "isOk \<longrightarrow> (nat p, args, reply) \<in> appendAnswers s"
    for i p args a isOk reply
  proof -
    note t = thread_facts[where isOk = isOk and reply = reply, OF inv w ans[rule_format]]
    show ?thesis using reply_returns[OF E(8)[OF t(1)] D(3)[OF t(1)] t(2-7)] by (auto simp: returns_iff)
  qed
  ultimately show ?thesis by blast
qed

theorem replication_never_fails_witness:
  "\<exists>s i p args a. status (node s 0) = Leader \<and> logs (node s 0) = [sampleEntry] \<and> returns (doHeartBeat 9 (node s 0)) \<and>
    (i, p, args, a) \<in> appendThreads s \<and> returns (sendAppendEntries p args False emptyAppendReply a (node s i))"
proof -
  from sample_sent obtain s where s: "reach (replicaInit sampleCodec 2) (replicaStep sampleCodec 2 False) s"
    "status (node s 0) = Leader" "logs (node s 0) = [sampleEntry]" "appendThreads s \<noteq> {}" by blast
  then obtain i p args a where w: "(i, p, args, a) \<in> appendThreads s" by fast
  note t = replication_never_fails[OF sampleCodec_ok s(1)]
  have "returns (doHeartBeat 9 (node s 0))" using t by simp
  moreover have "returns (sendAppendEntries p args False emptyAppendReply a (node s i))"
    using bspec[OF t[THEN conjunct2] w] by simp
  ultimately show ?thesis using s w by blast
qed

section \<open>A snapshot ahead of the leader\<close>

text \<open>With snapshots a leader can fail.  A follower whose snapshot covers more than the leader's log answers with an
  index behind that log, the leader takes it for \<open>nextIndex\<close>, and its next round fails an assertion.  Such a leader can be
  elected, because an overwritten entry can leave a stale one behind it (\<open>RaftFindings.committed_entry_outvoted\<close>).\<close>

definition aheadFollower :: raft where
  "aheadFollower = (sampleServer 2 1)\<lparr>currentTerm := 2, lastSnapshotIncludeIndex := 4, lastSnapshotIncludeTerm := 1,
     commitIndex := 4, lastApplied := 4\<rparr>"

definition behindLeader :: raft where
  "behindLeader = (sampleServer 2 0)\<lparr>status := Leader, currentTerm := 2, logs := [\<lparr>command = ''y'', logterm = 2, logindex = 1\<rparr>],
     nextIndex := [2, 2], appendNums := [1]\<rparr>"

lemma snapshot_ahead_fails:
  "\<exists>args reply f l. heartBeatTo behindLeader 0 1 = Inr (SendAppendEntries 1 args 0) \<and>
     appendEntriesimpl C 3 args aheadFollower = Inr (reply, f) \<and>
     sendAppendEntries 1 args True reply 0 behindLeader = Inr l \<and> nextIndex l = [2, 5] \<and>
     doHeartBeat 4 l = Inl AssertFail"
proof -
  let ?args = "\<lparr>ae_term = 2, ae_leaderid = 0, ae_prevlogindex = 1, ae_prevlogterm = 2, ae_entries = [], ae_leadercommit = 0\<rparr>"
  let ?l = "behindLeader\<lparr>nextIndex := [2, 5]\<rparr>"
  let ?reply = "\<lparr>aer_term = 2, aer_success = False, aer_updatenextindex = 5, aer_appstate = AppNormal\<rparr>"
  have "heartBeatTo behindLeader 0 1 = Inr (SendAppendEntries 1 ?args 0)"
    by (simp add: heartBeatTo_def behindLeader_def sampleServer_def vecGet_def getPrevLogInfo_def entryAt_def
        getSlicesIndexFromLogIndex_def heartBeatEntries_def getLastLogIndex_def getLastLogIndexAndTerm_def)
  moreover have "\<exists>f. appendEntriesimpl C 3 ?args aheadFollower = Inr (?reply, f)"
    by (simp add: appendEntriesimpl_def aheadFollower_def sampleServer_def appendEntriesBody_def getLastLogIndex_def
        getLastLogIndexAndTerm_def)
  moreover have "sendAppendEntries 1 ?args True ?reply 0 behindLeader = Inr ?l"
    by (simp add: sendAppendEntries_def behindLeader_def sampleServer_def vecSet_def AppNormal_def Disconnected_def)
  moreover have "doHeartBeat 4 ?l = Inl AssertFail"
    by (simp add: doHeartBeat_def behindLeader_def sampleServer_def numeral_2_eq_2 heartBeatTo_def vecGet_def
        getPrevLogInfo_def entryAt_def getSlicesIndexFromLogIndex_def getLastLogIndex_def getLastLogIndexAndTerm_def)
  ultimately show ?thesis by fastforce
qed

end
