(* ===== verification/RaftFindings.thy ===== *)
theory RaftFindings
  imports RaftLogTheorems
begin

text \<open>
  Where the Raft code does not do what Raft needs: kept entries behind an overwritten one, the
  election ticker without a pause, commitment tied to one answer, and steps that are not durable.
\<close>

section \<open>A committed entry can be outvoted\<close>

text \<open>
  Five servers.  In term 1 server 2 led and brought \<open>b\<close> and \<open>c\<close> to server 1 only.  Server 0, 3 and 4
  elected server 0 for term 2, which took the command \<open>x\<close>.
\<close>

definition staleEntries :: "logEntry list" where
  "staleEntries = [\<lparr>command = ''b'', logterm = 1, logindex = 1\<rparr>, \<lparr>command = ''c'', logterm = 1, logindex = 2\<rparr>]"

definition newEntry :: logEntry where
  "newEntry = \<lparr>command = ''x'', logterm = 2, logindex = 1\<rparr>"

definition newLeader :: raft where
  "newLeader = (sampleServer 5 0)\<lparr>status := Leader, currentTerm := 2, votedFor := 0, logs := [newEntry],
     nextIndex := [1, 1, 1, 1, 1], appendNums := [1]\<rparr>"

definition staleServer :: "nat \<Rightarrow> raft" where
  "staleServer i = (sampleServer 5 i)\<lparr>currentTerm := 2, logs := staleEntries\<rparr>"

definition emptyServer :: "nat \<Rightarrow> raft" where
  "emptyServer i = (sampleServer 5 i)\<lparr>currentTerm := 2, votedFor := 0\<rparr>"

lemmas scenario_defs = newLeader_def staleServer_def emptyServer_def sampleServer_def staleEntries_def newEntry_def

lemma newLeader_msg: "heartBeatMsg newLeader 1 = \<lparr>ae_term = 2, ae_leaderid = 0, ae_prevlogindex = 0,
    ae_prevlogterm = 0, ae_entries = [newEntry], ae_leadercommit = 0\<rparr>"
  by (simp add: heartBeatMsg_def scenario_defs termAt_def)

definition okReply :: appendEntriesReply where
  "okReply = \<lparr>aer_term = 2, aer_success = True, aer_updatenextindex = 0, aer_appstate = AppNormal\<rparr>"

lemma stale_accepts:
  "\<exists>s. appendEntriesimpl C now (heartBeatMsg newLeader 1) (staleServer 1) = Inr (okReply, s) \<and>
     logs s = [newEntry, \<lparr>command = ''c'', logterm = 1, logindex = 2\<rparr>] \<and> lastSnapshotIncludeIndex s = 0 \<and>
     lastSnapshotIncludeTerm s = 0 \<and> currentTerm s = 2 \<and> votedFor s = -1"
  unfolding newLeader_msg
  by (simp add: appendEntriesimpl_def appendEntriesBody_def scenario_defs matchLog_def getLogTermFromLogIndex_def
      getLastLogIndex_def getLastLogIndexAndTerm_def storeEntry_def entryAt_def vecGet_def vecSet_def
      getSlicesIndexFromLogIndex_def Let_def okReply_def)

lemma empty_accepts:
  "\<exists>s. appendEntriesimpl C now (heartBeatMsg newLeader 1) (emptyServer 3) = Inr (okReply, s)"
  unfolding newLeader_msg
  by (simp add: appendEntriesimpl_def appendEntriesBody_def scenario_defs matchLog_def getLogTermFromLogIndex_def
      getLastLogIndex_def getLastLogIndexAndTerm_def storeEntry_def Let_def okReply_def)

lemma leader_commits:
  "\<exists>l1 l2. sendAppendEntries 1 (heartBeatMsg newLeader 1) True okReply 0 newLeader = Inr l1 \<and>
     sendAppendEntries 3 (heartBeatMsg newLeader 1) True okReply 0 l1 = Inr l2 \<and>
     commitIndex l2 = 1 \<and> entryAt l2 1 = Inr newEntry"
  unfolding newLeader_msg
  by (simp add: sendAppendEntries_def appendAccepted_def commitRound_def scenario_defs okReply_def
      vecGet_def vecSet_def getLastLogIndex_def getLastLogIndexAndTerm_def majority_def entryAt_def
      getSlicesIndexFromLogIndex_def Disconnected_def AppNormal_def Let_def)

definition staleArgs :: requestVoteArgs where
  "staleArgs = \<lparr>rv_term = 3, rv_candidateid = 2, rv_lastlogindex = 2, rv_lastlogterm = 1\<rparr>"

lemma stale_candidate:
  "\<exists>cand sp. doElection C (staleServer 2) = (cand, sp) \<and> SendRequestVote 1 staleArgs 0 \<in> set sp \<and>
     SendRequestVote 4 staleArgs 0 \<in> set sp \<and> currentTerm cand = 3 \<and> status cand = Candidate \<and>
     voteNums cand = [1] \<and> npeers cand = 5 \<and> logs cand = staleEntries \<and> lastSnapshotIncludeIndex cand = 0"
proof -
  have "[0..<5] = [0, 1, 2, 3, 4::nat]" by (simp add: upt_rec)
  then show ?thesis
    by (simp add: doElection_def staleServer_def sampleServer_def getLastLogIndexAndTerm_def staleArgs_def Let_def)
      (simp add: staleEntries_def)
qed

definition yesVote :: requestVoteReply where
  "yesVote = \<lparr>rvr_term = 3, rvr_votegranted = True, rvr_votestate = Normal\<rparr>"

lemma stale_elected:
  assumes "currentTerm c = 3" "status c = Candidate" "voteNums c = [1]" "npeers c = 5"
    "logs c = staleEntries" "lastSnapshotIncludeIndex c = 0"
  shows "\<exists>c1 c2. sendRequestVote C True yesVote 0 c = Inr (c1, []) \<and>
    sendRequestVote C True yesVote 0 c1 = Inr (c2, [DoHeartBeat]) \<and> status c2 = Leader \<and>
    currentTerm c2 = 3 \<and> entryAt c2 1 \<noteq> Inr newEntry"
  using assms
  by (simp add: sendRequestVote_def yesVote_def vecGet_def majority_def Let_def entryAt_def
      getSlicesIndexFromLogIndex_def getLastLogIndex_def getLastLogIndexAndTerm_def staleEntries_def newEntry_def)

text \<open>C25: server 1 accepts \<open>x\<close> over \<open>b\<close> and keeps \<open>c\<close> behind it, server 3 accepts \<open>x\<close>, and the leader
  commits \<open>x\<close>.  Then server 2, which never had \<open>x\<close>, asks for votes in term 3: server 1 judges
  by its kept last entry \<open>c\<close> and grants, so does server 4, and server 2 leads without the committed
  entry.\<close>

theorem committed_entry_outvoted:
  "\<exists>s1 s3 l1 l2 cand sp c1 c2.
     appendEntriesimpl C now (heartBeatMsg newLeader 1) (staleServer 1) = Inr (okReply, s1) \<and>
     appendEntriesimpl C now (heartBeatMsg newLeader 1) (emptyServer 3) = Inr (okReply, s3) \<and>
     sendAppendEntries 1 (heartBeatMsg newLeader 1) True okReply 0 newLeader = Inr l1 \<and>
     sendAppendEntries 3 (heartBeatMsg newLeader 1) True okReply 0 l1 = Inr l2 \<and>
     commitIndex l2 = 1 \<and> entryAt l2 1 = Inr newEntry \<and>
     doElection C (staleServer 2) = (cand, sp) \<and>
     SendRequestVote 1 staleArgs 0 \<in> set sp \<and> SendRequestVote 4 staleArgs 0 \<in> set sp \<and>
     fst (requestVoteImpl C now staleArgs s1) = yesVote \<and>
     fst (requestVoteImpl C now staleArgs (emptyServer 4)) = yesVote \<and>
     sendRequestVote C True yesVote 0 cand = Inr (c1, []) \<and>
     sendRequestVote C True yesVote 0 c1 = Inr (c2, [DoHeartBeat]) \<and>
     status c2 = Leader \<and> currentTerm c2 = 3 \<and> entryAt c2 1 \<noteq> Inr newEntry"
proof -
  from stale_accepts[of C now] obtain s1 where
    s1: "appendEntriesimpl C now (heartBeatMsg newLeader 1) (staleServer 1) = Inr (okReply, s1)"
     "logs s1 = [newEntry, \<lparr>command = ''c'', logterm = 1, logindex = 2\<rparr>]" "lastSnapshotIncludeIndex s1 = 0"
     "lastSnapshotIncludeTerm s1 = 0" "currentTerm s1 = 2" "votedFor s1 = -1" by blast
  have v1: "fst (requestVoteImpl C now staleArgs s1) = yesVote"
    by (simp add: requestVoteImpl_def s1 staleArgs_def yesVote_def upToDate_def getLastLogIndexAndTerm_def Let_def)
  have v4: "fst (requestVoteImpl C now staleArgs (emptyServer 4)) = yesVote"
    by (simp add: requestVoteImpl_def emptyServer_def sampleServer_def staleArgs_def yesVote_def upToDate_def
        getLastLogIndexAndTerm_def Let_def)
  from stale_candidate[of C] obtain cand sp where c: "doElection C (staleServer 2) = (cand, sp)"
     "SendRequestVote 1 staleArgs 0 \<in> set sp" "SendRequestVote 4 staleArgs 0 \<in> set sp" "currentTerm cand = 3"
     "status cand = Candidate" "voteNums cand = [1]" "npeers cand = 5" "logs cand = staleEntries"
     "lastSnapshotIncludeIndex cand = 0" by blast
  from stale_elected[OF c(4-9), of C] show ?thesis using s1(1) v1 v4 c(1-3) empty_accepts[of C now] leader_commits
    by blast
qed

section \<open>Elections without a pause\<close>

lemma electionWake_round:
  assumes "status r \<noteq> Leader" and "lastResetElectionTime r \<le> wakeTime"
  shows "electionWake C wakeTime r = doElection C r" "status (fst (doElection C r)) \<noteq> Leader"
    "currentTerm (fst (doElection C r)) = currentTerm r + 1"
    "lastResetElectionTime (fst (doElection C r)) = lastResetElectionTime r"
  using assms by (auto simp: electionWake_def doElection_def Let_def split: prod.splits)



section \<open>Commitment hangs on one answer\<close>

text \<open>When the answer that completes a majority belongs to a message without entries, the leader's
  commit index does not move, and the round's counter restarts at 0: with no later entries nothing
  that is already on all servers is ever committed by such rounds.\<close>

theorem empty_round_commits_nothing:
  assumes "ae_entries args = []" and "sendAppendEntries peer args isOk reply a r = Inr r'"
  shows "commitIndex r' = commitIndex r \<and>
    (aer_success reply \<and> isOk \<and> aer_appstate reply \<noteq> Disconnected \<and> aer_term reply = currentTerm r \<and>
     status r = Leader \<and> majority r \<le> appendNums r ! a + 1 \<longrightarrow> appendNums r' ! a = 0)"
proof -
  have round: "commitIndex s' = commitIndex s \<and> (a < length (appendNums s) \<and> majority s \<le> appendNums s ! a \<longrightarrow> appendNums s' ! a = 0)"
    if "commitRound args a s = Inr s'" for s s'
    using that assms(1) by (auto simp: commitRound_def andThen_eq_Inr vecGet_eq_Inr Let_def split: if_splits)
  have acc: "commitIndex r' = commitIndex r \<and> (majority r \<le> appendNums r ! a + 1 \<longrightarrow> appendNums r' ! a = 0)"
    if A: "appendAccepted peer args a r = Inr r'"
  proof -
    from A obtain n mi ni where n: "vecGet (appendNums r) (int a) = Inr n"
      and c: "commitRound args a (r\<lparr>appendNums := (appendNums r)[a := n + 1], matchIndex := mi, nextIndex := ni\<rparr>) = Inr r'"
      unfolding appendAccepted_def andThen_eq_Inr Let_def by blast
    from n have "a < length (appendNums r)" "n = appendNums r ! a" by (auto simp: vecGet_eq_Inr)
    with round[OF c] show ?thesis by (simp add: majority_def)
  qed
  show ?thesis
    using assms(2) acc unfolding sendAppendEntries_def
    by (auto simp: andThen_eq_Inr vecSet_eq_Inr split: if_splits)
qed

theorem empty_round_commits_nothing_witness:
  "\<exists>r'. sendAppendEntries 1 (heartBeatMsg newLeader 2) True okReply 0 (newLeader\<lparr>appendNums := [2]\<rparr>) = Inr r' \<and>
    commitIndex r' = commitIndex (newLeader\<lparr>appendNums := [2]\<rparr>) \<and> appendNums r' ! 0 = 0"
proof -
  let ?l = "newLeader\<lparr>appendNums := [2]\<rparr>"
  have m: "heartBeatMsg newLeader 2 = \<lparr>ae_term = 2, ae_leaderid = 0, ae_prevlogindex = 1, ae_prevlogterm = 2,
      ae_entries = [], ae_leadercommit = 0\<rparr>"
    by (simp add: heartBeatMsg_def scenario_defs termAt_def slot_def)
  have "\<exists>r'. sendAppendEntries 1 (heartBeatMsg newLeader 2) True okReply 0 ?l = Inr r'"
    unfolding m
    by (simp add: sendAppendEntries_def appendAccepted_def commitRound_def scenario_defs okReply_def
        vecGet_def vecSet_def getLastLogIndex_def getLastLogIndexAndTerm_def majority_def
        Disconnected_def AppNormal_def Let_def)
  then obtain r' where r': "sendAppendEntries 1 (heartBeatMsg newLeader 2) True okReply 0 ?l = Inr r'" by blast
  have "ae_entries (heartBeatMsg newLeader 2) = []" by (simp add: m)
  from empty_round_commits_nothing[OF this r'] r' show ?thesis
    by (simp add: okReply_def Disconnected_def AppNormal_def scenario_defs majority_def)
qed

section \<open>Durability\<close>

text \<open>A leader that steps down because an answer to \<open>AppendEntries\<close> carries a later term has that
  term in memory only: its state file is untouched, and a restart falls back to the older term.
  Stepping down on a vote answer with the same term, by contrast, is saved.\<close>

theorem step_down_not_durable:
  assumes "codec_ok C" and "isOk" and "aer_appstate reply \<noteq> Disconnected" and "currentTerm r < aer_term reply"
  shows "\<exists>r'. sendAppendEntries peer args isOk reply a r = Inr r' \<and> currentTerm r' = aer_term reply \<and>
    status r' = Follower \<and> savedState C (persister r') = savedState C (persister r) \<and>
    (\<exists>s. sendRequestVote C isOk \<lparr>rvr_term = aer_term reply, rvr_votegranted = False, rvr_votestate = Expire\<rparr> b r = Inr (s, []) \<and>
       currentTerm s = aer_term reply \<and> (p_ok (persister r) \<longrightarrow> savedState C (persister s) = Inr (hardState s)))"
proof -
  let ?s = "r\<lparr>status := Follower, currentTerm := aer_term reply, votedFor := -1\<rparr>"
  have "p_ok (persister r) \<longrightarrow> savedState C (persister (persist C ?s)) = Inr (hardState (persist C ?s))"
    using persist_saved(1)[OF assms(1), of ?s] by simp
  then show ?thesis using assms(2-4) by (simp add: sendAppendEntries_def sendRequestVote_def)
qed

theorem step_down_not_durable_witness:
  "\<exists>r'. sendAppendEntries 1 (heartBeatMsg newLeader 2) True
      \<lparr>aer_term = 7, aer_success = False, aer_updatenextindex = -100, aer_appstate = AppNormal\<rparr> 0 newLeader = Inr r' \<and>
    currentTerm r' = 7 \<and> savedState sampleCodec (persister r') = savedState sampleCodec (persister newLeader)"
proof -
  let ?reply = "\<lparr>aer_term = 7, aer_success = False, aer_updatenextindex = -100, aer_appstate = AppNormal\<rparr>"
  have "aer_appstate ?reply \<noteq> Disconnected" "currentTerm newLeader < aer_term ?reply"
    by (simp_all add: AppNormal_def Disconnected_def newLeader_def)
  from step_down_not_durable[OF sampleCodec_ok TrueI this, of 1 "heartBeatMsg newLeader 2" 0 0]
  show ?thesis by auto
qed

end
