(* ===== verification/LockQueue.thy ===== *)
theory LockQueue
  imports Prelude
begin

text \<open>
  The queue between threads and the command objects of \<^verbatim>\<open>src/common/include/util.hpp\<close>, and the
  contract of a first-in first-out channel that the Raft layer and the key-value server share.
\<close>

section \<open>LockQueue\<close>

type_synonym 'a lockQueue = "'a list"

definition lqPush :: "'a \<Rightarrow> 'a lockQueue \<Rightarrow> 'a lockQueue" where
  "lqPush value que = que @ [value]"

text \<open>\<open>pop\<close> waits while the queue is empty (\<open>None\<close>: it is still waiting).\<close>

definition lqPop :: "'a lockQueue \<Rightarrow> ('a \<times> 'a lockQueue) option" where
  "lqPop que = (case que of [] \<Rightarrow> None | x # xs \<Rightarrow> Some (x, xs))"

text \<open>\<open>timeOutPop\<close> at one of its wake-ups, or when it is called: \<open>expired\<close> says that \<^verbatim>\<open>wait_until\<close>
  reported the timeout; then it gives up without looking at the queue again.  \<open>None\<close>: it waits on.\<close>

definition timeOutPop :: "bool \<Rightarrow> 'a lockQueue \<Rightarrow> ('a option \<times> 'a lockQueue) option" where
  "timeOutPop expired que =
     (if expired then Some (None, que)
      else case que of [] \<Rightarrow> None | x # xs \<Rightarrow> Some (Some x, xs))"

section \<open>The channel contract\<close>

locale fifo =
  fixes push :: "'a \<Rightarrow> 'q \<Rightarrow> 'q" and pop :: "'q \<Rightarrow> ('a \<times> 'q) option" and content :: "'q \<Rightarrow> 'a list"
  assumes push_law: "content (push x q) = content q @ [x]"
    and pop_empty: "content q = [] \<Longrightarrow> pop q = None"
    and pop_first: "content q = x # xs \<Longrightarrow> \<exists>q'. pop q = Some (x, q') \<and> content q' = xs"
begin

lemma push_all: "content (fold push xs q) = content q @ xs"
  by (induction xs arbitrary: q) (auto simp: push_law)

lemma pop_push_empty: "content q = [] \<Longrightarrow> \<exists>q'. pop (push x q) = Some (x, q') \<and> content q' = []"
  by (rule pop_first) (simp add: push_law)

text \<open>What was pushed first is popped first, whatever is pushed in between.\<close>

lemma pop_after_push:
  assumes "pop q = Some (x, q')"
  shows "\<exists>q''. pop (push y q) = Some (x, q'') \<and> content q'' = content q' @ [y]"
proof (cases "content q")
  case Nil
  with pop_empty assms show ?thesis by simp
next
  case (Cons z zs)
  with pop_first[of q z zs] assms have "z = x" "content q' = zs" by auto
  with pop_first[of "push y q" x "zs @ [y]"] Cons show ?thesis by (auto simp: push_law)
qed

end

interpretation lq: fifo lqPush lqPop "\<lambda>q. q"
  by unfold_locales (auto simp: lqPush_def lqPop_def)

lemma timeOutPop_pop: "timeOutPop False q = map_option (\<lambda>(x, q'). (Some x, q')) (lqPop q)"
  by (auto simp: timeOutPop_def lqPop_def split: list.splits)

section \<open>Commands\<close>

record op =
  Operation :: string
  Key :: string
  Value :: string
  ClientId :: string
  RequestId :: int

text \<open>\<^verbatim>\<open>operator<<\<close>\<close>

definition showOp :: "op \<Rightarrow> string" where
  "showOp p = ''[MyClass:Operation{'' @ Operation p @ ''},Key{'' @ Key p @ ''},Value{'' @ Value p @
     ''},ClientId{'' @ ClientId p @ ''},RequestId{'' @ showInt (RequestId p) @ ''}]''"

text \<open>The three error strings.\<close>

definition OK :: string where "OK = ''OK''"
definition ErrNoKey :: string where "ErrNoKey = ''ErrNoKey''"
definition ErrWrongLeader :: string where "ErrWrongLeader = ''ErrWrongLeader''"

lemma err_distinct [simp]: "OK \<noteq> ErrNoKey" "OK \<noteq> ErrWrongLeader" "ErrNoKey \<noteq> ErrWrongLeader"
  "ErrNoKey \<noteq> OK" "ErrWrongLeader \<noteq> OK" "ErrWrongLeader \<noteq> ErrNoKey"
  by (simp_all add: OK_def ErrNoKey_def ErrWrongLeader_def)

end
