(* ===== verification/RpcConfig.thy ===== *)
theory RpcConfig
  imports Prelude "HOL-Library.Word"
begin

text \<open>
  Configuration files: \<^verbatim>\<open>src/rpc/mprpcconfig.cpp\<close>, the lines a server adds to the file when it
  starts (\<^verbatim>\<open>RpcProvider::Run\<close>), and the loop with which servers and clients read the addresses of
  all nodes.  A file is its text, \<open>None\<close> if it cannot be opened.  Ports are \<^verbatim>\<open>short\<close>, 16 bit words.
\<close>

section \<open>Reading lines\<close>

abbreviation newline :: char where "newline \<equiv> CHR 0x0A"
abbreviation space :: char where "space \<equiv> CHR '' ''"

text \<open>\<^verbatim>\<open>std::string::find\<close> of a character.\<close>

fun findChar :: "char \<Rightarrow> string \<Rightarrow> nat option" where
  "findChar c [] = None"
| "findChar c (x # xs) = (if x = c then Some 0 else map_option Suc (findChar c xs))"

text \<open>\<^verbatim>\<open>fgets(buf, n, fp)\<close>: at most \<open>n - 1\<close> characters, up to a newline; the rest of the file.\<close>

definition fgets :: "nat \<Rightarrow> string \<Rightarrow> (string \<times> string) option" where
  "fgets n s =
     (if s = [] then None
      else let m = take (n - 1) s;
               l = length (takeWhile (\<lambda>c. c \<noteq> newline) m);
               k = (if l < length m then Suc l else l)
           in Some (take k s, drop k s))"

text \<open>\<open>Trim\<close> leaves a string of spaces as it is: \<^verbatim>\<open>find_first_not_of\<close> finds nothing.\<close>

definition Trim :: "string \<Rightarrow> string" where
  "Trim str =
     (let str1 = (if \<exists>c\<in>set str. c \<noteq> space then dropWhile (\<lambda>c. c = space) str else str)
      in if \<exists>c\<in>set str1. c \<noteq> space then rev (dropWhile (\<lambda>c. c = space) (rev str1)) else str1)"

definition parseLine :: "string \<Rightarrow> (string \<times> string) option" where
  \<comment> \<open>the body of the loop for one buffer; the buffer is a C string and ends at a NUL.  The count
    of the second \<^verbatim>\<open>substr\<close> is an unsigned number: a negative one means the rest of the string\<close>
  "parseLine buf =
     (let str = Trim (takeWhile (\<lambda>c. c \<noteq> CHR 0x00) buf)
      in if str = [] \<or> hd str = CHR ''#'' then None
         else case findChar (CHR ''='') str of
                None \<Rightarrow> None
              | Some idx \<Rightarrow>
                  let endidx = (case findChar newline str of None \<Rightarrow> -1 | Some e \<Rightarrow> int e);
                      cnt = endidx - int idx - 1;
                      val = drop (Suc idx) str
                  in Some (Trim (take idx str), Trim (if cnt < 0 then val else take (nat cnt) val)))"

type_synonym configMap = "string \<rightharpoonup> string"

definition insertConfig :: "string \<times> string \<Rightarrow> configMap \<Rightarrow> configMap" where
  \<comment> \<open>\<^verbatim>\<open>unordered_map::insert\<close> keeps an existing value\<close>
  "insertConfig kv m = (case m (fst kv) of None \<Rightarrow> m(fst kv \<mapsto> snd kv) | Some _ \<Rightarrow> m)"

lemma fgets_shorter: "fgets 512 fp = Some (buf, fp') \<Longrightarrow> length fp' < length fp"
  by (cases fp) (auto simp: fgets_def Let_def split: if_splits)

function loadLines :: "string \<Rightarrow> configMap \<Rightarrow> configMap" where
  "loadLines fp m =
     (case fgets 512 fp of
        None \<Rightarrow> m
      | Some (buf, fp') \<Rightarrow>
          loadLines fp' (case parseLine buf of None \<Rightarrow> m | Some kv \<Rightarrow> insertConfig kv m))"
  by pat_completeness auto

termination
  by (relation "measure (\<lambda>(fp, m). length fp)") (auto dest: fgets_shorter)

declare loadLines.simps [simp del]

definition LoadConfigFile :: "string option \<Rightarrow> configMap \<Rightarrow> configMap" where
  "LoadConfigFile configFile m = (case configFile of None \<Rightarrow> m | Some fp \<Rightarrow> loadLines fp m)"

definition Load :: "string \<Rightarrow> configMap \<Rightarrow> string" where
  "Load key m = (case m key of Some v \<Rightarrow> v | None \<Rightarrow> [])"

section \<open>Numbers\<close>

definition isDigit :: "char \<Rightarrow> bool" where
  "isDigit c \<longleftrightarrow> 48 \<le> (of_char c :: nat) \<and> (of_char c :: nat) \<le> 57"

definition isSpace :: "char \<Rightarrow> bool" where
  "isSpace c \<longleftrightarrow> (of_char c :: nat) = 32 \<or> 9 \<le> (of_char c :: nat) \<and> (of_char c :: nat) \<le> 13"

definition digitsVal :: "string \<Rightarrow> nat" where
  "digitsVal ds = foldl (\<lambda>a c. a * 10 + (of_char c - 48)) 0 ds"

text \<open>\<^verbatim>\<open>std::stoi\<close>: \<open>None\<close> when it throws (no digit, or out of the range of \<^verbatim>\<open>int\<close>).\<close>

definition stoi :: "string \<Rightarrow> int option" where
  "stoi str =
     (let t = dropWhile isSpace str;
          neg = (t \<noteq> [] \<and> hd t = CHR ''-'');
          u = (if t \<noteq> [] \<and> (hd t = CHR ''-'' \<or> hd t = CHR ''+'') then tl t else t);
          ds = takeWhile isDigit u;
          v = (if neg then - int (digitsVal ds) else int (digitsVal ds))
      in if ds = [] \<or> v < - 2147483648 \<or> 2147483647 < v then None else Some v)"

section \<open>The nodes of the configuration\<close>

definition nodeKey :: "nat \<Rightarrow> string \<Rightarrow> string" where
  "nodeKey i what = ''node'' @ showNat i @ what"

text \<open>The loop of \<open>KvServer::KvServer\<close> and \<open>Clerk::init\<close>, from node \<open>i\<close> on (\<^verbatim>\<open>INT_MAX - 1\<close> rounds at
  most).  A port that is no number throws.\<close>

function nodeAddrs :: "nat \<Rightarrow> configMap \<Rightarrow> (string \<times> 16 word) list res" where
  "nodeAddrs i m =
     (if i \<ge> 2147483646 then Inr []
      else if Load (nodeKey i ''ip'') m = [] then Inr []
      else case stoi (Load (nodeKey i ''port'') m) of
             None \<Rightarrow> Inl Thrown
           | Some p \<Rightarrow> andThen (nodeAddrs (Suc i) m) (\<lambda>as.
               Inr ((Load (nodeKey i ''ip'') m, word_of_int p) # as)))"
  by pat_completeness auto
termination by (relation "measure (\<lambda>(i, m). 2147483646 - i)") auto

declare nodeAddrs.simps [simp del]

text \<open>\<^verbatim>\<open>RpcProvider::Run\<close> goes through the addresses of the host and keeps the last; without any, the pointer it reads
  was never set.\<close>

definition hostIp :: "string list \<Rightarrow> string res" where
  "hostIp h_addr_list = derefOpt (fold (\<lambda>a ip_ptr. Some a) h_addr_list None)"

lemma hostIp_last: "hostIp as = (if as = [] then Inl BadAccess else Inr (last as))"
  by (induction as rule: rev_induct) (simp_all add: hostIp_def)

text \<open>What \<^verbatim>\<open>RpcProvider::Run\<close> appends to \<^verbatim>\<open>test.conf\<close>.\<close>

definition registerNode :: "nat \<times> string \<times> 16 word \<Rightarrow> string \<Rightarrow> string" where
  "registerNode r fp =
     (case r of (nodeIndex, ip, port) \<Rightarrow>
        fp @ nodeKey nodeIndex ''ip'' @ ''='' @ ip @ [newline]
           @ nodeKey nodeIndex ''port'' @ ''='' @ showInt (sint port) @ [newline])"

end
