(* ===== verification/RpcConfigTheorems.thy ===== *)
theory RpcConfigTheorems
  imports RpcConfig
begin

text \<open>
  The configuration file round trip: numbers written and read back, lines parsed as they were
  written, and the addresses a server or a client reads from what the servers registered.
\<close>

section \<open>Numbers\<close>

lemma digit_char: "(n::nat) < 10 \<Longrightarrow> isDigit (char_of (48 + n))" "(n::nat) < 10 \<Longrightarrow> of_char (char_of (48 + n)) = 48 + n"
  by (simp_all add: isDigit_def)

lemma digitsVal_snoc: "digitsVal (ds @ [c]) = digitsVal ds * 10 + (of_char c - 48)"
  by (simp add: digitsVal_def)

lemma showNat_digits: "\<forall>c\<in>set (showNat n). isDigit c"
proof (induction n rule: showNat.induct)
  case (1 n)
  then show ?case by (subst showNat.simps) (auto simp: digit_char)
qed

lemma showNat_val [simp]: "digitsVal (showNat n) = n"
proof (induction n rule: showNat.induct)
  case (1 n)
  then show ?case
    by (subst showNat.simps) (auto simp: digitsVal_snoc digit_char(2) digitsVal_def)
qed

lemma showNat_nonempty [simp]: "showNat n \<noteq> []"
  by (subst showNat.simps) simp

lemma showNat_inject: "showNat i = showNat j \<longleftrightarrow> i = j"
  by (metis showNat_val)

lemma showNat_length: "0 < k \<Longrightarrow> n < 10 ^ k \<Longrightarrow> length (showNat n) \<le> k"
proof (induction n arbitrary: k rule: showNat.induct)
  case (1 n)
  show ?case
  proof (cases "n < 10")
    case False
    with 1(3) obtain k' where k: "k = Suc k'" "0 < k'"
      using 1(2) by (metis One_nat_def Suc_pred gr0I not_less_eq power_one_right)
    with 1(3) have "n div 10 < 10 ^ k'" by (simp add: less_mult_imp_div_less mult.commute)
    with 1(1)[OF False k(2)] k(1) False show ?thesis by (subst showNat.simps) simp
  qed (use 1(2) in \<open>subst showNat.simps, simp\<close>)
qed

lemma digit_facts: "isDigit c \<Longrightarrow> \<not> isSpace c \<and> c \<noteq> CHR ''-'' \<and> c \<noteq> CHR ''+''"
  by (auto simp: isDigit_def isSpace_def)

lemma stoi_showInt:
  assumes "- 2147483648 \<le> i" and "i \<le> 2147483647"
  shows "stoi (showInt i) = Some i"
proof -
  have d: "takeWhile isDigit (showNat n) = showNat n" "dropWhile isSpace (showNat n) = showNat n"
    "hd (showNat n) \<noteq> CHR ''-''" "hd (showNat n) \<noteq> CHR ''+''" for n
  proof -
    show "takeWhile isDigit (showNat n) = showNat n" using showNat_digits by (simp add: takeWhile_eq_all_conv)
    have "isDigit (hd (showNat n))" using showNat_digits[of n] by (simp add: hd_in_set)
    then show "dropWhile isSpace (showNat n) = showNat n" "hd (showNat n) \<noteq> CHR ''-''"
      "hd (showNat n) \<noteq> CHR ''+''"
      using digit_facts by (cases "showNat n"; force)+
  qed
  have s: "\<not> isSpace (CHR ''-'')" by (simp add: isSpace_def)
  show ?thesis
  proof (cases "i < 0")
    case True
    with assms s show ?thesis by (simp add: stoi_def showInt_def Let_def d)
  next
    case False
    with assms show ?thesis by (simp add: stoi_def showInt_def Let_def d)
  qed
qed

section \<open>Lines\<close>

definition plain :: "string \<Rightarrow> bool" where
  "plain s \<longleftrightarrow> s \<noteq> [] \<and>
     (\<forall>c\<in>set s. c \<noteq> space \<and> c \<noteq> newline \<and> c \<noteq> CHR ''='' \<and> c \<noteq> CHR ''#'' \<and> c \<noteq> CHR 0x00)"

lemma plainD: "plain s \<Longrightarrow> s \<noteq> []" "plain s \<Longrightarrow> c \<in> set s \<Longrightarrow> c \<noteq> space"
  "plain s \<Longrightarrow> newline \<notin> set s" "plain s \<Longrightarrow> CHR ''='' \<notin> set s" "plain s \<Longrightarrow> CHR ''#'' \<notin> set s"
  "plain s \<Longrightarrow> CHR 0x00 \<notin> set s"
  by (auto simp: plain_def)

lemma plain_append: "plain s \<Longrightarrow> plain t \<Longrightarrow> plain (s @ t)"
  by (auto simp: plain_def)

lemma plain_digits: "\<forall>c\<in>set s. isDigit c \<Longrightarrow> s \<noteq> [] \<Longrightarrow> plain s"
  by (auto simp: plain_def isDigit_def)

lemma plain_showInt: "plain (showInt i)"
proof -
  have "plain (showNat n)" for n using showNat_digits by (simp add: plain_digits)
  then show ?thesis by (auto simp: showInt_def plain_def)
qed

lemma plain_key: "plain what \<Longrightarrow> plain (nodeKey i what)"
  unfolding nodeKey_def
  by (intro plain_append plain_digits[OF showNat_digits]) (auto simp: plain_def)

lemma Trim_ends:
  assumes "s \<noteq> []" and "hd s \<noteq> space" and "last s \<noteq> space"
  shows "Trim s = s"
proof -
  have "dropWhile (\<lambda>c. c = space) s = s" using assms(1,2) by (cases s) auto
  moreover have "dropWhile (\<lambda>c. c = space) (rev s) = rev s"
    using assms(1,3) by (cases "rev s") (auto simp: hd_rev[symmetric])
  ultimately show ?thesis by (simp add: Trim_def)
qed

lemma Trim_plain: "plain s \<Longrightarrow> Trim s = s"
  by (rule Trim_ends) (auto simp: plain_def)

lemma findChar_append: "c \<notin> set xs \<Longrightarrow> findChar c (xs @ c # ys) = Some (length xs)"
  by (induction xs) auto

lemma parseLine_entry:
  assumes "plain k" and "plain v"
  shows "parseLine (k @ ''='' @ v @ [newline]) = Some (k, v)"
proof -
  let ?l = "k @ CHR ''='' # v @ [newline]"
  have cut: "takeWhile (\<lambda>c. c \<noteq> CHR 0x00) ?l = ?l"
    using plainD(6)[OF assms(1)] plainD(6)[OF assms(2)] by (auto simp: takeWhile_eq_all_conv)
  have trim: "Trim ?l = ?l"
    by (rule Trim_ends) (use plainD(1,2)[OF assms(1)] in \<open>auto simp: hd_append hd_in_set\<close>)
  have hd: "hd ?l \<noteq> CHR ''#''" using plainD(1,5)[OF assms(1)] by (cases k) auto
  have eq: "findChar (CHR ''='') ?l = Some (length k)"
    using findChar_append[OF plainD(4)[OF assms(1)]] .
  have nl: "findChar newline ?l = Some (length k + Suc (length v))"
    using findChar_append[of newline "k @ CHR ''='' # v" "[]"] plainD(3)[OF assms(1)] plainD(3)[OF assms(2)]
    by simp
  show ?thesis
    unfolding parseLine_def by (simp add: cut trim hd eq nl Let_def Trim_plain assms)
qed

lemma fgets_line:
  assumes "newline \<notin> set l" and "length l < 511"
  shows "fgets 512 (l @ newline # fp) = Some (l @ [newline], fp)"
proof -
  have t: "take (512 - 1) (l @ newline # fp) = l @ newline # take (510 - length l) fp"
    using assms(2) by (simp add: take_Cons')
  have w: "takeWhile (\<lambda>c. c \<noteq> newline) (l @ newline # ys) = l" for ys
    using assms(1) by (induction l) auto
  show ?thesis unfolding fgets_def t w Let_def by simp
qed

lemma insertConfig_add: "insertConfig kv m = [fst kv \<mapsto> snd kv] ++ m"
  by (auto simp: insertConfig_def map_add_def fun_eq_iff split: option.splits)

lemma loadLines_entry:
  assumes "plain k" and "plain v" and "length k + length v < 510"
  shows "loadLines (k @ ''='' @ v @ newline # fp) m = loadLines fp ([k \<mapsto> v] ++ m)"
proof -
  have n: "newline \<notin> set (k @ ''='' @ v)" using plainD(3)[OF assms(1)] plainD(3)[OF assms(2)] by simp
  have "length (k @ ''='' @ v) < 511" using assms(3) by simp
  from fgets_line[OF n this] parseLine_entry[OF assms(1,2)] show ?thesis
    by (subst loadLines.simps) (simp add: insertConfig_add)
qed

section \<open>Registered nodes\<close>

definition entries :: "nat \<times> string \<times> 16 word \<Rightarrow> (string \<times> string) list" where
  "entries r = (case r of (i, ip, p) \<Rightarrow> [(nodeKey i ''ip'', ip), (nodeKey i ''port'', showInt (sint p))])"

definition address_ok :: "nat \<times> string \<times> 16 word \<Rightarrow> bool" where
  "address_ok r \<longleftrightarrow> fst r < 2147483646 \<and> plain (fst (snd r)) \<and> length (fst (snd r)) \<le> 255"

lemma sint_16: "- 32768 \<le> sint (p :: 16 word)" "sint (p :: 16 word) < 32768"
  using sint_ge[of p] sint_lt[of p] by simp_all

lemma showInt_port_length: "length (showInt (sint (p :: 16 word))) \<le> 6"
proof -
  have "nat (- sint p) < 10 ^ 5" "nat (sint p) < 10 ^ 5" using sint_16[of p] by simp_all
  then have "length (showNat (nat (- sint p))) \<le> 5" "length (showNat (nat (sint p))) \<le> 5"
    by (auto intro!: showNat_length)
  then show ?thesis by (simp add: showInt_def)
qed

lemma nodeKey_length: "i < 2147483646 \<Longrightarrow> length (nodeKey i what) \<le> 14 + length what"
  using showNat_length[of 10 i] by (simp add: nodeKey_def)

lemma loadLines_register:
  assumes "address_ok r"
  shows "loadLines (registerNode r [] @ fp) m = loadLines fp (map_of (entries r) ++ m)"
proof -
  obtain i ip p where r: "r = (i, ip, p)" by (cases r) auto
  with assms have ok: "i < 2147483646" "plain ip" "length ip \<le> 255" by (auto simp: address_ok_def)
  have pl: "plain (nodeKey i ''ip'')" "plain (nodeKey i ''port'')"
    by (rule plain_key, simp add: plain_def)+
  have len: "length (nodeKey i ''ip'') + length ip < 510"
    "length (nodeKey i ''port'') + length (showInt (sint p)) < 510"
    using nodeKey_length[OF ok(1), of "''ip''"] nodeKey_length[OF ok(1), of "''port''"] ok(3)
      showInt_port_length[of p] by simp_all
  note e1 = loadLines_entry[OF pl(1) ok(2) len(1)]
  note e2 = loadLines_entry[OF pl(2) plain_showInt len(2)]
  have "[k2 \<mapsto> v2] ++ ([k1 \<mapsto> v1] ++ m) = map_of [(k1, v1), (k2, v2)] ++ m" for k1 v1 k2 v2 m
    by (auto simp: map_add_def fun_eq_iff split: option.splits)
  with e1 e2 show ?thesis by (simp add: r registerNode_def entries_def)
qed

lemma registerNode_append: "registerNode r fp = fp @ registerNode r []"
  by (cases r) (simp add: registerNode_def)

lemma loadLines_registered:
  "(\<forall>r\<in>set rs. address_ok r) \<Longrightarrow>
   loadLines (fold registerNode rs []) m = map_of (concat (map entries rs)) ++ m"
proof -
  assume ok: "\<forall>r\<in>set rs. address_ok r"
  have "fold registerNode rs fp = fp @ concat (map (\<lambda>r. registerNode r []) rs)" for fp
    by (induction rs arbitrary: fp) (simp, simp add: registerNode_append[of _ "_ @ _"],
      metis append_assoc registerNode_append)
  moreover have "loadLines (concat (map (\<lambda>r. registerNode r []) rs)) m
      = map_of (concat (map entries rs)) ++ m"
    using ok
  proof (induction rs arbitrary: m)
    case Nil
    show ?case by (subst loadLines.simps) (simp add: fgets_def)
  next
    case (Cons r rs)
    then show ?case using loadLines_register[of r] by simp
  qed
  ultimately show ?thesis by simp
qed

lemma nodeKey_inject: "nodeKey i w = nodeKey j w \<longleftrightarrow> i = j"
  by (simp add: nodeKey_def showNat_inject)

lemma nodeKey_ip_port: "nodeKey i ''ip'' \<noteq> nodeKey j ''port''"
proof
  assume "nodeKey i ''ip'' = nodeKey j ''port''"
  then have "last (nodeKey i ''ip'') = last (nodeKey j ''port'')" by simp
  then show False by (simp add: nodeKey_def)
qed

lemma entries_lookup:
  "map_of (concat (map entries rs)) (nodeKey i ''ip'') = map_option fst (map_of rs i)"
  "map_of (concat (map entries rs)) (nodeKey i ''port'') = map_option (showInt \<circ> sint \<circ> snd) (map_of rs i)"
proof (induction rs)
  case (Cons r rs)
  { case 1 show ?case using Cons by (cases r) (auto simp: entries_def nodeKey_inject nodeKey_ip_port) }
  { case 2 show ?case
      using Cons nodeKey_ip_port[symmetric] by (cases r) (auto simp: entries_def nodeKey_inject) }
qed simp_all

lemma nodeAddrs_map:
  assumes "\<And>j. i \<le> j \<Longrightarrow> j < n \<Longrightarrow> \<exists>ip p. map_of rs j = Some (ip, p) \<and> ip \<noteq> []"
    and "map_of rs n = None" and "i \<le> n" and "n < 2147483646"
    and m: "m = map_of (concat (map entries rs))"
  shows "nodeAddrs i m = Inr (map (\<lambda>j. the (map_of rs j)) [i..<n])"
  using assms(1,3)
proof (induction "n - i" arbitrary: i)
  case 0
  then have "i = n" by simp
  then show ?case using assms(2,4) by (subst nodeAddrs.simps) (simp add: Load_def m entries_lookup)
next
  case (Suc d)
  then have lt: "i < n" by simp
  with Suc.prems(1)[of i] obtain ip p where r: "map_of rs i = Some (ip, p)" "ip \<noteq> []" by auto
  have ld: "Load (nodeKey i ''ip'') m = ip" "Load (nodeKey i ''port'') m = showInt (sint p)"
    using r by (simp_all add: Load_def m entries_lookup)
  have st: "stoi (showInt (sint p)) = Some (sint p)"
    by (rule stoi_showInt) (use sint_16[of p] in simp_all)
  have IH: "nodeAddrs (Suc i) m = Inr (map (\<lambda>j. the (map_of rs j)) [Suc i..<n])"
    using Suc.hyps(1)[of "Suc i"] Suc.hyps(2) Suc.prems lt by simp
  have "nodeAddrs i m = Inr ((ip, p) # map (\<lambda>j. the (map_of rs j)) [Suc i..<n])"
    by (subst nodeAddrs.simps) (use lt assms(4) r(2) in \<open>simp add: ld st IH\<close>)
  with lt r(1) show ?case by (simp add: upt_conv_Cons)
qed

text \<open>Whatever order the servers register in, a node that reads the file finds the addresses of
  the nodes 0, 1, ... up to the first number nobody registered, and of a node that registered more
  than once the address it registered \<^emph>\<open>first\<close>.\<close>

theorem registered_nodes_read:
  assumes "\<forall>r\<in>set rs. address_ok r" and "\<forall>i<n. i \<in> fst ` set rs" and "n \<notin> fst ` set rs"
    and "n < 2147483646"
  shows "nodeAddrs 0 (LoadConfigFile (Some (fold registerNode rs [])) Map.empty)
    = Inr (map (\<lambda>i. the (map_of rs i)) [0..<n])"
proof (rule nodeAddrs_map)
  fix j assume "j < n"
  with assms(2) obtain r where r: "r \<in> set rs" "fst r = j" by fastforce
  then obtain a where a: "map_of rs j = Some a"
    by (metis domD dom_map_of_conv_image_fst imageI)
  then have "(j, a) \<in> set rs" by (rule map_of_SomeD)
  with assms(1) have "address_ok (j, a)" by blast
  then have "fst a \<noteq> []" by (simp add: address_ok_def plain_def)
  with a show "\<exists>ip p. map_of rs j = Some (ip, p) \<and> ip \<noteq> []" by (cases a) auto
next
  show "map_of rs n = None" using assms(3) by (simp add: map_of_eq_None_iff)
qed (use assms loadLines_registered[of rs Map.empty] in \<open>simp_all add: LoadConfigFile_def\<close>)

theorem registered_nodes_read_witness:
  "nodeAddrs 0 (LoadConfigFile (Some (fold registerNode
      [(1, ''10.0.0.2'', 8001), (0, ''10.0.0.1'', 40000), (1, ''10.0.0.9'', 9)] [])) Map.empty)
    = Inr [(''10.0.0.1'', 40000), (''10.0.0.2'', 8001)]"
proof -
  let ?rs = "[(1, ''10.0.0.2'', 8001), (0, ''10.0.0.1'', 40000), (1, ''10.0.0.9'', 9)] :: (nat \<times> string \<times> 16 word) list"
  have ok: "\<forall>r\<in>set ?rs. address_ok r" by (simp add: address_ok_def plain_def)
  have up: "\<forall>i<2. i \<in> fst ` set ?rs" by (auto simp: less_2_cases_iff)
  have no: "2 \<notin> fst ` set ?rs" and bound: "(2::nat) < 2147483646" by simp_all
  have "map (\<lambda>i. the (map_of ?rs i)) [0..<2] = [(''10.0.0.1'', 40000), (''10.0.0.2'', 8001)]"
    by (simp add: upt_rec)
  with registered_nodes_read[OF ok up no bound] show ?thesis by (simp only:)
qed

end
