(* ===== verification/KvServer.thy ===== *)
theory KvServer
  imports RaftServer SkipListTheorems LockQueue RpcConfig "HOL-Library.AList"
begin

text \<open>
  The key-value server of \<^verbatim>\<open>src/raftCore/KvServer.cpp\<close>: the state machine on top of one Raft
  server.  The queues its request handlers wait on live in a store (\<open>queues\<close>; a deleted queue is
  \<open>None\<close>), because handlers keep pointers to them.  A function is the code between two waits:
  a request handler is its submission, the registration of its queue, the end of the wait and the
  reply.
\<close>

section \<open>State\<close>

record kvserver =
  raftNode :: raft
  applyChan :: "applyMsg list"
  maxRaftStateSize :: int
  skipList :: "(string, string) skiplist"
  waitApplyCh :: "int \<rightharpoonup> nat"
  queues :: "nat \<rightharpoonup> op list"
  nextQueue :: nat
  lastSnapShotRaftLogIndex :: int
  lastRequestIdMap :: "(string \<times> int) list"

text \<open>
  The archives of the Boost library are parameters: of the dump of the skip list, of the server
  object (the dump and the request table), and of commands; reading gives \<open>None\<close> when it throws.
  A command that cannot be read is a failure of the model: the code goes on with a command whose
  fields are indeterminate.
\<close>

record kvcodec =
  raftCodec :: codec
  dumpOar :: "(string, string) dump \<Rightarrow> string"
  dumpIar :: "string \<Rightarrow> (string, string) dump option"
  kvOar :: "string \<times> (string \<times> int) list \<Rightarrow> string"
  kvIar :: "string \<Rightarrow> (string \<times> (string \<times> int) list) option"
  opSer :: "op \<Rightarrow> string"
  opParse :: "string \<Rightarrow> op option"

definition kvcodec_ok :: "kvcodec \<Rightarrow> bool" where
  "kvcodec_ok K \<longleftrightarrow> codec_ok (raftCodec K) \<and> archive_ok (dumpOar K) (dumpIar K) \<and>
     archive_ok (kvOar K) (kvIar K) \<and> (\<forall>p. opParse K (opSer K p) = Some p)"

section \<open>Operations on the data\<close>

definition dprintfKVDB :: "kvserver \<Rightarrow> unit res" where
  "dprintfKVDB kv = andThen (displayList (skipList kv)) (\<lambda>_. Inr ())"

definition noteRequest :: "op \<Rightarrow> kvserver \<Rightarrow> kvserver" where
  \<comment> \<open>\<^verbatim>\<open>lastRequestIdMap_[op.ClientId] = op.RequestId\<close>\<close>
  "noteRequest p kv = kv\<lparr>lastRequestIdMap := AList.update (ClientId p) (RequestId p) (lastRequestIdMap kv)\<rparr>"

definition execAppendOpOnKVDB :: "op \<Rightarrow> kvserver \<Rightarrow> kvserver res" where
  "execAppendOpOnKVDB p kv =
     andThen (searchElement (Key p) (skipList kv)) (\<lambda>old.
     andThen (case old of
                Some oldVal \<Rightarrow> insertSetElement (Key p) (oldVal @ Value p) (skipList kv)
              | None \<Rightarrow> insertSetElement (Key p) (Value p) (skipList kv)) (\<lambda>s.
     let kv1 = noteRequest p (kv\<lparr>skipList := s\<rparr>)
     in andThen (dprintfKVDB kv1) (\<lambda>_. Inr kv1)))"

definition execGetOpOnKVDB :: "op \<Rightarrow> kvserver \<Rightarrow> (string option \<times> kvserver) res" where
  "execGetOpOnKVDB p kv =
     andThen (searchElement (Key p) (skipList kv)) (\<lambda>r.
     let kv1 = noteRequest p kv
     in andThen (dprintfKVDB kv1) (\<lambda>_. Inr (r, kv1)))"

definition execPutOpOnKVDB :: "op \<Rightarrow> kvserver \<Rightarrow> kvserver res" where
  "execPutOpOnKVDB p kv =
     andThen (insertSetElement (Key p) (Value p) (skipList kv)) (\<lambda>s.
     let kv1 = noteRequest p (kv\<lparr>skipList := s\<rparr>)
     in andThen (dprintfKVDB kv1) (\<lambda>_. Inr kv1))"

definition isRequestDuplicate :: "string \<Rightarrow> int \<Rightarrow> kvserver \<Rightarrow> bool" where
  "isRequestDuplicate clientId requestId kv =
     (case map_of (lastRequestIdMap kv) clientId of None \<Rightarrow> False | Some lst \<Rightarrow> requestId \<le> lst)"

section \<open>Snapshots\<close>

definition getSnapshotData :: "kvcodec \<Rightarrow> kvserver \<Rightarrow> string res" where
  "getSnapshotData K kv =
     andThen (dumpFile (dumpOar K) (skipList kv)) (\<lambda>kvData. Inr (kvOar K (kvData, lastRequestIdMap kv)))"

definition makeSnapshot :: "kvcodec \<Rightarrow> kvserver \<Rightarrow> string res" where
  "makeSnapshot K kv = getSnapshotData K kv"

definition loadFromSnapshotData :: "kvcodec \<Rightarrow> string \<Rightarrow> kvserver \<Rightarrow> kvserver res" where
  "loadFromSnapshotData K snapshotData kv =
     (case kvIar K snapshotData of
        None \<Rightarrow> Inl ArchiveError
      | Some (kvData, ids) \<Rightarrow>
          andThen (loadFile (dumpIar K) kvData (skipList kv)) (\<lambda>s.
            Inr (kv\<lparr>skipList := s, lastRequestIdMap := ids\<rparr>)))"

definition readSnapshotToInstall :: "kvcodec \<Rightarrow> string \<Rightarrow> kvserver \<Rightarrow> kvserver res" where
  "readSnapshotToInstall K snap kv = (if snap = [] then Inr kv else loadFromSnapshotData K snap kv)"

text \<open>\<^verbatim>\<open>getRaftStateSize() >= maxRaftStateSize_ * proportion / 10.0\<close>\<close>

definition ifNeedToSendSnapshotCommand :: "kvcodec \<Rightarrow> int \<Rightarrow> int \<Rightarrow> kvserver \<Rightarrow> kvserver res" where
  "ifNeedToSendSnapshotCommand K raftLogIndex proportion kv =
     (if maxRaftStateSize kv = -1 then Inr kv
      else if getRaftStateSize (raftNode kv) * 10 \<ge> maxRaftStateSize kv * proportion
      then
        andThen (makeSnapshot K kv) (\<lambda>snap.
        andThen (snapshot (raftCodec K) raftLogIndex snap (raftNode kv)) (\<lambda>r. Inr (kv\<lparr>raftNode := r\<rparr>)))
      else Inr kv)"

definition condInstallSnapshot :: "int \<Rightarrow> int \<Rightarrow> string \<Rightarrow> bool" where
  "condInstallSnapshot lastIncludedTerm lastIncludedIndex snap = True"

definition getSnapshotFromRaft :: "kvcodec \<Rightarrow> applyMsg \<Rightarrow> kvserver \<Rightarrow> kvserver res" where
  "getSnapshotFromRaft K msg kv =
     (if condInstallSnapshot (SnapshotTerm msg) (SnapshotIndex msg) (Snapshot msg)
      then andThen (readSnapshotToInstall K (Snapshot msg) kv) (\<lambda>kv1.
             Inr (kv1\<lparr>lastSnapShotRaftLogIndex := SnapshotIndex msg\<rparr>))
      else Inr kv)"

section \<open>The apply loop\<close>

definition sendMsgToWaitChan :: "op \<Rightarrow> int \<Rightarrow> kvserver \<Rightarrow> (bool \<times> kvserver) res" where
  "sendMsgToWaitChan p raftLogIndex kv =
     (case waitApplyCh kv raftLogIndex of
        None \<Rightarrow> Inr (False, kv)
      | Some a \<Rightarrow> andThen (derefOpt (queues kv a)) (\<lambda>q.
          Inr (True, kv\<lparr>queues := (queues kv)(a \<mapsto> lqPush p q)\<rparr>)))"

definition applyOp :: "op \<Rightarrow> kvserver \<Rightarrow> kvserver res" where
  \<comment> \<open>the part of \<open>getCommandFromRaft\<close> that executes the command\<close>
  "applyOp p kv =
     (if \<not> isRequestDuplicate (ClientId p) (RequestId p) kv
      then if Operation p = ''Put'' then execPutOpOnKVDB p kv
           else if Operation p = ''Append'' then execAppendOpOnKVDB p kv
           else Inr kv
      else Inr kv)"

definition getCommandFromRaft :: "kvcodec \<Rightarrow> applyMsg \<Rightarrow> kvserver \<Rightarrow> kvserver res" where
  "getCommandFromRaft K msg kv =
     (case opParse K (Command msg) of
        None \<Rightarrow> Inl ArchiveError
      | Some p \<Rightarrow>
          if lastSnapShotRaftLogIndex kv \<ge> CommandIndex msg then Inr kv
          else
            andThen (applyOp p kv) (\<lambda>kv1.
            andThen (if maxRaftStateSize kv1 \<noteq> -1
                     then ifNeedToSendSnapshotCommand K (CommandIndex msg) 9 kv1 else Inr kv1) (\<lambda>kv2.
            andThen (sendMsgToWaitChan p (CommandIndex msg) kv2) (\<lambda>(_, kv3). Inr kv3))))"

definition handleApplyMsg :: "kvcodec \<Rightarrow> applyMsg \<Rightarrow> kvserver \<Rightarrow> kvserver res" where
  \<comment> \<open>one round of \<open>readApplyCommandLoop\<close>, after the pop\<close>
  "handleApplyMsg K msg kv =
     andThen (if CommandValid msg then getCommandFromRaft K msg kv else Inr kv) (\<lambda>kv1.
       if SnapshotValid msg then getSnapshotFromRaft K msg kv1 else Inr kv1)"

definition readApplyCommandRound :: "kvcodec \<Rightarrow> kvserver \<Rightarrow> kvserver res" where
  \<comment> \<open>a round; with an empty channel the thread waits in \<open>pop\<close>\<close>
  "readApplyCommandRound K kv =
     (case lqPop (applyChan kv) of
        None \<Rightarrow> Inr kv
      | Some (msg, msgs) \<Rightarrow> handleApplyMsg K msg (kv\<lparr>applyChan := msgs\<rparr>))"

section \<open>Request handlers\<close>

record getArgs =
  ga_key :: string
  ga_clientid :: string
  ga_requestid :: int

record putAppendArgs =
  pa_key :: string
  pa_value :: string
  pa_op :: string
  pa_clientid :: string
  pa_requestid :: int

text \<open>Replies: error string and value.\<close>

type_synonym reply = "string \<times> string"

definition getOp :: "getArgs \<Rightarrow> op" where
  "getOp args = \<lparr>Operation = ''Get'', Key = ga_key args, Value = [], ClientId = ga_clientid args,
     RequestId = ga_requestid args\<rparr>"

definition putAppendOp :: "putAppendArgs \<Rightarrow> op" where
  "putAppendOp args = \<lparr>Operation = pa_op args, Key = pa_key args, Value = pa_value args,
     ClientId = pa_clientid args, RequestId = pa_requestid args\<rparr>"

definition submitOp :: "kvcodec \<Rightarrow> op \<Rightarrow> kvserver \<Rightarrow> int option \<times> kvserver" where
  \<comment> \<open>\<open>raftNode_->start\<close>; the log index if this server leads\<close>
  "submitOp K p kv =
     (case start (raftCodec K) (opSer K p) (raftNode kv) of ((raftLogIndex, _, isLeader), r) \<Rightarrow>
        (if isLeader then Some raftLogIndex else None, kv\<lparr>raftNode := r\<rparr>))"

definition registerWait :: "int \<Rightarrow> kvserver \<Rightarrow> nat \<times> kvserver" where
  \<comment> \<open>find or create the queue of this log index\<close>
  "registerWait raftLogIndex kv =
     (case waitApplyCh kv raftLogIndex of
        Some a \<Rightarrow> (a, kv)
      | None \<Rightarrow> (nextQueue kv,
          kv\<lparr>waitApplyCh := (waitApplyCh kv)(raftLogIndex \<mapsto> nextQueue kv),
             queues := (queues kv)(nextQueue kv \<mapsto> []), nextQueue := Suc (nextQueue kv)\<rparr>))"

definition waitEnd :: "bool \<Rightarrow> nat \<Rightarrow> kvserver \<Rightarrow> (op option \<times> kvserver) option res" where
  \<comment> \<open>\<open>timeOutPop\<close> on the handler's pointer; \<open>None\<close> if the handler still waits\<close>
  "waitEnd expired a kv =
     andThen (derefOpt (queues kv a)) (\<lambda>q. Inr
       (case timeOutPop expired q of
          None \<Rightarrow> None
        | Some (r, q') \<Rightarrow> Some (r, kv\<lparr>queues := (queues kv)(a \<mapsto> q')\<rparr>)))"

definition sameRequest :: "op \<Rightarrow> op \<Rightarrow> bool" where
  "sameRequest p q \<longleftrightarrow> ClientId p = ClientId q \<and> RequestId p = RequestId q"

definition readReply :: "op \<Rightarrow> kvserver \<Rightarrow> (reply \<times> kvserver) res" where
  "readReply p kv =
     andThen (execGetOpOnKVDB p kv) (\<lambda>(r, kv1).
       Inr (case r of Some value \<Rightarrow> (OK, value) | None \<Rightarrow> (ErrNoKey, []), kv1))"

definition getReply :: "op \<Rightarrow> op option \<Rightarrow> kvserver \<Rightarrow> (reply \<times> kvserver) res" where
  "getReply p committed kv =
     (case committed of
        None \<Rightarrow> if snd (getState (raftNode kv)) \<and> isRequestDuplicate (ClientId p) (RequestId p) kv
                then readReply p kv else Inr ((ErrWrongLeader, []), kv)
      | Some raftCommitOp \<Rightarrow> if sameRequest raftCommitOp p then readReply p kv
                else Inr ((ErrWrongLeader, []), kv))"

definition putAppendReply :: "op \<Rightarrow> op option \<Rightarrow> kvserver \<Rightarrow> reply" where
  "putAppendReply p committed kv =
     (case committed of
        None \<Rightarrow> if isRequestDuplicate (ClientId p) (RequestId p) kv then (OK, []) else (ErrWrongLeader, [])
      | Some raftCommitOp \<Rightarrow> if sameRequest raftCommitOp p then (OK, []) else (ErrWrongLeader, []))"

definition dropWait :: "int \<Rightarrow> kvserver \<Rightarrow> kvserver" where
  \<comment> \<open>the last block of both handlers: \<^verbatim>\<open>delete\<close> of a null pointer does nothing\<close>
  "dropWait raftLogIndex kv =
     (case waitApplyCh kv raftLogIndex of
        None \<Rightarrow> kv
      | Some a \<Rightarrow> kv\<lparr>waitApplyCh := (waitApplyCh kv)(raftLogIndex := None), queues := (queues kv)(a := None)\<rparr>)"

definition getImplEnd :: "bool \<Rightarrow> op \<Rightarrow> int \<Rightarrow> nat \<Rightarrow> kvserver \<Rightarrow> (reply \<times> kvserver) option res" where
  "getImplEnd expired p raftLogIndex a kv =
     andThen (waitEnd expired a kv) (\<lambda>w. case w of
         None \<Rightarrow> Inr None
       | Some (committed, kv1) \<Rightarrow>
           andThen (getReply p committed kv1) (\<lambda>(rep, kv2). Inr (Some (rep, dropWait raftLogIndex kv2))))"

definition putAppendImplEnd ::
  "bool \<Rightarrow> op \<Rightarrow> int \<Rightarrow> nat \<Rightarrow> kvserver \<Rightarrow> (reply \<times> kvserver) option res" where
  "putAppendImplEnd expired p raftLogIndex a kv =
     andThen (waitEnd expired a kv) (\<lambda>w. Inr (case w of
         None \<Rightarrow> None
       | Some (committed, kv1) \<Rightarrow> Some (putAppendReply p committed kv1, dropWait raftLogIndex kv1)))"

text \<open>The first part of both handlers: submit; answer at once if this server does not lead, else
  register the queue to wait on.\<close>

definition implStart :: "kvcodec \<Rightarrow> op \<Rightarrow> kvserver \<Rightarrow> (reply + int \<times> nat) \<times> kvserver" where
  "implStart K p kv =
     (case submitOp K p kv of
        (None, kv1) \<Rightarrow> (Inl (ErrWrongLeader, []), kv1)
      | (Some i, kv1) \<Rightarrow> (case registerWait i kv1 of (a, kv2) \<Rightarrow> (Inr (i, a), kv2)))"

section \<open>Start\<close>

text \<open>The peers of the constructor: a null pointer in the server's own place.\<close>

definition connectPeers :: "int \<Rightarrow> (string \<times> 16 word) list \<Rightarrow> (string \<times> 16 word) option list" where
  "connectPeers me addrs = map (\<lambda>i. if int i = me then None else Some (addrs ! i)) [0..<length addrs]"

text \<open>The constructor up to the apply loop, with the text of the node file (\<open>None\<close>: it cannot be opened)
  and the disk of the server: the skip list has 6 levels, and a snapshot on disk is loaded.\<close>

definition startKvServer ::
  "kvcodec \<Rightarrow> string option \<Rightarrow> int \<Rightarrow> int \<Rightarrow> disk \<Rightarrow> ioOutcome list \<Rightarrow> int \<Rightarrow> nat list \<Rightarrow> kvserver res" where
  "startKvServer K nodeInfoFile me maxSize d io now rs =
     (let p = newPersister me d io in
      andThen (nodeAddrs 0 (LoadConfigFile nodeInfoFile Map.empty)) (\<lambda>peerAddrs.
      andThen (initRaft (raftCodec K) (length (connectPeers me peerAddrs)) me p now) (\<lambda>r.
      let kv = \<lparr>raftNode = r, applyChan = [], maxRaftStateSize = maxSize, skipList = newSkipList [] [] 6 rs,
                waitApplyCh = Map.empty, queues = Map.empty, nextQueue = 0,
                lastSnapShotRaftLogIndex = 0, lastRequestIdMap = []\<rparr>;
          snapshotData = ReadSnapshot p
      in if snapshotData \<noteq> [] then readSnapshotToInstall K snapshotData kv else Inr kv)))"

text \<open>\<open>n\<close> rounds of \<open>readApplyCommandLoop\<close>.\<close>

fun readApplyCommandLoop :: "kvcodec \<Rightarrow> nat \<Rightarrow> kvserver \<Rightarrow> kvserver res" where
  "readApplyCommandLoop K 0 kv = Inr kv"
| "readApplyCommandLoop K (Suc n) kv = andThen (readApplyCommandRound K kv) (readApplyCommandLoop K n)"

end
