(* ===== verification/KvCorrect.thy ===== *)
theory KvCorrect
  imports KvServer Transitions "HOL-Library.Option_ord"
begin

text \<open>
  The key-value server against its abstract state: a finite map and, per client, the number of
  its last executed request.  Each operation of \<^verbatim>\<open>KvServer.cpp\<close> is shown to return and to act on the
  abstract state; the rest of the server is a frame.
\<close>

section \<open>The abstract state machine\<close>

type_synonym kvState = "(string \<rightharpoonup> string) \<times> (string \<rightharpoonup> int)"

definition kvAbs :: "kvserver \<Rightarrow> kvState" where
  "kvAbs kv = (lookupKV (skipList kv), map_of (lastRequestIdMap kv))"

definition seen :: "op \<Rightarrow> (string \<rightharpoonup> int) \<Rightarrow> bool" where
  "seen p ids = (case ids (ClientId p) of None \<Rightarrow> False | Some lst \<Rightarrow> RequestId p \<le> lst)"

definition absValue :: "op \<Rightarrow> (string \<rightharpoonup> string) \<Rightarrow> string" where
  "absValue p m = (if Operation p = ''Put'' then Value p
     else (case m (Key p) of None \<Rightarrow> [] | Some old \<Rightarrow> old) @ Value p)"

definition isWrite :: "op \<Rightarrow> bool" where
  "isWrite p \<longleftrightarrow> Operation p = ''Put'' \<or> Operation p = ''Append''"

definition absApply :: "op \<Rightarrow> kvState \<Rightarrow> kvState" where
  "absApply p st = (case st of (m, ids) \<Rightarrow>
     if isWrite p \<and> \<not> seen p ids
     then (m(Key p \<mapsto> absValue p m), ids(ClientId p \<mapsto> RequestId p)) else st)"

section \<open>Invariant\<close>

text \<open>Handlers wait on queues that exist, a queue belongs to one index, and fresh addresses are unused.\<close>

definition queues_ok :: "kvserver \<Rightarrow> bool" where
  "queues_ok kv \<longleftrightarrow>
     (\<forall>i a. waitApplyCh kv i = Some a \<longrightarrow> queues kv a \<noteq> None) \<and>
     (\<forall>i j a. waitApplyCh kv i = Some a \<longrightarrow> waitApplyCh kv j = Some a \<longrightarrow> i = j) \<and>
     (\<forall>a. queues kv a \<noteq> None \<longrightarrow> a < nextQueue kv)"

lemma queues_okD:
  assumes "queues_ok kv"
  shows "waitApplyCh kv i = Some a \<Longrightarrow> \<exists>q. queues kv a = Some q"
    and "waitApplyCh kv i = Some a \<Longrightarrow> waitApplyCh kv j = Some a \<Longrightarrow> i = j"
    and "queues kv a = Some q \<Longrightarrow> a < nextQueue kv"
  using assms by (auto simp: queues_ok_def)

definition kv_inv :: "kvcodec \<Rightarrow> kvserver \<Rightarrow> bool" where
  "kv_inv K kv \<longleftrightarrow> sl_wf (skipList kv) \<and> server_inv (raftCodec K) (raftNode kv) \<and> queues_ok kv"

lemma queues_ok_cong:
  "waitApplyCh kv' = waitApplyCh kv \<Longrightarrow> queues kv' = queues kv \<Longrightarrow> nextQueue kv' = nextQueue kv \<Longrightarrow>
   queues_ok kv' = queues_ok kv"
  by (simp add: queues_ok_def)

lemma kv_invD: "kv_inv K kv \<Longrightarrow> sl_wf (skipList kv)" "kv_inv K kv \<Longrightarrow> server_inv (raftCodec K) (raftNode kv)"
  "kv_inv K kv \<Longrightarrow> queues_ok kv"
  by (simp_all add: kv_inv_def)

section \<open>Operations on the data\<close>

lemma displayList_returns: "sl_wf s \<Longrightarrow> \<exists>rows. displayList s = Inr rows"
  using collectDump_map displayList_levels by metis

lemma dprintfKVDB_ok: "sl_wf (skipList kv) \<Longrightarrow> dprintfKVDB kv = Inr ()"
  using displayList_returns[of "skipList kv"] by (auto simp: dprintfKVDB_def)

lemma noteRequest_facts [simp]:
  "skipList (noteRequest p kv) = skipList kv"
  "map_of (lastRequestIdMap (noteRequest p kv)) = (map_of (lastRequestIdMap kv))(ClientId p \<mapsto> RequestId p)"
  by (simp_all add: noteRequest_def update_conv')

lemma isRequestDuplicate_seen:
  "isRequestDuplicate (ClientId p) (RequestId p) kv = seen p (map_of (lastRequestIdMap kv))"
  by (simp add: isRequestDuplicate_def seen_def)

text \<open>Two states that differ only in data and request table.\<close>

definition dataOnly :: "kvserver \<Rightarrow> kvserver \<Rightarrow> bool" where
  "dataOnly kv kv' \<longleftrightarrow> kv' = kv\<lparr>skipList := skipList kv', lastRequestIdMap := lastRequestIdMap kv'\<rparr>"

lemma dataOnly_fields:
  assumes "dataOnly kv kv'"
  shows "raftNode kv' = raftNode kv" "applyChan kv' = applyChan kv" "maxRaftStateSize kv' = maxRaftStateSize kv"
    "waitApplyCh kv' = waitApplyCh kv" "queues kv' = queues kv" "nextQueue kv' = nextQueue kv"
    "lastSnapShotRaftLogIndex kv' = lastSnapShotRaftLogIndex kv"
proof -
  from assms have e: "kv' = kv\<lparr>skipList := skipList kv', lastRequestIdMap := lastRequestIdMap kv'\<rparr>"
    by (simp add: dataOnly_def)
  show "raftNode kv' = raftNode kv" by (subst e) simp
  show "applyChan kv' = applyChan kv" by (subst e) simp
  show "maxRaftStateSize kv' = maxRaftStateSize kv" by (subst e) simp
  show "waitApplyCh kv' = waitApplyCh kv" by (subst e) simp
  show "queues kv' = queues kv" by (subst e) simp
  show "nextQueue kv' = nextQueue kv" by (subst e) simp
  show "lastSnapShotRaftLogIndex kv' = lastSnapShotRaftLogIndex kv" by (subst e) simp
qed

lemma dataOnly_refl [simp]: "dataOnly kv kv"
  by (simp add: dataOnly_def)

lemma dataOnly_note [simp]:
  "dataOnly kv (noteRequest p (kv\<lparr>skipList := s\<rparr>))" "dataOnly kv (noteRequest p kv)"
  by (cases kv; simp add: dataOnly_def noteRequest_def)+

lemma dataOnly_inv: "dataOnly kv kv' \<Longrightarrow> sl_wf (skipList kv') \<Longrightarrow> kv_inv K kv \<Longrightarrow> kv_inv K kv'"
  using queues_ok_cong[of kv' kv] by (simp add: kv_inv_def dataOnly_fields)

lemma execPut_ok:
  assumes "sl_wf (skipList kv)" and "0 < levelBudget (skipList kv)"
  shows "\<exists>kv'. execPutOpOnKVDB p kv = Inr kv' \<and> sl_wf (skipList kv') \<and> dataOnly kv kv' \<and>
    levelBudget (skipList kv') = levelBudget (skipList kv) - 1 \<and>
    kvAbs kv' = ((fst (kvAbs kv))(Key p \<mapsto> Value p), (snd (kvAbs kv))(ClientId p \<mapsto> RequestId p))"
proof -
  from insertSet_correct[OF assms, of "Key p" "Value p"] obtain s where
    s: "insertSetElement (Key p) (Value p) (skipList kv) = Inr s" "sl_wf s"
      "lookupKV s = (lookupKV (skipList kv))(Key p \<mapsto> Value p)" "levelBudget s = levelBudget (skipList kv) - 1"
    by blast
  let ?kv = "noteRequest p (kv\<lparr>skipList := s\<rparr>)"
  have "dprintfKVDB ?kv = Inr ()" using s(2) by (simp add: dprintfKVDB_ok)
  with s(1) have "execPutOpOnKVDB p kv = Inr ?kv" by (simp add: execPutOpOnKVDB_def Let_def)
  moreover have "kvAbs ?kv = ((fst (kvAbs kv))(Key p \<mapsto> Value p), (snd (kvAbs kv))(ClientId p \<mapsto> RequestId p))"
    using s(3) by (simp add: kvAbs_def)
  ultimately show ?thesis using s(2,4) by (intro exI[of _ ?kv]) simp
qed

lemma execAppend_put:
  assumes "sl_wf (skipList kv)"
  shows "execAppendOpOnKVDB p kv =
    execPutOpOnKVDB (p\<lparr>Value := (case lookupKV (skipList kv) (Key p) of None \<Rightarrow> [] | Some v \<Rightarrow> v) @ Value p\<rparr>) kv"
  by (simp add: execAppendOpOnKVDB_def execPutOpOnKVDB_def search_correct[OF assms] noteRequest_def
      split: option.split)

lemma execGet_ok:
  assumes "sl_wf (skipList kv)"
  shows "execGetOpOnKVDB p kv = Inr (lookupKV (skipList kv) (Key p), noteRequest p kv)"
  using dprintfKVDB_ok[of "noteRequest p kv"] assms
  by (simp add: execGetOpOnKVDB_def search_correct[OF assms] Let_def)

lemma applyOp_abs:
  assumes "sl_wf (skipList kv)" and "0 < levelBudget (skipList kv)"
  shows "\<exists>kv'. applyOp p kv = Inr kv' \<and> sl_wf (skipList kv') \<and> dataOnly kv kv' \<and>
    levelBudget (skipList kv) - 1 \<le> levelBudget (skipList kv') \<and> kvAbs kv' = absApply p (kvAbs kv)"
proof (cases "isWrite p \<and> \<not> seen p (map_of (lastRequestIdMap kv))")
  case False
  then have "applyOp p kv = Inr kv" "absApply p (kvAbs kv) = kvAbs kv"
    by (auto simp: applyOp_def isRequestDuplicate_seen isWrite_def absApply_def kvAbs_def)
  with assms show ?thesis by simp
next
  case True
  define q where "q = p\<lparr>Value := absValue p (lookupKV (skipList kv))\<rparr>"
  have "applyOp p kv = execPutOpOnKVDB q kv"
    using True by (auto simp: applyOp_def isRequestDuplicate_seen isWrite_def execAppend_put[OF assms(1)]
        q_def absValue_def)
  moreover have "absApply p (kvAbs kv) = ((fst (kvAbs kv))(Key q \<mapsto> Value q),
      (snd (kvAbs kv))(ClientId q \<mapsto> RequestId q))"
    using True by (simp add: absApply_def kvAbs_def q_def)
  ultimately show ?thesis using execPut_ok[OF assms, of q] by (auto intro: order_refl)
qed

section \<open>Snapshots and messages\<close>

lemma makeSnapshot_ok:
  assumes "kvcodec_ok K" and "sl_wf (skipList kv)"
  shows "\<exists>ks vs. makeSnapshot K kv = Inr (kvOar K (dumpOar K (ks, vs), lastRequestIdMap kv)) \<and>
    length ks = length vs \<and> length ks = elementCount (skipList kv) \<and>
    map_of (zip ks vs) = lookupKV (skipList kv)"
proof -
  have "archive_ok (dumpOar K) (dumpIar K)" using assms(1) by (simp add: kvcodec_ok_def)
  from dumpFile_loadLoop[OF this assms(2), of undefined] obtain ks vs where
    "dumpFile (dumpOar K) (skipList kv) = Inr (dumpOar K (ks, vs))" "length ks = length vs"
    "length ks = elementCount (skipList kv)" "map_of (zip ks vs) = lookupKV (skipList kv)" by blast
  then show ?thesis by (intro exI[of _ ks] exI[of _ vs]) (simp add: makeSnapshot_def getSnapshotData_def)
qed

lemma readSnapshot_ok:
  assumes "kvcodec_ok K" and "sl_wf (skipList kv)" and "length ks = length vs"
    and "length ks \<le> levelBudget (skipList kv)"
  shows "\<exists>kv'. readSnapshotToInstall K (kvOar K (dumpOar K (ks, vs), ids)) kv = Inr kv' \<and>
    sl_wf (skipList kv') \<and> dataOnly kv kv' \<and>
    kvAbs kv' = (map_of (zip ks vs) ++ fst (kvAbs kv), map_of ids)"
proof -
  have ar: "dumpIar K (dumpOar K (ks, vs)) = Some (ks, vs)"
    and kar: "kvIar K (kvOar K (dumpOar K (ks, vs), ids)) = Some (dumpOar K (ks, vs), ids)"
      "kvOar K (dumpOar K (ks, vs), ids) \<noteq> []"
    and ne: "dumpOar K (ks, vs) \<noteq> []"
    using assms(1) by (simp_all add: kvcodec_ok_def archive_ok_def)
  obtain s where s: "loadLoop ks vs (skipList kv) = Inr s" "sl_wf s"
    "lookupKV s = map_of (zip ks vs) ++ lookupKV (skipList kv)"
    using loadLoop_map[OF assms(2) _ assms(4), of vs] assms(3) by auto
  have "loadFile (dumpIar K) (dumpOar K (ks, vs)) (skipList kv) = Inr s"
    using s(1) by (simp add: loadFile_def ar ne)
  then have "readSnapshotToInstall K (kvOar K (dumpOar K (ks, vs), ids)) kv
      = Inr (kv\<lparr>skipList := s, lastRequestIdMap := ids\<rparr>)"
    by (simp add: readSnapshotToInstall_def loadFromSnapshotData_def kar)
  then show ?thesis using s(2,3) by (simp add: kvAbs_def dataOnly_def)
qed

lemma ifNeed_ok:
  assumes "kvcodec_ok K" and "kv_inv K kv"
  shows "\<exists>r. ifNeedToSendSnapshotCommand K i n kv = Inr (kv\<lparr>raftNode := r\<rparr>) \<and> server_inv (raftCodec K) r"
proof -
  have C: "codec_ok (raftCodec K)" using assms(1) by (simp add: kvcodec_ok_def)
  note inv = kv_invD[OF assms(2)]
  obtain snap where m: "makeSnapshot K kv = Inr snap" using makeSnapshot_ok[OF assms(1) inv(1)] by blast
  have rinv: "raft_inv (raftNode kv)" using inv(2) by (simp add: server_inv_def)
  obtain r where r: "snapshot (raftCodec K) i snap (raftNode kv) = Inr r"
    using snapshot_taken(1)[OF rinv, of i "raftCodec K" snap] snapshot_ignored[of i "raftNode kv" "raftCodec K" snap]
    by (meson not_le)
  have "server_inv (raftCodec K) r" using snapshot_keeps[OF C inv(2) r] by simp
  moreover have "ifNeedToSendSnapshotCommand K i n kv \<in> {Inr (kv\<lparr>raftNode := r\<rparr>), Inr (kv\<lparr>raftNode := raftNode kv\<rparr>)}"
    using m r by (simp add: ifNeedToSendSnapshotCommand_def)
  ultimately show ?thesis using inv(2) by blast
qed

lemma sendMsg_ok:
  assumes "queues_ok kv"
  shows "\<exists>b qs. sendMsgToWaitChan p i kv = Inr (b, kv\<lparr>queues := qs\<rparr>) \<and> queues_ok (kv\<lparr>queues := qs\<rparr>)"
proof (cases "waitApplyCh kv i")
  case None
  with assms show ?thesis by (auto simp: sendMsgToWaitChan_def intro!: exI[of _ "queues kv"])
next
  case (Some a)
  with queues_okD(1)[OF assms] obtain q where "queues kv a = Some q" by blast
  with Some assms show ?thesis
    by (auto simp: sendMsgToWaitChan_def queues_ok_def intro!: exI[of _ "(queues kv)(a \<mapsto> lqPush p q)"]
        split: if_splits)
qed

lemma handleCommand_ok:
  assumes "kvcodec_ok K" and "kv_inv K kv" and "0 < levelBudget (skipList kv)"
    and "opParse K (Command msg) = Some p" and "lastSnapShotRaftLogIndex kv < CommandIndex msg"
  shows "\<exists>kv'. getCommandFromRaft K msg kv = Inr kv' \<and> kv_inv K kv' \<and>
    kvAbs kv' = absApply p (kvAbs kv) \<and> lastSnapShotRaftLogIndex kv' = lastSnapShotRaftLogIndex kv \<and>
    applyChan kv' = applyChan kv \<and> levelBudget (skipList kv) - 1 \<le> levelBudget (skipList kv')"
proof -
  from applyOp_abs[OF kv_invD(1)[OF assms(2)] assms(3), of p] obtain kv1 where
    k1: "applyOp p kv = Inr kv1" "sl_wf (skipList kv1)" "dataOnly kv kv1"
      "levelBudget (skipList kv) - 1 \<le> levelBudget (skipList kv1)" "kvAbs kv1 = absApply p (kvAbs kv)" by blast
  have inv1: "kv_inv K kv1" using dataOnly_inv[OF k1(3,2) assms(2)] .
  obtain r where r: "(if maxRaftStateSize kv1 \<noteq> -1
      then ifNeedToSendSnapshotCommand K (CommandIndex msg) 9 kv1 else Inr kv1) = Inr (kv1\<lparr>raftNode := r\<rparr>)"
    "server_inv (raftCodec K) r"
  proof (cases "maxRaftStateSize kv1 = -1")
    case True
    with that[of "raftNode kv1"] kv_invD(2)[OF inv1] show ?thesis by simp
  next
    case False
    with that ifNeed_ok[OF assms(1) inv1, of "CommandIndex msg" 9] show ?thesis by auto
  qed
  let ?kv2 = "kv1\<lparr>raftNode := r\<rparr>"
  have w2: "queues_ok ?kv2" using kv_invD(3)[OF inv1] by (simp add: queues_ok_def)
  from sendMsg_ok[OF w2, of p "CommandIndex msg"] obtain b qs where
    q: "sendMsgToWaitChan p (CommandIndex msg) ?kv2 = Inr (b, ?kv2\<lparr>queues := qs\<rparr>)"
      "queues_ok (?kv2\<lparr>queues := qs\<rparr>)" by blast
  let ?kv3 = "?kv2\<lparr>queues := qs\<rparr>"
  have "getCommandFromRaft K msg kv = Inr ?kv3"
    using assms(4,5) unfolding getCommandFromRaft_def by (simp add: k1(1) r(1) q(1) not_le)
  moreover have "kv_inv K ?kv3" using k1(2) r(2) q(2) by (simp add: kv_inv_def)
  moreover have "kvAbs ?kv3 = absApply p (kvAbs kv)" using k1(5) by (simp add: kvAbs_def)
  moreover have "lastSnapShotRaftLogIndex ?kv3 = lastSnapShotRaftLogIndex kv" "applyChan ?kv3 = applyChan kv"
    using dataOnly_fields(2,7)[OF k1(3)] by simp_all
  ultimately show ?thesis using k1(4) by (intro exI[of _ ?kv3]) simp
qed

section \<open>The request table only grows\<close>

definition applyStep :: "kvserver \<Rightarrow> kvserver \<Rightarrow> bool" where
  "applyStep kv kv' \<longleftrightarrow> sl_wf (skipList kv) \<and> 0 < levelBudget (skipList kv) \<and> (\<exists>p. applyOp p kv = Inr kv')"

lemma absApply_mono: "snd st c \<le> snd (absApply p st) c"
  by (cases st) (auto simp: absApply_def seen_def split: option.splits)

interpretation requests: monotone_steps applyStep "\<lambda>kv. snd (kvAbs kv) c" for c
proof
  fix kv kv' assume "applyStep kv kv'"
  then obtain p where "sl_wf (skipList kv)" "0 < levelBudget (skipList kv)" "applyOp p kv = Inr kv'"
    by (auto simp: applyStep_def)
  with applyOp_abs[of kv p] absApply_mono[of "kvAbs kv" c p]
  show "snd (kvAbs kv) c \<le> snd (kvAbs kv') c" by auto
qed

end
