(* ===== verification/KvTheorems.thy ===== *)
theory KvTheorems
  imports KvCorrect RpcConfigTheorems RaftLogTheorems
begin

text \<open>
  What the key-value server promises to its clients, and where it does not hold: the apply loop
  refines the abstract state machine, a write is executed once, a server that took a snapshot
  restarts with its data, what a follower holds after installing a snapshot, and the queues the
  request handlers wait on.
\<close>

section \<open>Sample server\<close>

definition opTuple :: "op \<Rightarrow> string \<times> string \<times> string \<times> string \<times> int" where
  "opTuple p = (Operation p, Key p, Value p, ClientId p, RequestId p)"

definition sampleKvCodec :: kvcodec where
  "sampleKvCodec = \<lparr>raftCodec = sampleCodec, dumpOar = sampleWrite, dumpIar = sampleRead,
     kvOar = sampleWrite, kvIar = sampleRead, opSer = (\<lambda>p. sampleWrite (opTuple p)),
     opParse = (\<lambda>s. map_option (\<lambda>(a, b, c, d, e). \<lparr>Operation = a, Key = b, Value = c, ClientId = d, RequestId = e\<rparr>)
       (sampleRead s))\<rparr>"

lemma sample_read: "sampleRead (sampleWrite d) = Some d"
  by (simp add: sampleRead_def sampleWrite_def)

lemma sampleKvCodec_ok: "kvcodec_ok sampleKvCodec"
  by (simp add: kvcodec_ok_def sampleKvCodec_def opTuple_def sample_read sampleCodec_ok sampleArchive_ok
      del: map_option_eq_Some)

definition sampleKv :: kvserver where
  \<comment> \<open>a leader with one committed entry and an empty store\<close>
  "sampleKv = \<lparr>raftNode = sampleCommitted, applyChan = [], maxRaftStateSize = 0,
     skipList = newSkipList [] [] 6 [2, 2, 1, 0, 4], waitApplyCh = Map.empty, queues = Map.empty,
     nextQueue = 0, lastSnapShotRaftLogIndex = 0, lastRequestIdMap = []\<rparr>"

lemma sampleKv_inv: "kv_inv sampleKvCodec sampleKv" "levelBudget (skipList sampleKv) = 4"
  using sampleCommitted_inv by (simp_all add: kv_inv_def sampleKv_def sampleKvCodec_def new_wf new_budget queues_ok_def)

lemma sampleKv_abs: "kvAbs sampleKv = (Map.empty, Map.empty)"
  by (simp add: kvAbs_def sampleKv_def new_correct[THEN conjunct2, THEN conjunct1])

abbreviation putA :: op where
  "putA \<equiv> \<lparr>Operation = ''Put'', Key = ''k'', Value = ''a'', ClientId = ''c'', RequestId = 1\<rparr>"

abbreviation appendB :: op where
  "appendB \<equiv> \<lparr>Operation = ''Append'', Key = ''k'', Value = ''b'', ClientId = ''c'', RequestId = 3\<rparr>"

section \<open>The apply loop\<close>

text \<open>The messages Raft delivers for commands with consecutive indices from \<open>i\<close> on.\<close>

fun commandMsgs :: "kvcodec \<Rightarrow> int \<Rightarrow> op list \<Rightarrow> applyMsg list" where
  "commandMsgs K i [] = []"
| "commandMsgs K i (p # ps) =
     newApplyMsg\<lparr>CommandValid := True, SnapshotValid := False, Command := opSer K p, CommandIndex := i\<rparr>
       # commandMsgs K (i + 1) ps"

lemma applyRound_ok:
  assumes "kvcodec_ok K" and "kv_inv K kv" and "0 < levelBudget (skipList kv)"
    and "lastSnapShotRaftLogIndex kv < i" and "applyChan kv = commandMsgs K i (p # ps)"
  shows "\<exists>kv'. readApplyCommandRound K kv = Inr kv' \<and> kv_inv K kv' \<and> kvAbs kv' = absApply p (kvAbs kv) \<and>
    lastSnapShotRaftLogIndex kv' = lastSnapShotRaftLogIndex kv \<and>
    levelBudget (skipList kv) - 1 \<le> levelBudget (skipList kv') \<and> applyChan kv' = commandMsgs K (i + 1) ps"
proof -
  let ?m = "newApplyMsg\<lparr>CommandValid := True, SnapshotValid := False, Command := opSer K p, CommandIndex := i\<rparr>"
  let ?kv = "kv\<lparr>applyChan := commandMsgs K (i + 1) ps\<rparr>"
  have pop: "readApplyCommandRound K kv = handleApplyMsg K ?m ?kv"
    using assms(5) by (simp add: readApplyCommandRound_def lqPop_def)
  have inv: "kv_inv K ?kv" using assms(2) by (simp add: kv_inv_def queues_ok_def)
  have p: "opParse K (Command ?m) = Some p" using assms(1) by (simp add: kvcodec_ok_def)
  have bud: "0 < levelBudget (skipList ?kv)" and idx: "lastSnapShotRaftLogIndex ?kv < CommandIndex ?m"
    using assms(3,4) by simp_all
  from handleCommand_ok[OF assms(1) inv bud p idx] obtain kv' where
    "getCommandFromRaft K ?m ?kv = Inr kv'" "kv_inv K kv'" "kvAbs kv' = absApply p (kvAbs ?kv)"
    "lastSnapShotRaftLogIndex kv' = lastSnapShotRaftLogIndex ?kv" "applyChan kv' = applyChan ?kv"
    "levelBudget (skipList ?kv) - 1 \<le> levelBudget (skipList kv')" by blast
  then show ?thesis unfolding pop handleApplyMsg_def by (simp add: kvAbs_def)
qed

lemma applyLoop_ok:
  assumes "kvcodec_ok K" and "kv_inv K kv" and "length ps \<le> levelBudget (skipList kv)"
    and "lastSnapShotRaftLogIndex kv < i" and "applyChan kv = commandMsgs K i ps"
  shows "\<exists>kv'. readApplyCommandLoop K (length ps) kv = Inr kv' \<and> kv_inv K kv' \<and>
    kvAbs kv' = fold absApply ps (kvAbs kv) \<and> applyChan kv' = []"
  using assms(2-)
proof (induction ps arbitrary: kv i)
  case (Cons p ps)
  from Cons.prems(2) have "0 < levelBudget (skipList kv)" by simp
  from applyRound_ok[OF assms(1) Cons.prems(1) this Cons.prems(3,4)] obtain kv1 where
    k1: "readApplyCommandRound K kv = Inr kv1" "kv_inv K kv1" "kvAbs kv1 = absApply p (kvAbs kv)"
      "lastSnapShotRaftLogIndex kv1 = lastSnapShotRaftLogIndex kv"
      "levelBudget (skipList kv) - 1 \<le> levelBudget (skipList kv1)" "applyChan kv1 = commandMsgs K (i + 1) ps"
    by blast
  have "length ps \<le> levelBudget (skipList kv1)" "lastSnapShotRaftLogIndex kv1 < i + 1"
    using k1(4,5) Cons.prems(2,3) by simp_all
  from Cons.IH[OF k1(2) this k1(6)] k1(1,3) show ?case by simp
qed simp

text \<open>C2: whatever commands Raft delivers, with snapshots switched on or off, that many rounds of the
  apply loop return, keep the invariant of the server, and take the abstract state of map and
  request table where the abstract machine takes it: puts and appends in order, every request of a
  client that is not newer than its last one skipped.\<close>

theorem apply_loop_refines:
  assumes "kvcodec_ok K" and "kv_inv K kv" and "length ps \<le> levelBudget (skipList kv)"
    and "lastSnapShotRaftLogIndex kv < i" and "applyChan kv = commandMsgs K i ps"
  shows "\<exists>kv'. readApplyCommandLoop K (length ps) kv = Inr kv' \<and> kv_inv K kv' \<and>
    kvAbs kv' = fold absApply ps (kvAbs kv) \<and> applyChan kv' = []"
  using assms by (rule applyLoop_ok)

theorem apply_loop_refines_witness:
  "\<exists>kv'. readApplyCommandLoop sampleKvCodec 3
      (sampleKv\<lparr>applyChan := commandMsgs sampleKvCodec 1 [putA, appendB, putA]\<rparr>) = Inr kv' \<and>
    kv_inv sampleKvCodec kv' \<and> kvAbs kv' = ([''k'' \<mapsto> ''ab''], [''c'' \<mapsto> 3]) \<and> applyChan kv' = []"
proof -
  let ?kv = "sampleKv\<lparr>applyChan := commandMsgs sampleKvCodec 1 [putA, appendB, putA]\<rparr>"
  have inv: "kv_inv sampleKvCodec ?kv"
    using sampleKv_inv(1) by (simp add: kv_inv_def queues_ok_def del: commandMsgs.simps)
  have "length [putA, appendB, putA] \<le> levelBudget (skipList ?kv)"
    using sampleKv_inv(2) by (simp del: commandMsgs.simps)
  moreover have "lastSnapShotRaftLogIndex ?kv < 1" by (simp add: sampleKv_def del: commandMsgs.simps)
  moreover have "applyChan ?kv = commandMsgs sampleKvCodec 1 [putA, appendB, putA]"
    by (simp del: commandMsgs.simps)
  ultimately obtain kv' where kv': "readApplyCommandLoop sampleKvCodec (length [putA, appendB, putA]) ?kv = Inr kv'"
    "kv_inv sampleKvCodec kv'" "kvAbs kv' = fold absApply [putA, appendB, putA] (kvAbs ?kv)" "applyChan kv' = []"
    using apply_loop_refines[OF sampleKvCodec_ok inv] by blast
  have "kvAbs ?kv = (Map.empty, Map.empty)"
    using sampleKv_abs by (simp add: kvAbs_def del: commandMsgs.simps)
  with kv'(3) have "kvAbs kv' = ([''k'' \<mapsto> ''ab''], [''c'' \<mapsto> 3])"
    by (simp add: absApply_def isWrite_def seen_def absValue_def)
  moreover have "length [putA, appendB, putA] = 3" by simp
  ultimately show ?thesis using kv'(1,2,4) by metis
qed

section \<open>Each write once\<close>

text \<open>A write that was applied is never applied again, however many commands of whatever clients are
  applied in between: its second delivery leaves the server as it is.\<close>

lemma write_once:
  assumes "sl_wf (skipList kv)" and "0 < levelBudget (skipList kv)" and "isWrite p"
    and "applyOp p kv = Inr kv1" and "applyStep\<^sup>*\<^sup>* kv1 kv2"
  shows "applyOp p kv2 = Inr kv2"
proof -
  from applyOp_abs[OF assms(1,2), of p] assms(4) have "kvAbs kv1 = absApply p (kvAbs kv)" by auto
  with assms(3) have "Some (RequestId p) \<le> snd (kvAbs kv1) (ClientId p)"
    by (cases "kvAbs kv") (auto simp: absApply_def seen_def split: option.splits)
  also have "\<dots> \<le> snd (kvAbs kv2) (ClientId p)" using assms(5) by (rule requests.steps_mono)
  finally have "seen p (snd (kvAbs kv2))"
    by (cases "snd (kvAbs kv2) (ClientId p)") (simp_all add: seen_def)
  then show ?thesis by (simp add: applyOp_def isRequestDuplicate_seen kvAbs_def)
qed

lemma write_once_witness:
  "\<exists>kv1 kv2. applyOp putA sampleKv = Inr kv1 \<and> applyOp appendB kv1 = Inr kv2 \<and> applyOp putA kv2 = Inr kv2 \<and>
    fst (kvAbs kv2) ''k'' = Some ''ab''"
proof -
  have wf: "sl_wf (skipList sampleKv)" "0 < levelBudget (skipList sampleKv)"
    using sampleKv_inv by (simp_all add: kv_inv_def)
  from applyOp_abs[OF wf, of putA] obtain kv1 where kv1: "applyOp putA sampleKv = Inr kv1" "sl_wf (skipList kv1)"
    "3 \<le> levelBudget (skipList kv1)" "kvAbs kv1 = absApply putA (kvAbs sampleKv)"
    using sampleKv_inv(2) by auto
  from kv1(3) have bud: "0 < levelBudget (skipList kv1)" by simp
  from applyOp_abs[OF kv1(2) bud, of appendB] obtain kv2 where kv2: "applyOp appendB kv1 = Inr kv2"
    "kvAbs kv2 = absApply appendB (kvAbs kv1)" by blast
  have step: "applyStep\<^sup>*\<^sup>* kv1 kv2"
    by (rule r_into_rtranclp) (use kv1(2) bud kv2(1) in \<open>auto simp: applyStep_def\<close>)
  have "isWrite putA" by (simp add: isWrite_def)
  from write_once[OF wf this kv1(1) step] have "applyOp putA kv2 = Inr kv2" .
  with kv1(1,4) kv2 show ?thesis
    by (intro exI[of _ kv1] exI[of _ kv2])
      (simp add: sampleKv_abs absApply_def isWrite_def seen_def absValue_def)
qed

text \<open>C36: the guard is broken from outside the apply loop.  \<open>getImpl\<close> records its request number without
  comparing it, so a handler that answers an older Get of a client after a newer write of that client was
  applied takes the number back, and the next delivery of the write executes it a second time.\<close>

theorem stale_get_reopens:
  assumes "sl_wf (skipList kv)" and "0 < levelBudget (skipList kv)"
    and "Operation p = ''Append''" and "snd (kvAbs kv) (ClientId p) = Some (RequestId p)"
    and "fst (kvAbs kv) (Key p) = Some v" and "ClientId g = ClientId p" and "RequestId g < RequestId p"
  shows "applyOp p kv = Inr kv \<and>
    (\<exists>rep kv1 kv2. getReply g (Some g) kv = Inr (rep, kv1) \<and> applyOp p kv1 = Inr kv2 \<and>
       fst (kvAbs kv2) (Key p) = Some (v @ Value p))"
proof -
  have dup: "applyOp p kv = Inr kv"
    using assms(4) by (simp add: applyOp_def isRequestDuplicate_seen kvAbs_def seen_def)
  let ?kv1 = "noteRequest g kv"
  obtain rep where r: "getReply g (Some g) kv = Inr (rep, ?kv1)"
    by (simp add: getReply_def sameRequest_def readReply_def execGet_ok[OF assms(1)])
  have "sl_wf (skipList ?kv1)" "0 < levelBudget (skipList ?kv1)" using assms(1,2) by simp_all
  from applyOp_abs[OF this, of p] obtain kv2 where kv2: "applyOp p ?kv1 = Inr kv2"
    "kvAbs kv2 = absApply p (kvAbs ?kv1)" by blast
  have "kvAbs ?kv1 = (fst (kvAbs kv), (snd (kvAbs kv))(ClientId p \<mapsto> RequestId g))"
    using assms(6) by (simp add: kvAbs_def)
  with kv2(2) have "fst (kvAbs kv2) (Key p) = Some (v @ Value p)"
    using assms(3,5,7) by (simp add: absApply_def isWrite_def seen_def absValue_def)
  with dup r kv2(1) show ?thesis by blast
qed

theorem stale_get_reopens_witness:
  "\<exists>kv g rep kv1 kv2. ClientId g = ClientId appendB \<and> applyOp appendB kv = Inr kv \<and>
    getReply g (Some g) kv = Inr (rep, kv1) \<and> applyOp appendB kv1 = Inr kv2 \<and>
    fst (kvAbs kv) ''k'' = Some ''b'' \<and> fst (kvAbs kv2) ''k'' = Some ''bb''"
proof -
  have wf: "sl_wf (skipList sampleKv)" "0 < levelBudget (skipList sampleKv)"
    using sampleKv_inv by (simp_all add: kv_inv_def)
  from applyOp_abs[OF wf, of appendB] obtain kv where kv: "sl_wf (skipList kv)"
    "3 \<le> levelBudget (skipList kv)" "kvAbs kv = absApply appendB (kvAbs sampleKv)"
    using sampleKv_inv(2) by auto
  have abs: "kvAbs kv = ([''k'' \<mapsto> ''b''], [''c'' \<mapsto> 3])"
    using kv(3) by (simp add: sampleKv_abs absApply_def isWrite_def seen_def absValue_def)
  let ?g = "\<lparr>Operation = ''Get'', Key = ''k'', Value = [], ClientId = ''c'', RequestId = 2\<rparr>"
  have bud: "0 < levelBudget (skipList kv)" using kv(2) by simp
  have "applyOp appendB kv = Inr kv \<and>
    (\<exists>rep kv1 kv2. getReply ?g (Some ?g) kv = Inr (rep, kv1) \<and> applyOp appendB kv1 = Inr kv2 \<and>
       fst (kvAbs kv2) (Key appendB) = Some (''b'' @ Value appendB))"
    by (rule stale_get_reopens[OF kv(1) bud]) (simp_all add: abs)
  then show ?thesis by (intro exI[of _ kv] exI[of _ ?g]) (auto simp: abs)
qed

section \<open>Snapshots\<close>

lemma newPersister_read:
  "raftStateFileName p = raftStateFileName (newPersister me d io) \<Longrightarrow>
   raftSnapshotFileName p = raftSnapshotFileName (newPersister me d io) \<Longrightarrow> disk p = d \<Longrightarrow>
   ReadRaftState (newPersister me d io) = ReadRaftState p \<and> ReadSnapshot (newPersister me d io) = ReadSnapshot p"
  by (auto simp: newPersister_def Let_def ReadRaftState_def ReadSnapshot_def ReadRawData_def split: option.splits)

lemma Save_names: "raftStateFileName (Save x y p) = raftStateFileName p"
  "raftSnapshotFileName (Save x y p) = raftSnapshotFileName p"
  by (auto simp: Save_def atomicWrite_def nextIo_def Let_def split: list.splits ioOutcome.splits)

lemma newPersister_names:
  "raftStateFileName (newPersister me d io) = raftStateFileName (newPersister me Map.empty [])"
  "raftSnapshotFileName (newPersister me d io) = raftSnapshotFileName (newPersister me Map.empty [])"
  by (auto simp: newPersister_def Let_def split: option.splits)

lemma snapshot_on_disk:
  assumes "codec_ok C" and "server_inv C r" and i: "lastSnapshotIncludeIndex r < i" "i \<le> commitIndex r"
    and names: "raftStateFileName (persister r) = raftStateFileName (newPersister me Map.empty [])"
      "raftSnapshotFileName (persister r) = raftSnapshotFileName (newPersister me Map.empty [])"
  shows "\<exists>r'. snapshot C i snap r = Inr r' \<and>
    savedState C (newPersister me (disk (persister r')) io)
      = Inr (currentTerm r, votedFor r, i, termAt r i, drop (Suc (slot r i)) (logs r)) \<and>
    ReadSnapshot (newPersister me (disk (persister r')) io) = snap"
proof -
  define r2 where "r2 = r\<lparr>logs := drop (Suc (slot r i)) (logs r), lastSnapshotIncludeIndex := i,
      lastSnapshotIncludeTerm := termAt r i, lastApplied := max (lastApplied r) i\<rparr>"
  define r3 where "r3 = saveSnapshot C snap r2"
  let ?p = "newPersister me (disk (persister r3)) io"
  have "raft_inv r" "p_ok (persister r2)" using assms(2) by (simp_all add: server_inv_def r2_def)
  then have sn: "snapshot C i snap r = Inr r3"
    and saved: "savedState C (persister r3) = Inr (hardState r2)" "ReadSnapshot (persister r3) = snap"
    using snapshot_taken(1)[OF _ i] saveSnapshot_saved(1,2)[OF assms(1)] unfolding r3_def r2_def by blast+
  have "ReadRaftState ?p = ReadRaftState (persister r3) \<and> ReadSnapshot ?p = ReadSnapshot (persister r3)"
    by (rule newPersister_read) (use names in \<open>simp_all add: newPersister_names[of me "disk _"] r3_def r2_def
        saveSnapshot_def Save_names\<close>)
  then have "savedState C ?p = savedState C (persister r3)" "ReadSnapshot ?p = ReadSnapshot (persister r3)"
    by (simp_all only: savedState_def)
  with saved have "savedState C ?p = Inr (hardState r2)" "ReadSnapshot ?p = snap" by simp_all
  with sn show ?thesis by (simp add: hardState_def r2_def)
qed

lemma start_from_files:
  assumes "kvcodec_ok K" and "nodeAddrs 0 (LoadConfigFile conf Map.empty) = Inr addrs" and "0 < si"
    and "savedState (raftCodec K) (newPersister me d io) = Inr (t, v, si, st, l)"
    and "ReadSnapshot (newPersister me d io) = kvOar K (dumpOar K (ks, vs), ids)"
    and "length ks = length vs" and "length ks \<le> length (filter even rs)"
  shows "\<exists>kv. startKvServer K conf me maxSize d io now rs = Inr kv \<and>
    kvAbs kv = (map_of (zip ks vs), map_of ids) \<and> lastApplied (raftNode kv) = si \<and>
    logs (raftNode kv) = l \<and> currentTerm (raftNode kv) = t \<and> votedFor (raftNode kv) = v"
proof -
  obtain r where r: "initRaft (raftCodec K) (length (connectPeers me addrs)) me (newPersister me d io) now = Inr r"
    "lastApplied r = si" "logs r = l" "currentTerm r = t" "votedFor r = v"
    using assms(3) by (simp add: initRaft_saved assms(4))
  let ?kv0 = "\<lparr>raftNode = r, applyChan = [], maxRaftStateSize = maxSize, skipList = newSkipList [] [] 6 rs,
      waitApplyCh = Map.empty, queues = Map.empty, nextQueue = 0, lastSnapShotRaftLogIndex = 0,
      lastRequestIdMap = []\<rparr>"
  have "length ks \<le> levelBudget (skipList ?kv0)" "sl_wf (skipList ?kv0)"
    using assms(7) by (simp_all add: new_budget new_wf)
  from readSnapshot_ok[OF assms(1) this(2) assms(6) this(1), of ids] obtain kv where
    k: "readSnapshotToInstall K (kvOar K (dumpOar K (ks, vs), ids)) ?kv0 = Inr kv" "dataOnly ?kv0 kv"
      "kvAbs kv = (map_of (zip ks vs) ++ fst (kvAbs ?kv0), map_of ids)" by blast
  have "kvOar K (dumpOar K (ks, vs), ids) \<noteq> []" using assms(1) by (simp add: kvcodec_ok_def archive_ok_def)
  with k(1) have "startKvServer K conf me maxSize d io now rs = Inr kv"
    by (simp add: startKvServer_def assms(2,5) r(1) Let_def)
  moreover have "raftNode kv = r" using dataOnly_fields(1)[OF k(2)] by simp
  moreover have "kvAbs kv = (map_of (zip ks vs), map_of ids)"
    using k(3) by (simp add: kvAbs_def new_correct[THEN conjunct2, THEN conjunct1])
  ultimately show ?thesis using r(2-5) by (intro exI[of _ kv]) simp
qed

text \<open>C12: when the server finds its log too large after applying entry \<open>i\<close>, it gives Raft a snapshot;
  a server started on the disk this leaves has the same data and the same request table, the log
  behind entry \<open>i\<close>, and applies next the entry after \<open>i\<close>.\<close>

theorem snapshot_restart:
  assumes "kvcodec_ok K" and "kv_inv K kv" and "maxRaftStateSize kv \<noteq> -1"
    and "maxRaftStateSize kv * n \<le> getRaftStateSize (raftNode kv) * 10"
    and i: "lastSnapshotIncludeIndex (raftNode kv) < i" "i \<le> commitIndex (raftNode kv)"
    and names: "raftStateFileName (persister (raftNode kv)) = raftStateFileName (newPersister me Map.empty [])"
      "raftSnapshotFileName (persister (raftNode kv)) = raftSnapshotFileName (newPersister me Map.empty [])"
    and conf: "nodeAddrs 0 (LoadConfigFile conf Map.empty) = Inr addrs"
    and budget: "elementCount (skipList kv) \<le> length (filter even rs)"
  shows "\<exists>kv' kv''. ifNeedToSendSnapshotCommand K i n kv = Inr kv' \<and> kvAbs kv' = kvAbs kv \<and>
    startKvServer K conf me maxSize (disk (persister (raftNode kv'))) io now rs = Inr kv'' \<and>
    kvAbs kv'' = kvAbs kv \<and> lastApplied (raftNode kv'') = i \<and>
    logs (raftNode kv'') = drop (Suc (slot (raftNode kv) i)) (logs (raftNode kv)) \<and>
    currentTerm (raftNode kv'') = currentTerm (raftNode kv) \<and> votedFor (raftNode kv'') = votedFor (raftNode kv)"
proof -
  have C: "codec_ok (raftCodec K)" using assms(1) by (simp add: kvcodec_ok_def)
  note inv = kv_invD[OF assms(2)]
  from makeSnapshot_ok[OF assms(1) inv(1)] obtain ks vs where m:
    "makeSnapshot K kv = Inr (kvOar K (dumpOar K (ks, vs), lastRequestIdMap kv))" "length ks = length vs"
    "length ks = elementCount (skipList kv)" "map_of (zip ks vs) = lookupKV (skipList kv)" by blast
  from snapshot_on_disk[OF C inv(2) i names, of "kvOar K (dumpOar K (ks, vs), lastRequestIdMap kv)" io]
  obtain r where r: "snapshot (raftCodec K) i (kvOar K (dumpOar K (ks, vs), lastRequestIdMap kv)) (raftNode kv) = Inr r"
    "savedState (raftCodec K) (newPersister me (disk (persister r)) io) = Inr (currentTerm (raftNode kv),
      votedFor (raftNode kv), i, termAt (raftNode kv) i, drop (Suc (slot (raftNode kv) i)) (logs (raftNode kv)))"
    "ReadSnapshot (newPersister me (disk (persister r)) io) = kvOar K (dumpOar K (ks, vs), lastRequestIdMap kv)"
    by blast
  have took: "ifNeedToSendSnapshotCommand K i n kv = Inr (kv\<lparr>raftNode := r\<rparr>)"
    using assms(3,4) r(1) m(1) by (simp add: ifNeedToSendSnapshotCommand_def)
  have "0 < i" "length ks \<le> length (filter even rs)"
    using i(1) inv(2) m(3) budget by (simp_all add: server_inv_def raft_inv_def)
  from start_from_files[OF assms(1) conf this(1) r(2,3) m(2) this(2), of maxSize now] obtain kv'' where
    "startKvServer K conf me maxSize (disk (persister r)) io now rs = Inr kv''"
    "kvAbs kv'' = kvAbs kv" "lastApplied (raftNode kv'') = i"
    "logs (raftNode kv'') = drop (Suc (slot (raftNode kv) i)) (logs (raftNode kv))"
    "currentTerm (raftNode kv'') = currentTerm (raftNode kv)" "votedFor (raftNode kv'') = votedFor (raftNode kv)"
    unfolding m(4) kvAbs_def by blast
  with took show ?thesis by (intro exI[of _ "kv\<lparr>raftNode := r\<rparr>"] exI[of _ kv'']) (simp add: kvAbs_def)
qed

theorem snapshot_restart_witness:
  "\<exists>kv kv' kv''. applyOp putA sampleKv = Inr kv \<and> ifNeedToSendSnapshotCommand sampleKvCodec 1 9 kv = Inr kv' \<and>
    startKvServer sampleKvCodec None 0 (-1) (disk (persister (raftNode kv'))) [] 7 [0, 2] = Inr kv'' \<and>
    kvAbs kv'' = ([''k'' \<mapsto> ''a''], [''c'' \<mapsto> 1]) \<and> lastApplied (raftNode kv'') = 1"
proof -
  have wf: "sl_wf (skipList sampleKv)" "0 < levelBudget (skipList sampleKv)"
    using sampleKv_inv by (simp_all add: kv_inv_def)
  from applyOp_abs[OF wf, of putA] obtain kv where kv: "applyOp putA sampleKv = Inr kv" "sl_wf (skipList kv)"
    "dataOnly sampleKv kv" "kvAbs kv = absApply putA (kvAbs sampleKv)" by blast
  have abs: "kvAbs kv = ([''k'' \<mapsto> ''a''], [''c'' \<mapsto> 1])"
    using kv(4) by (simp add: sampleKv_abs absApply_def isWrite_def seen_def absValue_def)
  have inv: "kv_inv sampleKvCodec kv" using dataOnly_inv[OF kv(3,2) sampleKv_inv(1)] .
  have node: "raftNode kv = sampleCommitted" "maxRaftStateSize kv = 0"
    using dataOnly_fields(1,3)[OF kv(3)] by (simp_all add: sampleKv_def)
  have "dom (fst (kvAbs kv)) = {''k''}" by (simp add: abs)
  then have "elementCount (skipList kv) \<le> length (filter even [0, 2::nat])"
    using elementCount_card[OF kv(2)] by (simp add: kvAbs_def)
  moreover have "nodeAddrs 0 (LoadConfigFile None Map.empty) = Inr []"
    by (subst nodeAddrs.simps) (simp add: LoadConfigFile_def Load_def)
  moreover have "raftStateFileName (persister (raftNode kv)) = raftStateFileName (newPersister 0 Map.empty [])"
    "raftSnapshotFileName (persister (raftNode kv)) = raftSnapshotFileName (newPersister 0 Map.empty [])"
    by (simp_all add: node sampleCommitted_def sampleLeader_def sampleServer_def)
  moreover have "maxRaftStateSize kv \<noteq> -1" "lastSnapshotIncludeIndex (raftNode kv) < 1"
    "1 \<le> commitIndex (raftNode kv)" "maxRaftStateSize kv * 9 \<le> getRaftStateSize (raftNode kv) * 10"
    by (simp_all add: node sampleCommitted_def sampleLeader_def sampleServer_def getRaftStateSize_def
        RaftStateSize_def newPersister_def Let_def)
  ultimately obtain kv' kv'' where "ifNeedToSendSnapshotCommand sampleKvCodec 1 9 kv = Inr kv'"
    "startKvServer sampleKvCodec None 0 (-1) (disk (persister (raftNode kv'))) [] 7 [0, 2] = Inr kv''"
    "kvAbs kv'' = kvAbs kv" "lastApplied (raftNode kv'') = 1"
    using snapshot_restart[OF sampleKvCodec_ok inv, of 9 1 0 None "[]" "[0, 2]" "-1" "[]" 7] by blast
  with kv(1) abs show ?thesis by metis
qed

text \<open>C37: a server that installs a snapshot takes over the request table of the snapshot, but a key it
  already has keeps its own old value, because the dump is loaded with \<open>insertElement\<close> into the
  list as it is; only keys it did not have come from the snapshot.\<close>

theorem install_keeps_own_values:
  assumes "kvcodec_ok K" and "sl_wf (skipList kvL)" and "kv_inv K kv" and "makeSnapshot K kvL = Inr snap"
    and "elementCount (skipList kvL) \<le> levelBudget (skipList kv)"
    and "\<not> CommandValid msg" and "SnapshotValid msg" and "Snapshot msg = snap"
  shows "\<exists>kv'. handleApplyMsg K msg kv = Inr kv' \<and> kv_inv K kv' \<and>
    lastSnapShotRaftLogIndex kv' = SnapshotIndex msg \<and> snd (kvAbs kv') = snd (kvAbs kvL) \<and>
    (\<forall>k. fst (kvAbs kv') k = (case fst (kvAbs kv) k of Some old \<Rightarrow> Some old | None \<Rightarrow> fst (kvAbs kvL) k))"
proof -
  from makeSnapshot_ok[OF assms(1,2)] assms(4) obtain ks vs where m:
    "snap = kvOar K (dumpOar K (ks, vs), lastRequestIdMap kvL)" "length ks = length vs"
    "length ks = elementCount (skipList kvL)" "map_of (zip ks vs) = lookupKV (skipList kvL)" by auto
  from readSnapshot_ok[OF assms(1) kv_invD(1)[OF assms(3)] m(2), of "lastRequestIdMap kvL"] m(3) assms(5)
  obtain kv1 where k: "readSnapshotToInstall K snap kv = Inr kv1" "sl_wf (skipList kv1)" "dataOnly kv kv1"
    "kvAbs kv1 = (lookupKV (skipList kvL) ++ fst (kvAbs kv), map_of (lastRequestIdMap kvL))"
    unfolding m(1) m(4)[symmetric] by auto
  let ?kv = "kv1\<lparr>lastSnapShotRaftLogIndex := SnapshotIndex msg\<rparr>"
  have "handleApplyMsg K msg kv = Inr ?kv"
    using assms(6-8) k(1) by (simp add: handleApplyMsg_def getSnapshotFromRaft_def condInstallSnapshot_def)
  moreover have "kv_inv K ?kv"
    using dataOnly_inv[OF k(3,2) assms(3)] by (simp add: kv_inv_def queues_ok_def)
  moreover have "snd (kvAbs ?kv) = snd (kvAbs kvL)" using k(4) by (simp add: kvAbs_def)
  moreover have "fst (kvAbs ?kv) x = (case fst (kvAbs kv) x of Some old \<Rightarrow> Some old | None \<Rightarrow> fst (kvAbs kvL) x)" for x
    using k(4) by (simp add: kvAbs_def map_add_def split: option.split)
  ultimately show ?thesis by (intro exI[of _ ?kv]) simp
qed

theorem install_keeps_own_values_witness:
  "\<exists>old new snap kv'. makeSnapshot sampleKvCodec new = Inr snap \<and>
    handleApplyMsg sampleKvCodec (newApplyMsg\<lparr>SnapshotValid := True, Snapshot := snap, SnapshotIndex := 5\<rparr>) old = Inr kv' \<and>
    fst (kvAbs new) ''k'' = Some ''ab'' \<and> fst (kvAbs old) ''k'' = Some ''a'' \<and> fst (kvAbs kv') ''k'' = Some ''a'' \<and>
    snd (kvAbs kv') ''c'' = Some 3"
proof -
  have wf: "sl_wf (skipList sampleKv)" "0 < levelBudget (skipList sampleKv)"
    using sampleKv_inv by (simp_all add: kv_inv_def)
  from applyOp_abs[OF wf, of putA] obtain old where old: "sl_wf (skipList old)" "dataOnly sampleKv old"
    "3 \<le> levelBudget (skipList old)" "kvAbs old = absApply putA (kvAbs sampleKv)"
    using sampleKv_inv(2) by auto
  from old(3) have bud: "0 < levelBudget (skipList old)" by simp
  from applyOp_abs[OF old(1) bud, of appendB] obtain new where new: "sl_wf (skipList new)"
    "kvAbs new = absApply appendB (kvAbs old)" by blast
  have abs: "kvAbs old = ([''k'' \<mapsto> ''a''], [''c'' \<mapsto> 1])" "kvAbs new = ([''k'' \<mapsto> ''ab''], [''c'' \<mapsto> 3])"
    using old(4) new(2) by (simp_all add: sampleKv_abs absApply_def isWrite_def seen_def absValue_def)
  have inv: "kv_inv sampleKvCodec old" using dataOnly_inv[OF old(2,1) sampleKv_inv(1)] .
  obtain snap where snap: "makeSnapshot sampleKvCodec new = Inr snap"
    using makeSnapshot_ok[OF sampleKvCodec_ok new(1)] by blast
  have "dom (fst (kvAbs new)) = {''k''}" by (simp add: abs)
  then have "elementCount (skipList new) \<le> levelBudget (skipList old)"
    using elementCount_card[OF new(1)] old(3) by (simp add: kvAbs_def)
  from install_keeps_own_values[OF sampleKvCodec_ok new(1) inv snap this,
      of "newApplyMsg\<lparr>SnapshotValid := True, Snapshot := snap, SnapshotIndex := 5\<rparr>"]
  obtain kv' where
    "handleApplyMsg sampleKvCodec (newApplyMsg\<lparr>SnapshotValid := True, Snapshot := snap, SnapshotIndex := 5\<rparr>) old = Inr kv'"
    "snd (kvAbs kv') = snd (kvAbs new)"
    "\<forall>k. fst (kvAbs kv') k = (case fst (kvAbs old) k of Some v \<Rightarrow> Some v | None \<Rightarrow> fst (kvAbs new) k)"
    by (auto simp: newApplyMsg_def)
  with snap abs show ?thesis by (intro exI[of _ old] exI[of _ new] exI[of _ snap] exI[of _ kv']) simp
qed

section \<open>The queues of the request handlers\<close>

lemma registerWait_ok:
  assumes "queues_ok k" and "registerWait x k = (c, k')"
  shows "queues_ok k'" and "waitApplyCh k' x = Some c"
    and "y \<noteq> x \<Longrightarrow> waitApplyCh k' y = waitApplyCh k y"
proof -
  have old: "a < nextQueue k" if "waitApplyCh k i = Some a" for i a
    using queues_okD(1,3)[OF assms(1)] that by blast
  have "queues_ok k' \<and> waitApplyCh k' x = Some c \<and> (\<forall>y. y \<noteq> x \<longrightarrow> waitApplyCh k' y = waitApplyCh k y)"
  proof (cases "waitApplyCh k x")
    case None
    with assms(2) have k': "k' = k\<lparr>waitApplyCh := (waitApplyCh k)(x \<mapsto> nextQueue k),
        queues := (queues k)(nextQueue k \<mapsto> []), nextQueue := Suc (nextQueue k)\<rparr>" "c = nextQueue k"
      by (auto simp: registerWait_def)
    have fresh: "waitApplyCh k i \<noteq> Some (nextQueue k)" for i using old[of i "nextQueue k"] by auto
    have lt: "a < Suc (nextQueue k)" if "queues k a = Some q" for a q
      using queues_okD(3)[OF assms(1) that] by simp
    show ?thesis using assms(1) fresh lt unfolding k' queues_ok_def by (auto split: if_splits)
  next
    case (Some a)
    with assms show ?thesis by (auto simp: registerWait_def)
  qed
  then show "queues_ok k'" "waitApplyCh k' x = Some c" "y \<noteq> x \<Longrightarrow> waitApplyCh k' y = waitApplyCh k y"
    by blast+
qed

lemma dropWait_ok:
  assumes "queues_ok k"
  shows "queues_ok (dropWait i k)"
proof (cases "waitApplyCh k i")
  case None
  with assms show ?thesis by (simp add: dropWait_def)
next
  case (Some a)
  have ne: "waitApplyCh k j \<noteq> Some a" if "j \<noteq> i" for j using queues_okD(2)[OF assms Some] that by blast
  note ok = assms[unfolded queues_ok_def]
  show ?thesis unfolding dropWait_def Some option.case queues_ok_def
    using ok ne by (simp split: if_splits)
qed

text \<open>C38: handlers that wait for different log indices never share a queue, and the end of one leaves the
  queue of the other alive.  Two handlers waiting for the \<^emph>\<open>same\<close> index (a leader that lost and regained
  its role submits at an index again) share one queue; the first to end deletes it, and the second then
  touches freed memory.\<close>

theorem handler_queues:
  assumes "queues_ok kv" and "registerWait i kv = (a, kv1)" and "registerWait j kv1 = (b, kv2)"
  shows "queues_ok kv2 \<and> queues_ok (dropWait i kv2) \<and>
    (if i = j then b = a \<and> (\<forall>expired. waitEnd expired b (dropWait i kv2) = Inl BadAccess)
     else b \<noteq> a \<and> (\<forall>expired. returns (waitEnd expired b (dropWait i kv2))))"
proof -
  note r1 = registerWait_ok[OF assms(1,2)]
  note r2 = registerWait_ok[OF r1(1) assms(3)]
  have k1: "queues_ok kv1" "waitApplyCh kv1 i = Some a" using r1 by simp_all
  have k2: "queues_ok kv2" "waitApplyCh kv2 j = Some b" "i \<noteq> j \<Longrightarrow> waitApplyCh kv2 i = Some a"
    using r2 k1(2) by simp_all
  have same: "i = j \<Longrightarrow> b = a" using assms(3) k1(2) by (auto simp: registerWait_def)
  have wi: "waitApplyCh kv2 i = Some a" using k2 same by (cases "i = j") auto
  have ne: "i \<noteq> j \<Longrightarrow> b \<noteq> a" using queues_okD(2)[OF k2(1) wi] k2(2) by blast
  obtain q where q: "queues kv2 b = Some q" using queues_okD(1)[OF k2(1,2)] by blast
  have "queues_ok (dropWait i kv2)" using k2(1) by (rule dropWait_ok)
  moreover have "queues (dropWait i kv2) = (queues kv2)(a := None)" by (simp add: dropWait_def wi)
  ultimately show ?thesis using k2(1) same ne q by (cases "i = j") (simp_all add: waitEnd_def)
qed

theorem handler_queues_witness:
  "\<exists>kv1 kv2. registerWait 7 sampleKv = (0, kv1) \<and> registerWait 7 kv1 = (0, kv2) \<and>
    waitEnd True 0 (dropWait 7 kv2) = Inl BadAccess"
proof -
  have ok: "queues_ok sampleKv" using sampleKv_inv(1) by (simp add: kv_inv_def)
  obtain kv1 where r1: "registerWait 7 sampleKv = (0, kv1)" "waitApplyCh kv1 7 = Some 0"
    by (simp add: registerWait_def sampleKv_def)
  then have r2: "registerWait 7 kv1 = (0, kv1)" by (simp add: registerWait_def)
  from handler_queues[OF ok r1(1) r2] r1 r2 show ?thesis by auto
qed

end
