(* ===== verification/KvRequests.thy ===== *)
theory KvRequests
  imports KvTheorems
begin

text \<open>
  A request on its way through the server: from the handler that submits it, through replication and commitment,
  back through the applier and the apply loop to the queue the handler waits on, and to its answer.
\<close>

section \<open>The applier\<close>

text \<open>The log of a server holds given commands from an index on.\<close>

definition holdsOps :: "kvcodec \<Rightarrow> raft \<Rightarrow> int \<Rightarrow> op list \<Rightarrow> bool" where
  "holdsOps K r i ps \<longleftrightarrow>
     (\<forall>k<length ps. \<exists>e. entryAt r (i + int k) = Inr e \<and> command e = opSer K (ps ! k))"

lemma commandMsgs_map:
  "commandMsgs K i ps = map (\<lambda>k. newApplyMsg\<lparr>CommandValid := True, Command := opSer K (ps ! k), CommandIndex := i + int k\<rparr>)
     [0..<length ps]"
proof (induction ps arbitrary: i)
  case (Cons p ps)
  have "[0..<length (p # ps)] = 0 # map Suc [0..<length ps]" by (simp add: map_Suc_upt upt_conv_Cons del: upt_Suc)
  then show ?case by (simp only: commandMsgs.simps Cons.IH) (simp add: newApplyMsg_def algebra_simps)
qed simp

lemma applier_delivers:
  assumes "raft_inv r" and "commitIndex r = lastApplied r + int (length ps)" and "holdsOps K r (lastApplied r + 1) ps"
  shows "applierRound r [] = Inr (r\<lparr>lastApplied := commitIndex r\<rparr>, commandMsgs K (lastApplied r + 1) ps)"
proof -
  have "command (logs r ! slot r (lastApplied r + 1 + int k)) = opSer K (ps ! k)" if "k < length ps" for k
  proof -
    have "lastSnapshotIncludeIndex r < lastApplied r + 1 + int k" "lastApplied r + 1 + int k \<le> getLastLogIndex r"
      using assms(1,2) that by (simp_all add: raft_inv_def)
    then have "entryAt r (lastApplied r + 1 + int k) = Inr (logs r ! slot r (lastApplied r + 1 + int k))"
      using assms(1) by (intro entryAt_wf(1)) (simp_all add: raft_inv_def)
    moreover from assms(3) that obtain e where
      "entryAt r (lastApplied r + 1 + int k) = Inr e" "command e = opSer K (ps ! k)"
      unfolding holdsOps_def by blast
    ultimately show ?thesis by simp
  qed
  then show ?thesis
    using assms(2) by (simp add: applierRound_def getApplyLogs_wf[OF assms(1)] commandMsgs_map max_def)
qed

section \<open>Queues in the apply loop\<close>

text \<open>What a delivered command does to the queues: it is pushed onto the one of its index, if a handler waits.\<close>

definition pushWaiting :: "int \<Rightarrow> op \<Rightarrow> kvserver \<Rightarrow> nat \<rightharpoonup> op list" where
  "pushWaiting i p kv = (case waitApplyCh kv i of
     None \<Rightarrow> queues kv | Some a \<Rightarrow> (queues kv)(a \<mapsto> the (queues kv a) @ [p]))"

lemma pushWaiting_cong:
  "waitApplyCh kv' = waitApplyCh kv \<Longrightarrow> queues kv' = queues kv \<Longrightarrow> pushWaiting i p kv' = pushWaiting i p kv"
  by (simp add: pushWaiting_def split: option.split)

lemma sendMsg_pushes:
  "sendMsgToWaitChan p i kv = Inr (b, kv') \<Longrightarrow> kv' = kv\<lparr>queues := pushWaiting i p kv\<rparr>"
  by (auto simp: sendMsgToWaitChan_def pushWaiting_def lqPush_def andThen_eq_Inr derefOpt_eq_Inr split: option.splits)

lemma ifNeed_fields:
  assumes "ifNeedToSendSnapshotCommand K i n kv = Inr kv'"
  shows "waitApplyCh kv' = waitApplyCh kv" "queues kv' = queues kv"
  using assms by (auto simp: ifNeedToSendSnapshotCommand_def andThen_eq_Inr split: if_splits)

lemma command_queues:
  assumes inv: "sl_wf (skipList kv)" "0 < levelBudget (skipList kv)" and "opParse K (Command msg) = Some p"
    and "lastSnapShotRaftLogIndex kv < CommandIndex msg" and ok: "getCommandFromRaft K msg kv = Inr kv'"
  shows "waitApplyCh kv' = waitApplyCh kv" "queues kv' = pushWaiting (CommandIndex msg) p kv"
proof -
  from applyOp_abs[OF inv, of p] obtain kv1 where k1: "applyOp p kv = Inr kv1" "dataOnly kv kv1" by blast
  from ok assms(3,4) k1(1) obtain kv2 b where
    k2: "(if maxRaftStateSize kv1 \<noteq> -1 then ifNeedToSendSnapshotCommand K (CommandIndex msg) 9 kv1 else Inr kv1) = Inr kv2"
    and k3: "sendMsgToWaitChan p (CommandIndex msg) kv2 = Inr (b, kv')"
    by (auto simp: getCommandFromRaft_def andThen_eq_Inr split: if_splits)
  have "waitApplyCh kv2 = waitApplyCh kv1" "queues kv2 = queues kv1" using k2 by (auto dest: ifNeed_fields split: if_splits)
  then show "waitApplyCh kv' = waitApplyCh kv" "queues kv' = pushWaiting (CommandIndex msg) p kv"
    using sendMsg_pushes[OF k3] dataOnly_fields(4,5)[OF k1(2)] pushWaiting_cong[of kv2 kv] by simp_all
qed

lemma round_queues:
  assumes "kvcodec_ok K" and "kv_inv K kv" and "0 < levelBudget (skipList kv)" and "lastSnapShotRaftLogIndex kv < i"
    and "applyChan kv = commandMsgs K i (p # ps)" and "readApplyCommandRound K kv = Inr kv'"
  shows "waitApplyCh kv' = waitApplyCh kv" "queues kv' = pushWaiting i p kv"
proof -
  let ?m = "newApplyMsg\<lparr>CommandValid := True, SnapshotValid := False, Command := opSer K p, CommandIndex := i\<rparr>"
  let ?kv = "kv\<lparr>applyChan := commandMsgs K (i + 1) ps\<rparr>"
  have "getCommandFromRaft K ?m ?kv = Inr kv'"
    using assms(5,6) by (simp add: readApplyCommandRound_def lqPop_def handleApplyMsg_def andThen_eq_Inr)
  from command_queues[OF _ _ _ _ this, of p] show "waitApplyCh kv' = waitApplyCh kv" "queues kv' = pushWaiting i p kv"
    using assms(1-4) pushWaiting_cong[of ?kv kv] by (simp_all add: kv_inv_def kvcodec_ok_def)
qed

text \<open>After \<open>m\<close> rounds the data is that of the first \<open>m\<close> commands, and a queue of one of their indices has got its command.\<close>

lemma rounds_ok:
  assumes "kvcodec_ok K" and "kv_inv K kv" and "m \<le> length ps" and "m \<le> levelBudget (skipList kv)"
    and "lastSnapShotRaftLogIndex kv < i" and "applyChan kv = commandMsgs K i ps"
  shows "\<exists>kv'. readApplyCommandLoop K m kv = Inr kv' \<and> kv_inv K kv' \<and> kvAbs kv' = fold absApply (take m ps) (kvAbs kv) \<and>
    waitApplyCh kv' = waitApplyCh kv \<and> (\<forall>j a q. waitApplyCh kv j = Some a \<longrightarrow> queues kv a = Some q \<longrightarrow>
      queues kv' a = Some (if i \<le> j \<and> j < i + int m then q @ [ps ! nat (j - i)] else q))"
  using assms(2-)
proof (induction m arbitrary: kv i ps)
  case 0
  then show ?case by auto
next
  case (Suc m)
  then obtain p ps' where ps: "ps = p # ps'" by (cases ps) auto
  have b: "0 < levelBudget (skipList kv)" using Suc.prems(3) by simp
  from applyRound_ok[OF assms(1) Suc.prems(1) b Suc.prems(4) Suc.prems(5)[unfolded ps]] obtain kv1 where
    k1: "readApplyCommandRound K kv = Inr kv1" "kv_inv K kv1" "kvAbs kv1 = absApply p (kvAbs kv)"
      "lastSnapShotRaftLogIndex kv1 = lastSnapShotRaftLogIndex kv"
      "levelBudget (skipList kv) - 1 \<le> levelBudget (skipList kv1)" "applyChan kv1 = commandMsgs K (i + 1) ps'"
    by blast
  note q1 = round_queues[OF assms(1) Suc.prems(1) b Suc.prems(4) Suc.prems(5)[unfolded ps] k1(1)]
  have "m \<le> length ps'" "m \<le> levelBudget (skipList kv1)" "lastSnapShotRaftLogIndex kv1 < i + 1"
    using Suc.prems(2-4) k1(4,5) ps by simp_all
  from Suc.IH[OF k1(2) this k1(6)] obtain kv' where
    k': "readApplyCommandLoop K m kv1 = Inr kv'" "kv_inv K kv'" "kvAbs kv' = fold absApply (take m ps') (kvAbs kv1)"
      "waitApplyCh kv' = waitApplyCh kv1"
    and q': "\<And>j a q. waitApplyCh kv1 j = Some a \<Longrightarrow> queues kv1 a = Some q \<Longrightarrow>
      queues kv' a = Some (if i + 1 \<le> j \<and> j < i + 1 + int m then q @ [ps' ! nat (j - (i + 1))] else q)" by blast
  have "queues kv' a = Some (if i \<le> j \<and> j < i + int (Suc m) then q @ [ps ! nat (j - i)] else q)"
    if a: "waitApplyCh kv j = Some a" "queues kv a = Some q" for j a q
  proof (cases "j = i")
    case True
    then have "queues kv1 a = Some (q @ [p])" using a q1(2) by (simp add: pushWaiting_def)
    from q'[OF _ this, of j] show ?thesis using a q1(1) True ps by simp
  next
    case False
    have "queues kv1 a = Some q"
      using a q1(2) queues_okD(2)[OF kv_invD(3)[OF Suc.prems(1)], of i a j] False
      by (auto simp: pushWaiting_def split: option.splits)
    moreover have "ps' ! nat (j - (i + 1)) = ps ! nat (j - i)" if "i < j"
    proof -
      have "nat (j - i) = Suc (nat (j - (i + 1)))" using that by simp
      then show ?thesis by (simp add: ps)
    qed
    ultimately show ?thesis using q'[of j a q] a q1(1) False by auto
  qed
  then show ?case using k1(1,3) k' q1(1) ps by (intro exI[of _ kv']) simp
qed

section \<open>Submission\<close>

abbreviation newEntry :: "kvcodec \<Rightarrow> op \<Rightarrow> raft \<Rightarrow> logEntry" where
  "newEntry K p r \<equiv> \<lparr>command = opSer K p, logterm = currentTerm r, logindex = getLastLogIndex r + 1\<rparr>"

text \<open>A leader's handler appends the command, and waits on a new empty queue if nobody waits at that index.\<close>

lemma implStart_leader:
  assumes "raft_inv (raftNode kv)" and "status (raftNode kv) = Leader"
    and "waitApplyCh kv (getLastLogIndex (raftNode kv) + 1) = None"
  shows "implStart K p kv = (Inr (getLastLogIndex (raftNode kv) + 1, nextQueue kv),
    kv\<lparr>raftNode := persist (raftCodec K) ((raftNode kv)\<lparr>logs := logs (raftNode kv) @ [newEntry K p (raftNode kv)]\<rparr>),
       waitApplyCh := (waitApplyCh kv)(getLastLogIndex (raftNode kv) + 1 \<mapsto> nextQueue kv),
       queues := (queues kv)(nextQueue kv \<mapsto> []), nextQueue := Suc (nextQueue kv)\<rparr>)"
  using assms(3) by (simp add: implStart_def submitOp_def start_leader(1)[OF assms(1,2)] registerWait_def)

lemma leader_log:
  fixes C e
  assumes "raft_inv r"
  defines "r1 \<equiv> persist C (r\<lparr>logs := logs r @ [e]\<rparr>)"
  assumes "logindex e = getLastLogIndex r + 1"
  shows "raft_inv r1" "getLastLogIndex r1 = getLastLogIndex r + 1" "entryAt r1 (getLastLogIndex r + 1) = Inr e"
    "termAt r1 (getLastLogIndex r) = termAt r (getLastLogIndex r)"
    "ae_entries (heartBeatMsg r1 (getLastLogIndex r + 1)) = [e]"
proof -
  have wf: "log_wf r" using assms(1) by (simp add: raft_inv_def)
  note last = lastLogIndex_wf[OF wf]
  let ?r = "r\<lparr>logs := logs r @ [e]\<rparr>"
  have wf1: "log_wf ?r"
    using wf last assms(3) by (simp add: log_wf_contiguous contiguous_append contiguous_Cons)
  have last1: "getLastLogIndex ?r = getLastLogIndex r + 1" using lastLogIndex_wf[OF wf1] last by simp
  with wf1 assms(1) show "raft_inv r1"
    unfolding r1_def raft_inv_persist by (auto simp: raft_inv_def)
  show "getLastLogIndex r1 = getLastLogIndex r + 1" by (simp add: r1_def log_keep last1)
  have slot1: "slot ?r (getLastLogIndex r + 1) = length (logs r)" using last by (simp add: slot_def)
  have "entryAt ?r (getLastLogIndex r + 1) = Inr (logs ?r ! slot ?r (getLastLogIndex r + 1))"
    by (rule entryAt_wf(1)[OF wf1]) (use last last1 in simp_all)
  then show "entryAt r1 (getLastLogIndex r + 1) = Inr e"
    unfolding slot1 by (simp add: r1_def log_keep)
  show "termAt r1 (getLastLogIndex r) = termAt r (getLastLogIndex r)"
  proof (cases "logs r")
    case Nil
    then show ?thesis using last by (simp add: r1_def termAt_def)
  next
    case (Cons x xs)
    then show ?thesis using last nth_append[of "x # xs" "[e]" "length xs"] by (simp add: r1_def termAt_def slot_def)
  qed
  show "ae_entries (heartBeatMsg r1 (getLastLogIndex r + 1)) = [e]"
    using last by (simp add: heartBeatMsg_def r1_def)
qed

section \<open>Replication and commitment\<close>

text \<open>The answer that completes a majority commits everything up to the last entry of its message.\<close>

lemma accepted_commits:
  assumes "raft_inv r" "status r = Leader" "j < npeers r" "majority r \<le> 2"
    and "n < length (appendNums r)" "appendNums r ! n = 1" "matchIndex r ! j \<le> getLastLogIndex r"
    and "ae_prevlogindex args + 1 = getLastLogIndex r" "ae_entries args = [e]" "logterm e = currentTerm r"
    and "aer_appstate reply = AppNormal" "aer_success reply" "aer_term reply = currentTerm r"
  shows "\<exists>r'. sendAppendEntries (int j) args True reply n r = Inr r' \<and> commitIndex r' = getLastLogIndex r \<and>
    lastApplied r' = lastApplied r \<and> logs r' = logs r \<and> lastSnapshotIncludeIndex r' = lastSnapshotIncludeIndex r \<and>
    lastSnapshotIncludeTerm r' = lastSnapshotIncludeTerm r"
proof -
  have len: "length (matchIndex r) = npeers r" "length (nextIndex r) = npeers r" "commitIndex r \<le> getLastLogIndex r"
    using assms(1) by (simp_all add: raft_inv_def)
  let ?i = "getLastLogIndex r"
  have m: "ae_prevlogindex args + int (length (ae_entries args)) = ?i" using assms(8,9) by simp
  define r1 where "r1 = r\<lparr>appendNums := (appendNums r)[n := 2], matchIndex := (matchIndex r)[j := ?i],
    nextIndex := (nextIndex r)[j := ?i + 1]\<rparr>"
  have f: "logs r1 = logs r" "lastSnapshotIncludeIndex r1 = lastSnapshotIncludeIndex r"
    "lastSnapshotIncludeTerm r1 = lastSnapshotIncludeTerm r" "currentTerm r1 = currentTerm r" "commitIndex r1 = commitIndex r"
    "lastApplied r1 = lastApplied r" "majority r1 \<le> 2" "appendNums r1 ! n = 2" "n < length (appendNums r1)"
    using assms(4,5) by (simp_all add: r1_def majority_def)
  have last1: "getLastLogIndex r1 = ?i" by (rule log_funs_cong(2)[OF f(1-3)])
  let ?r2 = "r1\<lparr>appendNums := (appendNums r1)[n := 0], commitIndex := ?i\<rparr>"
  have last2: "getLastLogIndex ?r2 = ?i" by (rule log_funs_cong(2)) (simp_all add: f)
  have "appendAccepted (int j) args n r = commitRound args n r1"
    using assms(3,5-7) len m last1 by (simp add: appendAccepted_def vecGet_def vecSet_def Let_def r1_def max_absorb2)
  also have "\<dots> = Inr ?r2"
    using f(4,5,7-9) len(3) last2 assms(8-10) by (simp add: commitRound_def vecGet_def Let_def max_absorb2)
  finally have "sendAppendEntries (int j) args True reply n r = Inr ?r2"
    using assms(2,11-13) by (simp add: sendAppendEntries_def AppNormal_def Disconnected_def)
  then show ?thesis by (simp add: f)
qed

text \<open>A leader whose view of its peers lies in its log, and a follower that has the leader's log up to its end.\<close>

definition peersInLog :: "raft \<Rightarrow> bool" where
  "peersInLog r \<longleftrightarrow> (\<forall>k<npeers r. int k \<noteq> raftId r \<longrightarrow>
     1 \<le> nextIndex r ! k \<and> nextIndex r ! k \<le> getLastLogIndex r + 1 \<and> matchIndex r ! k \<le> getLastLogIndex r)"

definition caughtUp :: "raft \<Rightarrow> raft \<Rightarrow> bool" where
  "caughtUp r f \<longleftrightarrow> raft_inv f \<and> p_ok (persister f) \<and> currentTerm f \<le> currentTerm r \<and>
     getLastLogIndex f = getLastLogIndex r \<and> termAt f (getLastLogIndex r) = termAt r (getLastLogIndex r)"

lemma command_sent:
  assumes wf: "raft_inv r1" and r: "status r1 = Leader" "npeers r1 = npeers r" "raftId r1 = raftId r"
      "nextIndex r1 = nextIndex r" "getLastLogIndex r1 = getLastLogIndex r + 1" "peersInLog r"
    and j: "j < npeers r" "int j \<noteq> raftId r" "nextIndex r ! j = getLastLogIndex r + 1"
    and snap: "lastSnapshotIncludeIndex r1 < getLastLogIndex r + 1"
  obtains sp where "doHeartBeat now r1 = Inr (r1\<lparr>appendNums := appendNums r1 @ [1], lastResetHearBeatTime := now\<rparr>, sp)"
    and "SendAppendEntries (int j) (heartBeatMsg r1 (getLastLogIndex r + 1)) (length (appendNums r1)) \<in> set sp"
proof -
  have "\<forall>k<npeers r1. int k \<noteq> raftId r1 \<longrightarrow> 1 \<le> nextIndex r1 ! k \<and> nextIndex r1 ! k \<le> getLastLogIndex r1 + 1"
    using r by (auto simp: peersInLog_def)
  from doHeartBeat_sends[OF wf r(1) this, of now] that show thesis
    using j snap r by (force simp: r)
qed

lemma command_committed:
  fixes C e
  assumes C: "codec_ok C" and inv: "server_inv C r" and r: "status r = Leader" "majority r \<le> 2" "peersInLog r"
    and j: "j < npeers r" "int j \<noteq> raftId r" "nextIndex r ! j = getLastLogIndex r + 1" and f: "caughtUp r f"
    and e: "logindex e = getLastLogIndex r + 1" "logterm e = currentTerm r"
  defines "r1 \<equiv> persist C (r\<lparr>logs := logs r @ [e]\<rparr>)"
  assumes inv1: "server_inv C r1"
  shows "\<exists>r2 sp args n reply f' r3. doHeartBeat now r1 = Inr (r2, sp) \<and> SendAppendEntries (int j) args n \<in> set sp \<and>
    appendEntriesimpl C now' args f = Inr (reply, f') \<and> sendAppendEntries (int j) args True reply n r2 = Inr r3 \<and>
    server_inv C r3 \<and> commitIndex r3 = getLastLogIndex r + 1 \<and> lastApplied r3 = lastApplied r \<and>
    entryAt r3 (getLastLogIndex r + 1) = Inr e \<and> entryAt f' (getLastLogIndex r + 1) = Inr e \<and>
    savedState C (persister f') = Inr (hardState f')"
proof -
  let ?i = "getLastLogIndex r + 1"
  have rinv: "raft_inv r" using inv by (simp add: server_inv_def)
  note L = leader_log[OF rinv e(1), of C, folded r1_def]
  have f1: "status r1 = Leader" "npeers r1 = npeers r" "raftId r1 = raftId r" "nextIndex r1 = nextIndex r"
    "matchIndex r1 = matchIndex r" "currentTerm r1 = currentTerm r" "lastApplied r1 = lastApplied r"
    "lastSnapshotIncludeIndex r1 = lastSnapshotIncludeIndex r"
    using r(1) by (simp_all add: r1_def)
  have snap: "lastSnapshotIncludeIndex r < ?i" "lastSnapshotIncludeIndex f < ?i"
    using rinv f by (auto simp: raft_inv_def caughtUp_def)
  let ?args = "heartBeatMsg r1 ?i" and ?n = "length (appendNums r1)"
  let ?r2 = "r1\<lparr>appendNums := appendNums r1 @ [1], lastResetHearBeatTime := now\<rparr>"
  obtain sp where hb: "doHeartBeat now r1 = Inr (?r2, sp)" and sp: "SendAppendEntries (int j) ?args ?n \<in> set sp"
    by (rule command_sent[OF L(1) f1(1-4) L(2) r(3) j]) (use snap(1) f1 in simp_all)
  have lf: "length (logs f) = nat (getLastLogIndex r - lastSnapshotIncludeIndex f)"
    using f lastLogIndex_wf[of f] by (simp add: caughtUp_def raft_inv_def)
  have "\<not> clash (logs f) (nat (?i - 1 - lastSnapshotIncludeIndex f)) (ae_entries ?args)"
    using lf by (simp add: clash_def)
  then obtain reply f' where a: "appendEntriesimpl C now' ?args f = Inr (reply, f')" "aer_success reply"
    "aer_term reply = currentTerm r1" "entryAt f' ?i = entryAt r1 ?i" "savedState C (persister f') = Inr (hardState f')"
    using heartbeat_agrees[OF C L(1), of f ?i now'] f L(2,4) snap by (auto simp: caughtUp_def f1)
  have len: "getLastLogIndex ?r2 = ?i" using L(2) log_funs_cong(2)[of ?r2 r1] by simp
  have inv2: "server_inv C ?r2" using heartBeat_keeps[OF inv1 hb] by simp
  then have rinv2: "raft_inv ?r2" by (simp add: server_inv_def)
  have c: "matchIndex ?r2 ! j \<le> getLastLogIndex ?r2" "majority ?r2 \<le> 2"
    using r(2,3) j by (auto simp: len f1 peersInLog_def majority_def)
  have d: "ae_prevlogindex ?args + 1 = getLastLogIndex ?r2" unfolding len by (simp add: heartBeatMsg_def)
  have "\<exists>r3. sendAppendEntries (int j) ?args True reply ?n ?r2 = Inr r3 \<and> commitIndex r3 = getLastLogIndex ?r2 \<and>
    lastApplied r3 = lastApplied ?r2 \<and> logs r3 = logs ?r2 \<and> lastSnapshotIncludeIndex r3 = lastSnapshotIncludeIndex ?r2 \<and>
    lastSnapshotIncludeTerm r3 = lastSnapshotIncludeTerm ?r2"
    by (rule accepted_commits[OF rinv2 _ _ c(2) _ _ c(1) d L(5)])
      (use f1 j(1) e(2) a(2,3) appendEntries_connected[OF a(1)] in simp_all)
  then obtain r3 where r3: "sendAppendEntries (int j) ?args True reply ?n ?r2 = Inr r3"
    and g: "commitIndex r3 = getLastLogIndex ?r2" "lastApplied r3 = lastApplied ?r2" "logs r3 = logs ?r2"
      "lastSnapshotIncludeIndex r3 = lastSnapshotIncludeIndex ?r2" "lastSnapshotIncludeTerm r3 = lastSnapshotIncludeTerm ?r2"
    by blast
  have "entryAt r3 ?i = entryAt r1 ?i" by (rule log_funs_cong(7)) (simp_all add: g)
  moreover have "commitIndex r3 = ?i" "lastApplied r3 = lastApplied r" using g(1,2) by (simp_all add: len f1)
  moreover have "server_inv C r3" using sendAppendEntries_keeps[OF inv2 r3] by simp
  ultimately show ?thesis
    using hb sp a r3 L(3)
    by (intro exI[of _ ?r2] exI[of _ sp] exI[of _ ?args] exI[of _ ?n] exI[of _ reply] exI[of _ f'] exI[of _ r3]) simp
qed

section \<open>Delivery and answer\<close>

text \<open>A command that was committed alone is delivered, executed, and wakes the handler that waits at its index.\<close>

lemma command_delivered:
  assumes "kvcodec_ok K" and "kv_inv K kv" and "applyChan kv = []" and "0 < levelBudget (skipList kv)"
    and "lastSnapShotRaftLogIndex kv < i" and "commitIndex (raftNode kv) = i" "lastApplied (raftNode kv) = i - 1"
    and "entryAt (raftNode kv) i = Inr e" "command e = opSer K p"
    and "waitApplyCh kv i = Some a" "queues kv a = Some []"
  shows "\<exists>r ms kv'. applierRound (raftNode kv) [] = Inr (r, ms) \<and>
    readApplyCommandLoop K (length ms) (kv\<lparr>raftNode := r, applyChan := ms\<rparr>) = Inr kv' \<and> kv_inv K kv' \<and>
    kvAbs kv' = absApply p (kvAbs kv) \<and> waitApplyCh kv' i = Some a \<and> queues kv' a = Some [p]"
proof -
  let ?r = "(raftNode kv)\<lparr>lastApplied := i\<rparr>" and ?ms = "commandMsgs K i [p]"
  have sinv: "server_inv (raftCodec K) (raftNode kv)" using assms(2) by (simp add: kv_inv_def)
  have "raft_inv (raftNode kv)" using sinv by (simp add: server_inv_def)
  then have d: "applierRound (raftNode kv) [] = Inr (?r, ?ms)"
    using applier_delivers[of "raftNode kv" "[p]" K] assms(6-9) by (simp add: holdsOps_def)
  then have "server_inv (raftCodec K) ?r"
    using apply_keeps[OF sinv] by (auto simp: applierRound_def andThen_eq_Inr)
  then have inv: "kv_inv K (kv\<lparr>raftNode := ?r, applyChan := ?ms\<rparr>)"
    using assms(2) by (simp add: kv_inv_def queues_ok_def del: commandMsgs.simps)
  from rounds_ok[OF assms(1) inv, of 1 "[p]" i] assms(4,5) obtain kv' where
    k: "readApplyCommandLoop K 1 (kv\<lparr>raftNode := ?r, applyChan := ?ms\<rparr>) = Inr kv'" "kv_inv K kv'"
      "kvAbs kv' = absApply p (kvAbs (kv\<lparr>raftNode := ?r, applyChan := ?ms\<rparr>))" "waitApplyCh kv' = waitApplyCh kv"
    and q: "queues kv' a = Some [p]" using assms(10,11) by (auto simp del: commandMsgs.simps readApplyCommandLoop.simps)
  moreover have "length ?ms = 1" by simp
  ultimately show ?thesis
    using d assms(10) by (intro exI[of _ ?r] exI[of _ ?ms] exI[of _ kv']) (simp add: kvAbs_def del: commandMsgs.simps readApplyCommandLoop.simps)
qed

lemma put_answered:
  assumes "waitApplyCh kv i = Some a" and "queues kv a = Some [p]"
  shows "\<exists>kv'. putAppendImplEnd False p i a kv = Inr (Some ((OK, []), kv')) \<and> kvAbs kv' = kvAbs kv \<and> waitApplyCh kv' i = None"
  using assms
  by (simp add: putAppendImplEnd_def waitEnd_def timeOutPop_def putAppendReply_def sameRequest_def dropWait_def kvAbs_def)

lemma get_answered:
  assumes "sl_wf (skipList kv)" and "waitApplyCh kv i = Some a" and "queues kv a = Some [p]"
  shows "\<exists>kv'. getImplEnd False p i a kv =
      Inr (Some (case fst (kvAbs kv) (Key p) of Some v \<Rightarrow> (OK, v) | None \<Rightarrow> (ErrNoKey, []), kv')) \<and>
    fst (kvAbs kv') = fst (kvAbs kv) \<and> waitApplyCh kv' i = None"
proof -
  let ?kv = "kv\<lparr>queues := (queues kv)(a \<mapsto> [])\<rparr>"
  have "execGetOpOnKVDB p ?kv = Inr (lookupKV (skipList kv) (Key p), noteRequest p ?kv)"
    using execGet_ok[of ?kv p] assms(1) by simp
  then show ?thesis
    using assms(2,3) by (simp add: getImplEnd_def waitEnd_def timeOutPop_def getReply_def sameRequest_def readReply_def
        dropWait_def kvAbs_def noteRequest_def)
qed

section \<open>Property\<close>

definition idleLeader :: "kvserver \<Rightarrow> bool" where
  \<comment> \<open>everything in the log is committed and applied, and nobody waits for the next index\<close>
  "idleLeader kv \<longleftrightarrow> status (raftNode kv) = Leader \<and> peersInLog (raftNode kv) \<and>
     commitIndex (raftNode kv) = getLastLogIndex (raftNode kv) \<and> lastApplied (raftNode kv) = getLastLogIndex (raftNode kv) \<and>
     applyChan kv = [] \<and> waitApplyCh kv (getLastLogIndex (raftNode kv) + 1) = None \<and>
     lastSnapShotRaftLogIndex kv \<le> getLastLogIndex (raftNode kv)"

definition readValue :: "string \<Rightarrow> kvState \<Rightarrow> reply" where
  "readValue k st = (case fst st k of Some v \<Rightarrow> (OK, v) | None \<Rightarrow> (ErrNoKey, []))"

lemma kv_inv_submitted:
  assumes "kv_inv K kv" and "server_inv (raftCodec K) r" and "waitApplyCh kv i = None"
  shows "kv_inv K (kv\<lparr>raftNode := r, waitApplyCh := (waitApplyCh kv)(i \<mapsto> nextQueue kv),
    queues := (queues kv)(nextQueue kv \<mapsto> []), nextQueue := Suc (nextQueue kv)\<rparr>)" (is "kv_inv K ?kv")
proof -
  let ?q = "kv\<lparr>waitApplyCh := (waitApplyCh kv)(i \<mapsto> nextQueue kv), queues := (queues kv)(nextQueue kv \<mapsto> []),
    nextQueue := Suc (nextQueue kv)\<rparr>"
  have "registerWait i kv = (nextQueue kv, ?q)" by (simp add: registerWait_def assms(3))
  then have "queues_ok ?q" by (rule registerWait_ok(1)[OF kv_invD(3)[OF assms(1)]])
  then have "queues_ok ?kv" by (rule queues_ok_cong[THEN iffD2, rotated 3]) simp_all
  then show ?thesis using assms(2) kv_invD(1)[OF assms(1)] by (simp add: kv_inv_def)
qed

text \<open>C3: A request is answered: in a cluster of two or three, with a leader that is not behind with its log and one
  follower that has it, the handler appends the command and waits; the leader's next round sends it to the follower, which
  stores it durably and accepts; that answer commits it, the applier delivers it, the apply loop executes it once and wakes
  the handler, and the handler answers: a write with \<open>OK\<close>, a read with the value the data has behind everything committed
  before it.  No step of the way fails, with snapshots switched on or off.\<close>

theorem request_answered:
  assumes "kvcodec_ok K" and "kv_inv K kv" and "idleLeader kv" and "0 < levelBudget (skipList kv)"
    and "majority (raftNode kv) \<le> 2" and "j < npeers (raftNode kv)" "int j \<noteq> raftId (raftNode kv)"
    and "nextIndex (raftNode kv) ! j = getLastLogIndex (raftNode kv) + 1" and "caughtUp (raftNode kv) f"
  shows "\<exists>i a kv1 r2 sp args n reply f' r3 r4 ms kv2 kv3.
    implStart K p kv = (Inr (i, a), kv1) \<and>
    doHeartBeat now (raftNode kv1) = Inr (r2, sp) \<and> SendAppendEntries (int j) args n \<in> set sp \<and>
    appendEntriesimpl (raftCodec K) now' args f = Inr (reply, f') \<and>
    (\<exists>e. entryAt f' i = Inr e \<and> command e = opSer K p) \<and>
    savedState (raftCodec K) (persister f') = Inr (hardState f') \<and>
    sendAppendEntries (int j) args True reply n r2 = Inr r3 \<and> applierRound r3 [] = Inr (r4, ms) \<and>
    readApplyCommandLoop K (length ms) (kv1\<lparr>raftNode := r4, applyChan := ms\<rparr>) = Inr kv2 \<and>
    kvAbs kv2 = absApply p (kvAbs kv) \<and>
    (if isWrite p then putAppendImplEnd False p i a kv2 = Inr (Some ((OK, []), kv3))
     else getImplEnd False p i a kv2 = Inr (Some (readValue (Key p) (kvAbs kv), kv3))) \<and>
    fst (kvAbs kv3) = fst (kvAbs kv2)"
proof -
  let ?r = "raftNode kv" and ?e = "newEntry K p (raftNode kv)" and ?C = "raftCodec K"
  let ?i = "getLastLogIndex ?r + 1" and ?a = "nextQueue kv"
  let ?r1 = "persist ?C (?r\<lparr>logs := logs ?r @ [?e]\<rparr>)"
  let ?w = "\<lambda>r. kv\<lparr>raftNode := r, waitApplyCh := (waitApplyCh kv)(?i \<mapsto> ?a), queues := (queues kv)(?a \<mapsto> []), nextQueue := Suc ?a\<rparr>"
  have C: "codec_ok ?C" and inv: "server_inv ?C ?r" "raft_inv ?r"
    using assms(1,2) by (simp_all add: kvcodec_ok_def kv_inv_def server_inv_def)
  have idle: "status ?r = Leader" "peersInLog ?r" "lastApplied ?r = ?i - 1" "waitApplyCh kv ?i = None"
    "applyChan kv = []" "lastSnapShotRaftLogIndex kv < ?i"
    using assms(3) by (simp_all add: idleLeader_def)
  have st: "implStart K p kv = (Inr (?i, ?a), ?w ?r1)" by (rule implStart_leader[OF inv(2) idle(1,4)])
  have "server_inv ?C ?r1" using start_keeps[OF C inv(1) start_leader(1)[OF inv(2) idle(1)]] by simp
  from command_committed[OF C inv(1) idle(1) assms(5) idle(2) assms(6-9) _ _ this, of now now'] obtain r2 sp args n reply f' r3 where
    c: "doHeartBeat now ?r1 = Inr (r2, sp)" "SendAppendEntries (int j) args n \<in> set sp"
      "appendEntriesimpl ?C now' args f = Inr (reply, f')" "sendAppendEntries (int j) args True reply n r2 = Inr r3"
      "server_inv ?C r3" "commitIndex r3 = ?i" "lastApplied r3 = lastApplied ?r" "entryAt r3 ?i = Inr ?e"
      "entryAt f' ?i = Inr ?e" "savedState ?C (persister f') = Inr (hardState f')" by auto
  have inv3: "kv_inv K (?w r3)" by (rule kv_inv_submitted[OF assms(2) c(5) idle(4)])
  from command_delivered[OF assms(1) inv3, of ?i ?e p ?a] obtain r4 ms kv2 where
    d: "applierRound r3 [] = Inr (r4, ms)" "readApplyCommandLoop K (length ms) ((?w r3)\<lparr>raftNode := r4, applyChan := ms\<rparr>) = Inr kv2"
      "kv_inv K kv2" "kvAbs kv2 = absApply p (kvAbs (?w r3))" "waitApplyCh kv2 ?i = Some ?a" "queues kv2 ?a = Some [p]"
    using assms(4) idle c(6-8) by auto
  have abs: "kvAbs (?w r3) = kvAbs kv" by (simp add: kvAbs_def)
  have "\<exists>kv3. (if isWrite p then putAppendImplEnd False p ?i ?a kv2 = Inr (Some ((OK, []), kv3))
     else getImplEnd False p ?i ?a kv2 = Inr (Some (readValue (Key p) (kvAbs kv), kv3))) \<and> fst (kvAbs kv3) = fst (kvAbs kv2)"
  proof (cases "isWrite p")
    case True
    then show ?thesis using put_answered[OF d(5,6)] by auto
  next
    case False
    then have "kvAbs kv2 = kvAbs kv" using d(4) abs by (simp add: absApply_def split: prod.split)
    then show ?thesis using False get_answered[OF kv_invD(1)[OF d(3)] d(5,6)] by (auto simp: readValue_def)
  qed
  then obtain kv3 where k3: "if isWrite p then putAppendImplEnd False p ?i ?a kv2 = Inr (Some ((OK, []), kv3))
     else getImplEnd False p ?i ?a kv2 = Inr (Some (readValue (Key p) (kvAbs kv), kv3))" "fst (kvAbs kv3) = fst (kvAbs kv2)" by blast
  have same: "raftNode (?w ?r1) = ?r1" "(?w ?r1)\<lparr>raftNode := r4, applyChan := ms\<rparr> = (?w r3)\<lparr>raftNode := r4, applyChan := ms\<rparr>"
    by simp_all
  have e: "\<exists>e. entryAt f' ?i = Inr e \<and> command e = opSer K p" using c(9) by simp
  show ?thesis
    by (rule exI[of _ ?i], rule exI[of _ ?a], rule exI[of _ "?w ?r1"], rule exI[of _ r2], rule exI[of _ sp], rule exI[of _ args],
        rule exI[of _ n], rule exI[of _ reply], rule exI[of _ f'], rule exI[of _ r3], rule exI[of _ r4], rule exI[of _ ms],
        rule exI[of _ kv2], rule exI[of _ kv3], unfold same, intro conjI)
      (rule st c(1-4,10) e d(1,2) d(4)[unfolded abs] k3)+
qed

definition sampleIdle :: kvserver where
  \<comment> \<open>the sample server after its one entry was applied\<close>
  "sampleIdle = sampleKv\<lparr>raftNode := sampleCommitted\<lparr>lastApplied := 1, nextIndex := [2, 2, 1]\<rparr>\<rparr>"

definition samplePeer :: raft where
  "samplePeer = (sampleServer 3 1)\<lparr>currentTerm := 2, logs := [\<lparr>command = ''x'', logterm = 2, logindex = 1\<rparr>]\<rparr>"

lemma sampleIdle_facts:
  "kv_inv sampleKvCodec sampleIdle" "idleLeader sampleIdle" "0 < levelBudget (skipList sampleIdle)"
  "caughtUp (raftNode sampleIdle) samplePeer"
proof -
  have last: "getLastLogIndex (raftNode sampleIdle) = 1"
    by (simp add: sampleIdle_def sampleCommitted_def sampleLeader_def getLastLogIndex_def getLastLogIndexAndTerm_def)
  have "server_inv sampleCodec (raftNode sampleIdle)"
    using sampleCommitted_inv last log_funs_cong(2,3)[of "raftNode sampleIdle" sampleCommitted]
    by (simp add: server_inv_def raft_inv_def sampleIdle_def)
      (simp add: sampleCommitted_def sampleLeader_def sampleServer_def log_wf_def)
  then show "kv_inv sampleKvCodec sampleIdle"
    using sampleKv_inv(1) by (simp add: kv_inv_def sampleIdle_def sampleKvCodec_def queues_ok_def)
  show "0 < levelBudget (skipList sampleIdle)" using sampleKv_inv(2) by (simp add: sampleIdle_def)
  show "idleLeader sampleIdle"
    unfolding idleLeader_def peersInLog_def last
    by (auto simp: sampleIdle_def sampleKv_def sampleCommitted_def sampleLeader_def sampleServer_def less_Suc_eq
        numeral_3_eq_3 numeral_2_eq_2)
  show "caughtUp (raftNode sampleIdle) samplePeer"
    unfolding caughtUp_def last
    by (simp add: samplePeer_def sampleServer_def raft_inv_def log_wf_def getLastLogIndex_def getLastLogIndexAndTerm_def
        newPersister_ok sampleIdle_def sampleCommitted_def sampleLeader_def termAt_def slot_def)
qed

theorem request_answered_witness:
  "\<exists>i a kv1 f' args reply kv2 kv3. implStart sampleKvCodec putA sampleIdle = (Inr (i, a), kv1) \<and>
     appendEntriesimpl sampleCodec 7 args samplePeer = Inr (reply, f') \<and>
     (\<exists>e. entryAt f' i = Inr e \<and> command e = opSer sampleKvCodec putA) \<and>
     putAppendImplEnd False putA i a kv2 = Inr (Some ((OK, []), kv3)) \<and> fst (kvAbs kv3) = [''k'' \<mapsto> ''a'']"
proof -
  have r: "npeers (raftNode sampleIdle) = 3" "raftId (raftNode sampleIdle) = 0" "nextIndex (raftNode sampleIdle) = [2, 2, 1]"
    "getLastLogIndex (raftNode sampleIdle) = 1" "raftCodec sampleKvCodec = sampleCodec"
    by (simp_all add: sampleIdle_def sampleCommitted_def sampleLeader_def sampleServer_def getLastLogIndex_def
        getLastLogIndexAndTerm_def sampleKvCodec_def)
  have w: "isWrite putA" by (simp add: isWrite_def)
  have abs: "fst (absApply putA (kvAbs sampleIdle)) = [''k'' \<mapsto> ''a'']"
    using sampleKv_abs by (simp add: kvAbs_def sampleIdle_def absApply_def isWrite_def seen_def absValue_def)
  obtain i a kv1 args reply f' kv2 kv3 where
    "implStart sampleKvCodec putA sampleIdle = (Inr (i, a), kv1)" "appendEntriesimpl sampleCodec 7 args samplePeer = Inr (reply, f')"
    "\<exists>e. entryAt f' i = Inr e \<and> command e = opSer sampleKvCodec putA"
    "kvAbs kv2 = absApply putA (kvAbs sampleIdle)"
    "putAppendImplEnd False putA i a kv2 = Inr (Some ((OK, []), kv3))" "fst (kvAbs kv3) = fst (kvAbs kv2)"
    using request_answered[OF sampleKvCodec_ok sampleIdle_facts(1-3) _ _ _ _ sampleIdle_facts(4), of 1 putA 5 7] w r
    by (auto simp: majority_def)
  then show ?thesis using abs by metis
qed

end
