(* ===== verification/RpcChannel.thy ===== *)
theory RpcChannel
  imports Prelude
begin

text \<open>
  Remote calls: the client's channel (\<^verbatim>\<open>src/rpc/mprpcchannel.cpp\<close>), the controller, and the server's
  dispatch (\<^verbatim>\<open>src/rpc/rpcprovider.cpp\<close>).  Protobuf is a record of parameters: the serializers of
  messages and the variable-length integers of its coded streams.  What the network answers to each
  system call is an argument.
\<close>

section \<open>The controller\<close>

record controller =
  failed :: bool
  errorMsg :: string

definition newController :: controller where
  "newController = \<lparr>failed = False, errorMsg = ''''\<rparr>"

definition resetController :: "controller \<Rightarrow> controller" where
  "resetController c = c\<lparr>failed := False, errorMsg := ''''\<rparr>"

definition setFailed :: "string \<Rightarrow> controller \<Rightarrow> controller" where
  "setFailed reason c = c\<lparr>failed := True, errorMsg := reason\<rparr>"

section \<open>Frames\<close>

record rpcHeader =
  service_name :: string
  method_name :: string
  args_size :: nat

text \<open>The library's part: \<open>readVarint32\<close> gives the number read, 0 when it cannot read one, and what is left.\<close>

record wire =
  writeVarint32 :: "nat \<Rightarrow> string"
  readVarint32 :: "string \<Rightarrow> nat \<times> string"
  encHeader :: "rpcHeader \<Rightarrow> string option"
  decHeader :: "string \<Rightarrow> rpcHeader option"

text \<open>What its documentation promises.\<close>

definition wire_ok :: "wire \<Rightarrow> bool" where
  "wire_ok w \<longleftrightarrow> (\<forall>n s. n < 2 ^ 32 \<longrightarrow> readVarint32 w (writeVarint32 w n @ s) = (n, s)) \<and>
     (\<forall>h s. encHeader w h = Some s \<longrightarrow> decHeader w s = Some h)"

text \<open>\<open>ReadString\<close>: false if there are too few bytes, and then what there was.\<close>

definition readString :: "nat \<Rightarrow> string \<Rightarrow> bool \<times> string \<times> string" where
  "readString n s = (n \<le> length s, take n s, drop n s)"

definition buildFrame :: "wire \<Rightarrow> string \<Rightarrow> string \<Rightarrow> string \<Rightarrow> string option" where
  \<comment> \<open>the bytes of a call; \<open>None\<close> when the header cannot be serialized\<close>
  "buildFrame w service method args_str =
     (case encHeader w \<lparr>service_name = service, method_name = method, args_size = length args_str mod 2 ^ 32\<rparr> of
        None \<Rightarrow> None
      | Some rpc_header_str \<Rightarrow>
          Some (writeVarint32 w (length rpc_header_str mod 2 ^ 32) @ rpc_header_str @ args_str))"

section \<open>The channel\<close>

record channel =
  sockfd :: int
  peerIp :: string
  peerPort :: nat

text \<open>One attempt to connect: the results of \<^verbatim>\<open>socket\<close> and \<^verbatim>\<open>connect\<close>, and the text of \<^verbatim>\<open>errno\<close>.\<close>

type_synonym attempt = "int \<times> int \<times> string"

definition newConnect :: "attempt \<Rightarrow> channel \<Rightarrow> bool \<times> string \<times> channel" where
  "newConnect a ch = (case a of (fd, r, err) \<Rightarrow>
     if fd < 0 then (False, ''create socket error: '' @ err, ch\<lparr>sockfd := -1\<rparr>)
     else if r < 0 then (False, ''connect error: '' @ err, ch\<lparr>sockfd := -1\<rparr>)
     else (True, '''', ch\<lparr>sockfd := fd\<rparr>))"

text \<open>The constructor: with \<open>connectNow\<close>, one attempt and up to three more.\<close>

fun retryConnect :: "nat \<Rightarrow> attempt list \<Rightarrow> channel \<Rightarrow> channel" where
  "retryConnect 0 as ch = ch"
| "retryConnect n [] ch = ch"
| "retryConnect (Suc n) (a # as) ch =
     (case newConnect a ch of (ok, _, ch1) \<Rightarrow> if ok then ch1 else retryConnect n as ch1)"

definition newChannel :: "string \<Rightarrow> nat \<Rightarrow> bool \<Rightarrow> attempt list \<Rightarrow> channel" where
  "newChannel ip port connectNow as =
     (let ch = \<lparr>sockfd = -1, peerIp = ip, peerPort = port\<rparr>
      in if \<not> connectNow then ch else retryConnect 4 as ch)"

text \<open>The loop that sends: after an error the connection is made anew.  An element is the result of a
  \<^verbatim>\<open>send\<close> and of the attempt that follows when it fails.\<close>

fun sendLoop :: "(int \<times> attempt) list \<Rightarrow> channel \<Rightarrow> (bool \<times> string \<times> channel) res" where
  "sendLoop [] ch = Inl NoReturn"
| "sendLoop ((n, a) # ss) ch =
     (if n < 0
      then (case newConnect a (ch\<lparr>sockfd := -1\<rparr>) of (ok, msg, ch1) \<Rightarrow>
              if \<not> ok then Inr (False, msg, ch1) else sendLoop ss ch1)
      else Inr (True, '''', ch))"

text \<open>\<open>CallMethod\<close>: \<open>args\<close> is the serialized request (\<open>None\<close>: that fails); \<open>avail\<close> the bytes that have come in
  when \<^verbatim>\<open>recv\<close> is called (\<open>None\<close>: it fails), of which it takes 1024; \<open>parse\<close> the parser of the response.
  The result is the response, the bytes sent, the controller and the channel.\<close>

record netAnswers =
  firstConnect :: attempt
  sends :: "(int \<times> attempt) list"
  received :: "string option"
  recvError :: string

definition callMethod :: "wire \<Rightarrow> string \<Rightarrow> string \<Rightarrow> string option \<Rightarrow> (string \<Rightarrow> 'p option) \<Rightarrow> netAnswers \<Rightarrow> controller \<Rightarrow> channel
    \<Rightarrow> ('p option \<times> string \<times> controller \<times> channel) res" where
  "callMethod w service method args parse net c ch =
     (case (if sockfd ch < 0 then newConnect (firstConnect net) ch else (True, '''', ch)) of (ok, msg, ch1) \<Rightarrow>
        if \<not> ok then Inr (None, '''', setFailed msg c, ch1)
        else case args of
          None \<Rightarrow> Inr (None, '''', setFailed ''serialize request error!'' c, ch1)
        | Some args_str \<Rightarrow> (case buildFrame w service method args_str of
            None \<Rightarrow> Inr (None, '''', setFailed ''serialize rpc header error!'' c, ch1)
          | Some send_rpc_str \<Rightarrow>
              andThen (sendLoop (sends net) ch1) (\<lambda>(ok, msg, ch2).
                if \<not> ok then Inr (None, '''', setFailed msg c, ch2)
                else case received net of
                  None \<Rightarrow> Inr (None, send_rpc_str, setFailed (''recv error: '' @ recvError net) c, ch2\<lparr>sockfd := -1\<rparr>)
                | Some avail \<Rightarrow> (case parse (take 1024 avail) of
                    None \<Rightarrow> Inr (None, send_rpc_str, setFailed ''parse response error'' c, ch2)
                  | Some resp \<Rightarrow> Inr (Some resp, send_rpc_str, c, ch2)))))"

text \<open>The wrappers of \<^verbatim>\<open>raftRpcUtil.cpp\<close> and \<^verbatim>\<open>raftServerRpcUtil.cpp\<close>: a new controller for every call.\<close>

definition utilCall :: "wire \<Rightarrow> string \<Rightarrow> string \<Rightarrow> string option \<Rightarrow> (string \<Rightarrow> 'p option) \<Rightarrow> netAnswers \<Rightarrow> channel
    \<Rightarrow> (bool \<times> 'p option \<times> string \<times> channel) res" where
  "utilCall w service method args parse net ch =
     andThen (callMethod w service method args parse net newController ch) (\<lambda>(resp, sent, c, ch1).
       Inr (\<not> failed c, resp, sent, ch1))"

definition kvUtilCall :: "wire \<Rightarrow> string \<Rightarrow> string option \<Rightarrow> (string \<Rightarrow> 'p option) \<Rightarrow> netAnswers \<Rightarrow> channel
    \<Rightarrow> (bool \<times> 'p option \<times> string \<times> channel) res" where
  "kvUtilCall w method args parse net ch = utilCall w ''kvServerRpc'' method args parse net ch"

section \<open>The provider\<close>

record ('q, 'p) rpcMethod =
  methodName :: string
  parseReq :: "string \<Rightarrow> 'q option"
  serResp :: "'p \<Rightarrow> string option"
  handle :: "'q \<Rightarrow> 'p"

record ('q, 'p) rpcService =
  svcName :: string
  svcMethods :: "('q, 'p) rpcMethod list"

type_synonym ('q, 'p) serviceMap = "string \<rightharpoonup> (string \<rightharpoonup> ('q, 'p) rpcMethod)"

definition insertNew :: "'k \<Rightarrow> 'v \<Rightarrow> ('k \<rightharpoonup> 'v) \<Rightarrow> ('k \<rightharpoonup> 'v)" where
  \<comment> \<open>\<^verbatim>\<open>unordered_map::insert\<close> keeps what is there\<close>
  "insertNew k v m = (if m k = None then m(k \<mapsto> v) else m)"

definition registerMethods :: "('q, 'p) rpcMethod list \<Rightarrow> (string \<rightharpoonup> ('q, 'p) rpcMethod) \<Rightarrow> (string \<rightharpoonup> ('q, 'p) rpcMethod)" where
  "registerMethods mts m = fold (\<lambda>mt. insertNew (methodName mt) mt) mts m"

definition notifyService :: "('q, 'p) rpcService \<Rightarrow> ('q, 'p) serviceMap \<Rightarrow> ('q, 'p) serviceMap" where
  "notifyService s sm =
     insertNew (svcName s) (registerMethods (svcMethods s) Map.empty) sm"

text \<open>\<open>OnMessage\<close> on everything that is in the buffer: the method and the request it is called with.  Whether
  the size and the header could be read is not tested.\<close>

definition onMessage :: "wire \<Rightarrow> ('q, 'p) serviceMap \<Rightarrow> string \<Rightarrow> (('q, 'p) rpcMethod \<times> 'q) option" where
  "onMessage w sm recvBuf =
     (case readVarint32 w recvBuf of (headerSize, s1) \<Rightarrow>
      case readString headerSize s1 of (_, headerStr, s2) \<Rightarrow>
      case decHeader w headerStr of
        None \<Rightarrow> None
      | Some h \<Rightarrow>
          (case readString (args_size h) s2 of (ok, argsStr, _) \<Rightarrow>
             if \<not> ok then None
             else case sm (service_name h) of
               None \<Rightarrow> None
             | Some methods \<Rightarrow> (case methods (method_name h) of
                 None \<Rightarrow> None
               | Some mt \<Rightarrow> (case parseReq mt argsStr of None \<Rightarrow> None | Some req \<Rightarrow> Some (mt, req)))))"

text \<open>The closure behind the method: the bytes it sends.\<close>

definition sendRpcResponse :: "('q, 'p) rpcMethod \<Rightarrow> 'p \<Rightarrow> string" where
  "sendRpcResponse mt resp = (case serResp mt resp of None \<Rightarrow> '''' | Some respStr \<Rightarrow> respStr)"

definition serve :: "wire \<Rightarrow> ('q, 'p) serviceMap \<Rightarrow> string \<Rightarrow> string" where
  \<comment> \<open>the answer to a buffer, for methods that run their closure at once\<close>
  "serve w sm recvBuf = (case onMessage w sm recvBuf of None \<Rightarrow> '''' | Some (mt, req) \<Rightarrow> sendRpcResponse mt (handle mt req))"

end
