(* ===== verification/Services.thy ===== *)
theory Services
  imports KvCorrect RpcChannel
begin

text \<open>
  The methods the remote-call framework finds by name: those of \<^verbatim>\<open>Raft\<close> (\<^verbatim>\<open>raftCore/raft.cpp\<close>) and of
  \<^verbatim>\<open>KvServer\<close> (\<^verbatim>\<open>raftCore/KvServer.cpp\<close>).  Each fills the response and runs the closure the provider made, which
  serializes it and sends it: \<open>done\<close> stands for that closure, and its result for the bytes sent.
\<close>

definition runClosure :: "('p \<Rightarrow> string) \<Rightarrow> ('p \<times> 's) res \<Rightarrow> (string \<times> 's) res" where
  "runClosure done m = andThen m (\<lambda>(response, s). Inr (done response, s))"

definition AppendEntries :: "codec \<Rightarrow> int \<Rightarrow> appendEntriesArgs \<Rightarrow> (appendEntriesReply \<Rightarrow> string) \<Rightarrow> raft \<Rightarrow> (string \<times> raft) res" where
  "AppendEntries C now request done r = runClosure done (appendEntriesimpl C now request r)"

definition InstallSnapshot :: "codec \<Rightarrow> int \<Rightarrow> installSnapshotRequest \<Rightarrow> (installSnapshotResponse \<Rightarrow> string) \<Rightarrow> raft
    \<Rightarrow> (string \<times> raft \<times> spawn list) res" where
  "InstallSnapshot C now request done r = runClosure done (installSnapshotImpl C now request r)"

definition RequestVote :: "codec \<Rightarrow> int \<Rightarrow> requestVoteArgs \<Rightarrow> (requestVoteReply \<Rightarrow> string) \<Rightarrow> raft \<Rightarrow> (string \<times> raft) res" where
  "RequestVote C now request done r = runClosure done (Inr (requestVoteImpl C now request r))"

text \<open>A thread that a snapshot started hands its message to the server's queue.\<close>

definition pushMsgToKvServer :: "applyMsg \<Rightarrow> kvserver \<Rightarrow> kvserver" where
  "pushMsgToKvServer msg kv = kv\<lparr>applyChan := lqPush msg (applyChan kv)\<rparr>"

text \<open>The methods of the server wait in their handlers; these are their ends, when a handler comes back, and the ends of
  those that a server that does not lead answers at once.\<close>

definition PutAppend :: "bool \<Rightarrow> op \<Rightarrow> int \<Rightarrow> nat \<Rightarrow> (reply \<Rightarrow> string) \<Rightarrow> kvserver \<Rightarrow> (string \<times> kvserver) option res" where
  "PutAppend expired p i a done kv =
     andThen (putAppendImplEnd expired p i a kv) (\<lambda>w. case w of
       None \<Rightarrow> Inr None | Some x \<Rightarrow> andThen (runClosure done (Inr x)) (\<lambda>y. Inr (Some y)))"

definition Get :: "bool \<Rightarrow> op \<Rightarrow> int \<Rightarrow> nat \<Rightarrow> (reply \<Rightarrow> string) \<Rightarrow> kvserver \<Rightarrow> (string \<times> kvserver) option res" where
  "Get expired p i a done kv =
     andThen (getImplEnd expired p i a kv) (\<lambda>w. case w of
       None \<Rightarrow> Inr None | Some x \<Rightarrow> andThen (runClosure done (Inr x)) (\<lambda>y. Inr (Some y)))"

definition answerAtOnce :: "kvcodec \<Rightarrow> op \<Rightarrow> (reply \<Rightarrow> string) \<Rightarrow> kvserver \<Rightarrow> (string + int \<times> nat) \<times> kvserver" where
  "answerAtOnce K p done kv = (case implStart K p kv of
     (Inl rep, kv1) \<Rightarrow> (Inl (done rep), kv1) | (Inr w, kv1) \<Rightarrow> (Inr w, kv1))"

section \<open>What is sent\<close>

lemma runClosure_Inr: "runClosure done m = Inr (bytes, s) \<longleftrightarrow> (\<exists>response. m = Inr (response, s) \<and> bytes = done response)"
  by (auto simp: runClosure_def andThen_eq_Inr)

text \<open>A vote leaves the server only behind its persisted state: the bytes are those of the handler's reply, and the state
  is the handler's.\<close>

lemma RequestVote_sends:
  "RequestVote C now request done r = Inr (done (fst (requestVoteImpl C now request r)), snd (requestVoteImpl C now request r))"
  by (simp add: RequestVote_def runClosure_def split: prod.split)

lemma AppendEntries_sends:
  "returns (AppendEntries C now request done r) = returns (appendEntriesimpl C now request r)"
  by (auto simp: AppendEntries_def runClosure_def returns_iff andThen_eq_Inr)

text \<open>A server that does not lead answers at once, with the error that makes the client go on, and its log stays.\<close>

lemma refuses_at_once:
  assumes "status (raftNode kv) \<noteq> Leader"
  shows "answerAtOnce K p done kv = (Inl (done (ErrWrongLeader, [])), kv)"
  using assms by (cases kv) (simp add: answerAtOnce_def implStart_def submitOp_def start_def)

lemma pushMsg_frame:
  "raftNode (pushMsgToKvServer msg kv) = raftNode kv" "kvAbs (pushMsgToKvServer msg kv) = kvAbs kv"
  "applyChan (pushMsgToKvServer msg kv) = applyChan kv @ [msg]"
  by (simp_all add: pushMsgToKvServer_def kvAbs_def lqPush_def)

end
