(* ===== verification/Timer.thy ===== *)
theory Timer
  imports Prelude "HOL-Library.Word"
begin

text \<open>
  The timers of \<^verbatim>\<open>src/fiber/timer.cpp\<close>.  Timer objects live in a store addressed by pointers; the
  manager keeps the pointers of the waiting timers in a \<^verbatim>\<open>std::set\<close> ordered by the time of the
  next run and, for equal times, by address.  Times are 64 bit words, the clock
  (\<^verbatim>\<open>GetElapsedMS\<close>) is an argument, and so is the address a new object gets.
\<close>

section \<open>Objects and their order\<close>

record 'c timer =
  isRepeat :: bool
  periodMs :: "64 word"
  nextRun :: "64 word"
  timerCb :: "'c option" \<comment> \<open>an empty \<^verbatim>\<open>std::function\<close> is \<open>None\<close>\<close>

record 'c timerManager =
  timerObjs :: "nat \<rightharpoonup> 'c timer"
  timers :: "nat list" \<comment> \<open>the set, in its order\<close>
  tickled :: bool
  previousTime :: "64 word"

text \<open>The order of \<open>Timer::Comparator\<close> on objects.\<close>

datatype timerKey = TimerKey (keyTime: "64 word") (keyAddr: nat)

instantiation timerKey :: linorder
begin

definition less_timerKey :: "timerKey \<Rightarrow> timerKey \<Rightarrow> bool" where
  "less_timerKey a b \<longleftrightarrow> (if keyTime a = keyTime b then keyAddr a < keyAddr b else keyTime a < keyTime b)"

definition less_eq_timerKey :: "timerKey \<Rightarrow> timerKey \<Rightarrow> bool" where
  "less_eq_timerKey a b \<longleftrightarrow> a < b \<or> a = b"

lemma timerKey_eq: "a = b \<longleftrightarrow> keyTime a = keyTime b \<and> keyAddr a = keyAddr b"
  by (cases a; cases b) simp

instance
  by standard (auto simp: less_timerKey_def less_eq_timerKey_def timerKey_eq split: if_splits)

end

definition timerKeyOf :: "(nat \<rightharpoonup> 'c timer) \<Rightarrow> nat \<Rightarrow> timerKey" where
  "timerKeyOf objs p = TimerKey (case objs p of None \<Rightarrow> 0 | Some t \<Rightarrow> nextRun t) p"

text \<open>The comparator on pointers, with the null pointer first.\<close>

definition timerComparator :: "(nat \<rightharpoonup> 'c timer) \<Rightarrow> nat option \<Rightarrow> nat option \<Rightarrow> bool" where
  "timerComparator objs lhs rhs =
     (case (lhs, rhs) of
        (None, None) \<Rightarrow> False
      | (None, Some _) \<Rightarrow> True
      | (Some _, None) \<Rightarrow> False
      | (Some p, Some q) \<Rightarrow>
          (if keyTime (timerKeyOf objs p) = keyTime (timerKeyOf objs q) then p < q
           else keyTime (timerKeyOf objs p) < keyTime (timerKeyOf objs q)))"

lemma timerComparator_key:
  "timerComparator objs (Some p) (Some q) \<longleftrightarrow> timerKeyOf objs p < timerKeyOf objs q"
  by (simp add: timerComparator_def less_timerKey_def timerKeyOf_def)

text \<open>\<open>insert\<close> and \<open>find\<close> of the set: elements neither of which is less than the other are the same.\<close>

definition setInsert :: "(nat \<rightharpoonup> 'c timer) \<Rightarrow> nat \<Rightarrow> nat list \<Rightarrow> nat list" where
  "setInsert objs p ts = insort_insert_key (timerKeyOf objs) p ts"

definition setFind :: "(nat \<rightharpoonup> 'c timer) \<Rightarrow> nat \<Rightarrow> nat list \<Rightarrow> nat option" where
  "setFind objs p ts = List.find (\<lambda>q. \<not> timerComparator objs (Some p) (Some q) \<and>
     \<not> timerComparator objs (Some q) (Some p)) ts"

section \<open>The manager\<close>

definition newTimerManager :: "64 word \<Rightarrow> 'c timerManager" where
  "newTimerManager now = \<lparr>timerObjs = Map.empty, timers = [], tickled = False, previousTime = now\<rparr>"

definition insertTimer :: "nat \<Rightarrow> 'c timerManager \<Rightarrow> bool \<times> 'c timerManager" where
  \<comment> \<open>\<open>addTimer(TimerPtr, WriteLock&)\<close>; the flag says that \<open>OnTimerInsertedAtFront\<close> is called\<close>
  "insertTimer p m =
     (let ts = setInsert (timerObjs m) p (timers m);
          at_front = (ts \<noteq> [] \<and> hd ts = p) \<and> \<not> tickled m
      in (at_front, m\<lparr>timers := ts, tickled := (if at_front then True else tickled m)\<rparr>))"

definition addTimer ::
  "nat \<Rightarrow> 64 word \<Rightarrow> 64 word \<Rightarrow> 'c \<Rightarrow> bool \<Rightarrow> 'c timerManager \<Rightarrow> bool \<times> 'c timerManager" where
  "addTimer p now ms cb is_repeat m =
     insertTimer p (m\<lparr>timerObjs := (timerObjs m)(p \<mapsto>
       \<lparr>isRepeat = is_repeat, periodMs = ms, nextRun = now + ms, timerCb = Some cb\<rparr>)\<rparr>)"

text \<open>A conditional timer calls \<open>cb\<close> only while the object it watches is alive.\<close>

definition onTimer :: "('w \<Rightarrow> bool) \<Rightarrow> 'w \<Rightarrow> 'c \<Rightarrow> 'c option" where
  "onTimer alive weak_cond cb = (if alive weak_cond then Some cb else None)"

definition getNextTimer :: "64 word \<Rightarrow> 'c timerManager \<Rightarrow> (64 word \<times> 'c timerManager) res" where
  "getNextTimer now m =
     (let m1 = m\<lparr>tickled := False\<rparr> in
      case timers m1 of
        [] \<Rightarrow> Inr (- 1, m1)
      | p # _ \<Rightarrow> andThen (derefOpt (timerObjs m1 p)) (\<lambda>t.
          Inr (if now \<ge> nextRun t then 0 else nextRun t - now, m1)))"

definition hasTimer :: "'c timerManager \<Rightarrow> bool" where
  "hasTimer m \<longleftrightarrow> timers m \<noteq> []"

definition detectClockRollover :: "64 word \<Rightarrow> 'c timerManager \<Rightarrow> bool \<times> 'c timerManager" where
  "detectClockRollover now_ms m =
     (if now_ms < previousTime m \<and> now_ms < previousTime m - 60 * 60 * 1000 then (True, m)
      else (False, m\<lparr>previousTime := now_ms\<rparr>))"

text \<open>The loop over the expired timers: collect the callback, put a repeating timer back with its new
  time, empty the callback of any other.\<close>

fun fireAll :: "64 word \<Rightarrow> nat list \<Rightarrow> 'c timerManager \<Rightarrow> ('c option list \<times> 'c timerManager) res" where
  "fireAll now_ms [] m = Inr ([], m)"
| "fireAll now_ms (p # ps) m =
     andThen (derefOpt (timerObjs m p)) (\<lambda>t.
     let m1 = (if isRepeat t
               then let objs = (timerObjs m)(p \<mapsto> t\<lparr>nextRun := now_ms + periodMs t\<rparr>)
                    in m\<lparr>timerObjs := objs, timers := setInsert objs p (timers m)\<rparr>
               else m\<lparr>timerObjs := (timerObjs m)(p \<mapsto> t\<lparr>timerCb := None\<rparr>)\<rparr>)
     in andThen (fireAll now_ms ps m1) (\<lambda>(cbs, m2). Inr (timerCb t # cbs, m2)))"

definition nextOf :: "(nat \<rightharpoonup> 'c timer) \<Rightarrow> nat \<Rightarrow> 64 word" where
  "nextOf objs p = keyTime (timerKeyOf objs p)"

text \<open>\<open>q\<close> is the address of \<open>now_timer\<close>, the object that only carries the time for \<open>lower_bound\<close>.\<close>

definition expiredPrefix :: "(nat \<rightharpoonup> 'c timer) \<Rightarrow> 64 word \<Rightarrow> nat \<Rightarrow> bool \<Rightarrow> nat list \<Rightarrow> nat list \<times> nat list" where
  "expiredPrefix objs now_ms q isRollover ts =
     (let before = (if isRollover then ts else takeWhile (\<lambda>p. timerKeyOf objs p < TimerKey now_ms q) ts);
          after = drop (length before) ts;
          more = takeWhile (\<lambda>p. nextOf objs p \<le> now_ms) after
      in (before @ more, drop (length more) after))"

definition listExpiredCb :: "64 word \<Rightarrow> nat \<Rightarrow> 'c timerManager \<Rightarrow> ('c option list \<times> 'c timerManager) res" where
  "listExpiredCb now_ms q m =
     (case timers m of
        [] \<Rightarrow> Inr ([], m)
      | p # _ \<Rightarrow>
          (case detectClockRollover now_ms m of (isRollover, m1) \<Rightarrow>
             if \<not> isRollover \<and> nextOf (timerObjs m1) p > now_ms then Inr ([], m1)
             else case expiredPrefix (timerObjs m1) now_ms q isRollover (timers m1) of
                    (expireds, left) \<Rightarrow> fireAll now_ms expireds (m1\<lparr>timers := left\<rparr>)))"

section \<open>Operations of a timer\<close>

definition timerCancel :: "nat \<Rightarrow> 'c timerManager \<Rightarrow> (bool \<times> 'c timerManager) res" where
  "timerCancel p m =
     andThen (derefOpt (timerObjs m p)) (\<lambda>t.
       if timerCb t = None then Inr (False, m)
       else let m1 = m\<lparr>timerObjs := (timerObjs m)(p \<mapsto> t\<lparr>timerCb := None\<rparr>)\<rparr>
            in case setFind (timerObjs m1) p (timers m1) of
                 None \<Rightarrow> Inr (False, m1)
               | Some q \<Rightarrow> Inr (True, m1\<lparr>timers := remove1 q (timers m1)\<rparr>))"

definition timerRefresh :: "64 word \<Rightarrow> nat \<Rightarrow> 'c timerManager \<Rightarrow> (bool \<times> 'c timerManager) res" where
  "timerRefresh now p m =
     andThen (derefOpt (timerObjs m p)) (\<lambda>t.
       if timerCb t = None then Inr (False, m)
       else case setFind (timerObjs m) p (timers m) of
              None \<Rightarrow> Inr (False, m)
            | Some q \<Rightarrow>
                let objs = (timerObjs m)(p \<mapsto> t\<lparr>nextRun := now + periodMs t\<rparr>)
                in Inr (True, m\<lparr>timerObjs := objs, timers := setInsert objs p (remove1 q (timers m))\<rparr>))"

definition timerReset ::
  "64 word \<Rightarrow> 64 word \<Rightarrow> bool \<Rightarrow> nat \<Rightarrow> 'c timerManager \<Rightarrow> (bool \<times> bool \<times> 'c timerManager) res" where
  \<comment> \<open>result, whether \<open>OnTimerInsertedAtFront\<close> is called, manager\<close>
  "timerReset now ms from_now p m =
     andThen (derefOpt (timerObjs m p)) (\<lambda>t.
       if ms = periodMs t \<and> \<not> from_now then Inr (True, False, m)
       else if timerCb t = None then Inr (False, False, m)
       else case setFind (timerObjs m) p (timers m) of
              None \<Rightarrow> Inr (False, False, m)
            | Some q \<Rightarrow>
                let start_tm = (if from_now then now else nextRun t - periodMs t);
                    objs = (timerObjs m)(p \<mapsto> t\<lparr>periodMs := ms, nextRun := start_tm + ms\<rparr>);
                    (at_front, m1) = insertTimer p (m\<lparr>timerObjs := objs, timers := remove1 q (timers m)\<rparr>)
                in Inr (True, at_front, m1))"

end
