(* ===== verification/TimerTheorems.thy ===== *)
theory TimerTheorems
  imports Timer
begin

text \<open>
  The timer set stays in order under every operation, \<open>listExpiredCb\<close> delivers exactly the timers whose
  time has come, and what its test for a clock that ran back does with unsigned times.
\<close>

section \<open>The set in order\<close>

definition tm_wf :: "'c timerManager \<Rightarrow> bool" where
  "tm_wf m \<longleftrightarrow> sorted (map (timerKeyOf (timerObjs m)) (timers m)) \<and> distinct (timers m) \<and>
     (\<forall>p\<in>set (timers m). \<exists>t. timerObjs m p = Some t \<and> timerCb t \<noteq> None)"

lemma tm_wfD:
  assumes "tm_wf m"
  shows "sorted (map (timerKeyOf (timerObjs m)) (timers m))" and "distinct (timers m)"
    and "p \<in> set (timers m) \<Longrightarrow> \<exists>t. timerObjs m p = Some t \<and> timerCb t \<noteq> None"
  using assms by (auto simp: tm_wf_def)

lemma timerKeyOf_inject: "timerKeyOf objs p = timerKeyOf objs q \<longleftrightarrow> p = q"
  by (auto simp: timerKeyOf_def)

lemma timerKeyOf_in: "timerKeyOf objs p \<in> timerKeyOf objs ` set ts \<longleftrightarrow> p \<in> set ts"
  by (auto simp: timerKeyOf_inject)

lemma setInsert_facts:
  "p \<notin> set ts \<Longrightarrow> distinct ts \<Longrightarrow> distinct (setInsert objs p ts)"
  "set (setInsert objs p ts) = insert p (set ts)"
  "sorted (map (timerKeyOf objs) (setInsert objs p ts)) = sorted (map (timerKeyOf objs) ts)"
  unfolding setInsert_def insort_insert_key_def timerKeyOf_in
  by (auto simp: set_insort_key distinct_insort sorted_insort_key)

lemma setFind_iff: "setFind objs p ts = (if p \<in> set ts then Some p else None)"
proof -
  have "setFind objs p ts = List.find (\<lambda>q. q = p) ts"
    unfolding setFind_def timerComparator_key
    by (rule arg_cong[where f="\<lambda>P. List.find P ts"]) (auto simp: not_less fun_eq_iff dest: antisym simp: timerKeyOf_inject)
  also have "\<dots> = (if p \<in> set ts then Some p else None)" by (induction ts) auto
  finally show ?thesis .
qed

lemma timerKeyOf_other: "p \<noteq> q \<Longrightarrow> timerKeyOf (objs(p \<mapsto> t)) q = timerKeyOf objs q"
  by (simp add: timerKeyOf_def)

lemma map_key_other: "p \<notin> set ts \<Longrightarrow> map (timerKeyOf (objs(p \<mapsto> t))) ts = map (timerKeyOf objs) ts"
  by (rule map_cong) (auto simp: timerKeyOf_def)

lemma sorted_remove1_key: "sorted (map f ts) \<Longrightarrow> sorted (map f (remove1 p ts))"
  by (induction ts) (auto simp: notin_set_remove1)

text \<open>An object changed while it is outside the set, and put back: the shape of every operation.\<close>

lemma tm_wf_replace:
  assumes "tm_wf m" and "timerCb t \<noteq> None"
  shows "tm_wf (m\<lparr>timerObjs := (timerObjs m)(p \<mapsto> t),
    timers := setInsert ((timerObjs m)(p \<mapsto> t)) p (remove1 p (timers m))\<rparr>)"
proof -
  let ?ts = "remove1 p (timers m)" and ?objs = "(timerObjs m)(p \<mapsto> t)"
  have ts: "distinct ?ts" "p \<notin> set ?ts" "set ?ts = set (timers m) - {p}"
    using tm_wfD(2)[OF assms(1)] by (auto simp: distinct_remove1 set_remove1_eq)
  have "sorted (map (timerKeyOf ?objs) ?ts)"
    unfolding map_key_other[OF ts(2)] by (rule sorted_remove1_key[OF tm_wfD(1)[OF assms(1)]])
  then show ?thesis
    using ts tm_wfD(3)[OF assms(1)] assms(2) by (auto simp: tm_wf_def setInsert_facts)
qed

lemma tm_wf_drop:
  assumes "tm_wf m"
  shows "tm_wf (m\<lparr>timerObjs := (timerObjs m)(p \<mapsto> t), timers := remove1 p (timers m)\<rparr>)"
proof -
  have ts: "distinct (remove1 p (timers m))" "p \<notin> set (remove1 p (timers m))"
    using tm_wfD(2)[OF assms] by (auto simp: distinct_remove1)
  show ?thesis
    using ts tm_wfD[OF assms] sorted_remove1_key[OF tm_wfD(1)[OF assms], of p] notin_set_remove1
    by (auto simp: tm_wf_def map_key_other[OF ts(2)])
qed

lemma tm_wf_fields: "tm_wf (m\<lparr>tickled := b, previousTime := x\<rparr>) = tm_wf m" "tm_wf (m\<lparr>tickled := b\<rparr>) = tm_wf m"
  "tm_wf (m\<lparr>previousTime := x\<rparr>) = tm_wf m"
  by (simp_all add: tm_wf_def)

section \<open>Which timers fire\<close>

lemma takeWhile_down:
  assumes "sorted (map f xs)" and "\<And>x y. f x \<le> f y \<Longrightarrow> P y \<Longrightarrow> P x"
  shows "takeWhile P xs = filter P xs" and "dropWhile P xs = filter (\<lambda>x. \<not> P x) xs"
  using assms(1)
proof (induction xs)
  case (Cons x xs)
  { case 1
    have "filter P xs = []" if "\<not> P x"
      using that 1 assms(2) by (auto simp: filter_empty_conv)
    with Cons(1) 1 show ?case by auto }
  { case 2
    have "filter (\<lambda>x. \<not> P x) xs = xs" if "\<not> P x"
      using that 2 assms(2) by (auto simp: filter_id_conv)
    with Cons(2) 2 show ?case by auto }
qed simp_all

lemma takeWhile_two_steps:
  assumes "\<And>x. Q x \<Longrightarrow> P x"
  shows "takeWhile Q xs @ takeWhile P (dropWhile Q xs) = takeWhile P xs"
    and "dropWhile P (dropWhile Q xs) = dropWhile P xs"
  using assms by (induction xs) auto

lemma nextOf_mono: "timerKeyOf objs p \<le> timerKeyOf objs q \<Longrightarrow> nextOf objs p \<le> nextOf objs q"
  by (auto simp: nextOf_def less_eq_timerKey_def less_timerKey_def split: if_splits)

lemma expiredPrefix_filter:
  assumes "sorted (map (timerKeyOf objs) ts)"
  shows "expiredPrefix objs now q b ts =
    (filter (\<lambda>p. b \<or> nextOf objs p \<le> now) ts, filter (\<lambda>p. \<not> b \<and> now < nextOf objs p) ts)"
proof (cases b)
  case True
  then show ?thesis by (simp add: expiredPrefix_def)
next
  case False
  let ?Q = "\<lambda>p. timerKeyOf objs p < TimerKey now q" and ?P = "\<lambda>p. nextOf objs p \<le> now"
  have "?P p" if "?Q p" for p using that by (auto simp: nextOf_def less_timerKey_def split: if_splits)
  then have two: "takeWhile ?Q ts @ takeWhile ?P (dropWhile ?Q ts) = takeWhile ?P ts"
    "dropWhile ?P (dropWhile ?Q ts) = dropWhile ?P ts"
    using takeWhile_two_steps[of ?Q ?P ts] by auto
  have "takeWhile ?P ts = filter ?P ts" "dropWhile ?P ts = filter (\<lambda>p. \<not> ?P p) ts"
    using takeWhile_down[OF assms, of ?P] nextOf_mono[of objs] by (meson order_trans)+
  with two show ?thesis using False by (simp add: expiredPrefix_def dropWhile_eq_drop[symmetric] not_le)
qed

text \<open>What firing does to the object of a timer.\<close>

definition fired :: "64 word \<Rightarrow> 'c timer \<Rightarrow> 'c timer" where
  "fired now t = (if isRepeat t then t\<lparr>nextRun := now + periodMs t\<rparr> else t\<lparr>timerCb := None\<rparr>)"

lemma fireAll_ok:
  assumes "tm_wf m" and "distinct ps" and "set ps \<inter> set (timers m) = {}"
    and "\<And>p. p \<in> set ps \<Longrightarrow> \<exists>t. timerObjs m p = Some t \<and> timerCb t \<noteq> None"
  shows "\<exists>m'. fireAll now ps m = Inr (map (\<lambda>p. timerCb (the (timerObjs m p))) ps, m') \<and> tm_wf m' \<and>
    set (timers m') = set (timers m) \<union> {p\<in>set ps. isRepeat (the (timerObjs m p))} \<and>
    timerObjs m' = (\<lambda>p. if p \<in> set ps then map_option (fired now) (timerObjs m p) else timerObjs m p)"
  using assms
proof (induction ps arbitrary: m)
  case Nil
  then show ?case by auto
next
  case (Cons p ps)
  from Cons.prems(4)[of p] obtain t where t: "timerObjs m p = Some t" "timerCb t \<noteq> None" by auto
  have out: "p \<notin> set (timers m)" "remove1 p (timers m) = timers m"
    using Cons.prems(3) by (auto simp: remove1_idem)
  define objs where "objs = (timerObjs m)(p \<mapsto> fired now t)"
  define m1 where "m1 = m\<lparr>timerObjs := objs,
      timers := (if isRepeat t then setInsert objs p (timers m) else timers m)\<rparr>"
  have wf1: "tm_wf m1"
  proof (cases "isRepeat t")
    case True
    then have "timerCb (fired now t) \<noteq> None" using t(2) by (simp add: fired_def)
    from tm_wf_replace[OF Cons.prems(1) this, of p] True out show ?thesis by (simp add: m1_def objs_def)
  next
    case False
    with tm_wf_drop[OF Cons.prems(1), of p "fired now t"] out show ?thesis by (simp add: m1_def objs_def)
  qed
  have same: "timerObjs m1 x = timerObjs m x" if "x \<in> set ps" for x
    using that Cons.prems(2) by (auto simp: m1_def objs_def)
  have set1: "set (timers m1) = set (timers m) \<union> (if isRepeat t then {p} else {})"
    by (simp add: m1_def setInsert_facts)
  have disj: "set ps \<inter> set (timers m1) = {}" using Cons.prems(2,3) set1 by auto
  have live: "\<exists>t. timerObjs m1 x = Some t \<and> timerCb t \<noteq> None" if "x \<in> set ps" for x
    using Cons.prems(4)[of x] that same[OF that] by simp
  have dps: "distinct ps" using Cons.prems(2) by simp
  from Cons.IH[OF wf1 dps disj live] obtain m' where
    m': "fireAll now ps m1 = Inr (map (\<lambda>p. timerCb (the (timerObjs m1 p))) ps, m')" "tm_wf m'"
      "set (timers m') = set (timers m1) \<union> {p \<in> set ps. isRepeat (the (timerObjs m1 p))}"
      "timerObjs m' = (\<lambda>p. if p \<in> set ps then map_option (fired now) (timerObjs m1 p) else timerObjs m1 p)"
    by blast
  have step: "(if isRepeat t then m\<lparr>timerObjs := objs, timers := setInsert objs p (timers m)\<rparr>
      else m\<lparr>timerObjs := objs\<rparr>) = m1" by (simp add: m1_def)
  have "fireAll now (p # ps) m = Inr (timerCb t # map (\<lambda>p. timerCb (the (timerObjs m p))) ps, m')"
    using m'(1) step same by (auto simp: t(1) objs_def fired_def Let_def)
  moreover have "{x \<in> set ps. isRepeat (the (timerObjs m1 x))} = {x \<in> set ps. isRepeat (the (timerObjs m x))}"
    using same by auto
  moreover have "timerObjs m' = (\<lambda>x. if x \<in> set (p # ps) then map_option (fired now) (timerObjs m x) else timerObjs m x)"
    using m'(4) same Cons.prems(2) t(1) by (auto simp: m1_def objs_def fun_eq_iff)
  ultimately show ?case using m'(2,3) set1 t(1) by (intro exI[of _ m']) auto
qed

lemma detectClockRollover_facts:
  assumes "detectClockRollover now m = (b, m1)"
  shows "timers m1 = timers m" "timerObjs m1 = timerObjs m" "tm_wf m1 = tm_wf m"
    "b \<longleftrightarrow> now < previousTime m \<and> now < previousTime m - 3600000"
  using assms by (auto simp: detectClockRollover_def tm_wf_fields split: if_splits)

text \<open>The reference: the timers due at \<open>now\<close>, all of them if the clock ran back.\<close>

definition dueTimers :: "64 word \<Rightarrow> 'c timerManager \<Rightarrow> nat list" where
  "dueTimers now m = filter (\<lambda>p. fst (detectClockRollover now m) \<or> nextOf (timerObjs m) p \<le> now) (timers m)"

lemma listExpired_ok:
  assumes "tm_wf m"
  shows "\<exists>m'. listExpiredCb now q m = Inr (map (\<lambda>p. timerCb (the (timerObjs m p))) (dueTimers now m), m') \<and>
    tm_wf m' \<and> set (timers m') = (set (timers m) - set (dueTimers now m)) \<union>
      {p\<in>set (dueTimers now m). isRepeat (the (timerObjs m p))} \<and>
    timerObjs m' = (\<lambda>p. if p \<in> set (dueTimers now m) then map_option (fired now) (timerObjs m p) else timerObjs m p)"
proof (cases "timers m")
  case Nil
  then show ?thesis using assms(1) by (auto simp: listExpiredCb_def dueTimers_def)
next
  case (Cons p ps)
  obtain b m1 where d: "detectClockRollover now m = (b, m1)" by (metis prod.collapse)
  define exp where "exp = dueTimers now m"
  have exp_eq: "exp = filter (\<lambda>p. b \<or> nextOf (timerObjs m) p \<le> now) (timers m)"
    by (simp add: exp_def dueTimers_def d)
  note f = detectClockRollover_facts(1-3)[OF d]
  have wf1: "tm_wf m1" using f(3) assms(1) by simp
  let ?left = "filter (\<lambda>p. \<not> b \<and> now < nextOf (timerObjs m) p) (timers m)"
  have pre: "expiredPrefix (timerObjs m1) now q b (timers m1) = (exp, ?left)"
    using expiredPrefix_filter[OF tm_wfD(1)[OF assms(1)], of now q b] f(1,2) by (simp add: exp_eq)
  have live: "\<exists>t. timerObjs m x = Some t \<and> timerCb t \<noteq> None" if "x \<in> set exp" for x
    using tm_wfD(3)[OF assms(1)] that by (auto simp: exp_eq)
  have wf2: "tm_wf (m1\<lparr>timers := ?left\<rparr>)"
    using tm_wfD[OF assms(1)] f(2) by (auto simp: tm_wf_def sorted_filter distinct_filter)
  have early: "exp = [] \<and> ?left = timers m" if "\<not> b" "nextOf (timerObjs m) p > now"
  proof -
    have "now < nextOf (timerObjs m) x" if "x \<in> set (timers m)" for x
      using tm_wfD(1)[OF assms(1)] nextOf_mono[of "timerObjs m" p x] \<open>nextOf (timerObjs m) p > now\<close> that Cons
      by auto
    with \<open>\<not> b\<close> show ?thesis by (auto simp: exp_eq filter_empty_conv filter_id_conv not_le)
  qed
  have ds: "distinct exp" "set exp \<inter> set ?left = {}" "set ?left = set (timers m) - set exp"
    using tm_wfD(2)[OF assms(1)] by (auto simp: exp_eq)
  have o: "timerObjs (m1\<lparr>timers := ?left\<rparr>) = timerObjs m" "timers (m1\<lparr>timers := ?left\<rparr>) = ?left"
    using f(2) by simp_all
  from fireAll_ok[OF wf2 ds(1), of now, unfolded o, OF ds(2) live] obtain m' where
    m': "fireAll now exp (m1\<lparr>timers := ?left\<rparr>) = Inr (map (\<lambda>p. timerCb (the (timerObjs m p))) exp, m')" "tm_wf m'"
      "set (timers m') = set ?left \<union> {p\<in>set exp. isRepeat (the (timerObjs m p))}"
      "timerObjs m' = (\<lambda>p. if p \<in> set exp then map_option (fired now) (timerObjs m p) else timerObjs m p)"
    by blast
  show ?thesis
  proof (cases "\<not> b \<and> nextOf (timerObjs m) p > now")
    case True
    then have "listExpiredCb now q m = Inr ([], m1)" by (simp add: listExpiredCb_def Cons d f(2))
    with early True wf1 f(1,2) show ?thesis unfolding exp_def[symmetric] by (intro exI[of _ m1]) auto
  next
    case False
    then have "listExpiredCb now q m = fireAll now exp (m1\<lparr>timers := ?left\<rparr>)"
      using pre by (auto simp: listExpiredCb_def Cons d f)
    with m' ds(3) show ?thesis unfolding exp_def[symmetric] by (intro exI[of _ m']) simp
  qed
qed

text \<open>C24: on a timer set in order, \<open>listExpiredCb\<close> - with its early returns, its binary search for an
  artificial timer at any address and its erasure of a range - does what filtering would do: it
  returns, in the order of the set, the callbacks of exactly the timers whose time is not after now (of
  all timers if the clock ran back), none of them empty; repeating ones wait for their next period,
  the others are out with an empty callback, all others are untouched, and the set stays in order.\<close>

theorem listExpired_filters:
  assumes "tm_wf m"
  shows "\<exists>m'. listExpiredCb now q m = Inr (map (\<lambda>p. timerCb (the (timerObjs m p))) (dueTimers now m), m') \<and>
    (\<forall>p\<in>set (dueTimers now m). timerCb (the (timerObjs m p)) \<noteq> None) \<and> tm_wf m' \<and>
    set (timers m') = (set (timers m) - set (dueTimers now m)) \<union>
      {p\<in>set (dueTimers now m). isRepeat (the (timerObjs m p))} \<and>
    timerObjs m' = (\<lambda>p. if p \<in> set (dueTimers now m) then map_option (fired now) (timerObjs m p) else timerObjs m p)"
proof -
  have "timerCb (the (timerObjs m p)) \<noteq> None" if "p \<in> set (dueTimers now m)" for p
    using tm_wfD(3)[OF assms, of p] that by (auto simp: dueTimers_def)
  with listExpired_ok[OF assms, of now q] show ?thesis by blast
qed

definition sampleTimers :: "string timerManager" where
  \<comment> \<open>three timers, two due at the same time, one of them repeating\<close>
  "sampleTimers = \<lparr>timerObjs = [3 \<mapsto> \<lparr>isRepeat = True, periodMs = 50, nextRun = 100, timerCb = Some ''a''\<rparr>,
       7 \<mapsto> \<lparr>isRepeat = False, periodMs = 10, nextRun = 100, timerCb = Some ''b''\<rparr>,
       5 \<mapsto> \<lparr>isRepeat = False, periodMs = 9, nextRun = 3600000, timerCb = Some ''c''\<rparr>],
     timers = [3, 7, 5], tickled = False, previousTime = 90\<rparr>"

lemma sampleTimers_wf: "tm_wf sampleTimers"
  by (simp add: tm_wf_def sampleTimers_def timerKeyOf_def less_eq_timerKey_def less_timerKey_def)

theorem listExpired_filters_witness:
  "\<exists>m'. listExpiredCb 120 4 sampleTimers = Inr ([Some ''a'', Some ''b''], m') \<and> tm_wf m' \<and>
    set (timers m') = {3, 5} \<and> map_option nextRun (timerObjs m' 3) = Some 170"
proof -
  have d: "fst (detectClockRollover 120 sampleTimers) = False"
    by (simp add: detectClockRollover_def sampleTimers_def)
  have e: "filter (\<lambda>p. False \<or> nextOf (timerObjs sampleTimers) p \<le> 120) (timers sampleTimers) = [3, 7]"
    by (simp add: sampleTimers_def nextOf_def timerKeyOf_def)
  then have due: "dueTimers 120 sampleTimers = [3, 7]" using d by (simp only: dueTimers_def)
  from listExpired_filters[OF sampleTimers_wf, of 120 4, unfolded due] obtain m' where
    m': "listExpiredCb 120 4 sampleTimers = Inr (map (\<lambda>p. timerCb (the (timerObjs sampleTimers p))) [3, 7], m')"
      "tm_wf m'" "set (timers m') = (set (timers sampleTimers) - set [3, 7]) \<union>
        {p\<in>set [3, 7]. isRepeat (the (timerObjs sampleTimers p))}"
      "timerObjs m' = (\<lambda>p. if p \<in> set [3, 7] then map_option (fired 120) (timerObjs sampleTimers p)
        else timerObjs sampleTimers p)" by blast
  have e1: "map (\<lambda>p. timerCb (the (timerObjs sampleTimers p))) [3, 7] = [Some ''a'', Some ''b'']"
    by (simp add: sampleTimers_def)
  have e2: "(set (timers sampleTimers) - set [3, 7]) \<union>
      {p\<in>set [3, 7]. isRepeat (the (timerObjs sampleTimers p))} = {3, 5}" by (auto simp: sampleTimers_def)
  have e3: "map_option nextRun (timerObjs m' 3) = Some 170"
    unfolding m'(4) by (simp add: sampleTimers_def fired_def)
  show ?thesis using m'(1)[unfolded e1] m'(2) m'(3)[unfolded e2] e3 by blast
qed

text \<open>C39: the subtraction in \<open>detectClockRollover\<close> is unsigned: in the first hour after the machine was
  started, a reading of the clock that is only one millisecond older than the last one (the clock is
  read before the lock is taken, so readings of two threads can arrive in the other order) counts as a
  clock that ran back, and \<open>listExpiredCb\<close> then fires every timer, whenever it is due.\<close>

theorem early_rollover_fires_all:
  assumes "tm_wf m" and "previousTime m < 3600000" and "now < previousTime m"
  shows "\<exists>m'. listExpiredCb now q m = Inr (map (\<lambda>p. timerCb (the (timerObjs m p))) (timers m), m') \<and>
    set (timers m') = {p\<in>set (timers m). isRepeat (the (timerObjs m p))}"
proof -
  have "uint now < uint (previousTime m)" "uint (previousTime m) < 3600000"
    using assms(2,3) by (simp_all add: word_less_def)
  moreover have "uint (previousTime m - 3600000) = uint (previousTime m) - 3600000 + 2 ^ 64"
    using calculation(2) by (simp add: uint_sub_if')
  ultimately have "now < previousTime m - 3600000" by (simp add: word_less_def)
  then have "dueTimers now m = timers m" using assms(3) by (simp add: dueTimers_def detectClockRollover_def)
  then show ?thesis using listExpired_ok[OF assms(1), of now q] by auto
qed

theorem early_rollover_fires_all_witness:
  "\<exists>m'. listExpiredCb 89 4 sampleTimers = Inr ([Some ''a'', Some ''b'', Some ''c''], m') \<and>
    map_option nextRun (timerObjs sampleTimers 5) = Some 3600000"
proof -
  have "previousTime sampleTimers < 3600000" "89 < previousTime sampleTimers" by (simp_all add: sampleTimers_def)
  from early_rollover_fires_all[OF sampleTimers_wf this, of 4] obtain m' where
    "listExpiredCb 89 4 sampleTimers = Inr (map (\<lambda>p. timerCb (the (timerObjs sampleTimers p))) (timers sampleTimers), m')"
    by blast
  moreover have "map (\<lambda>p. timerCb (the (timerObjs sampleTimers p))) (timers sampleTimers)
      = [Some ''a'', Some ''b'', Some ''c'']" by (simp add: sampleTimers_def)
  ultimately show ?thesis by (auto simp: sampleTimers_def)
qed

end
