(* ===== verification/FdManager.thy ===== *)
theory FdManager
  imports Prelude "HOL-Library.Word"
begin

unbundle bit_operations_syntax

text \<open>
  The contexts of file descriptors of \<^verbatim>\<open>src/fiber/fd_manager.cpp\<close>.  A context is a value at its index of
  the vector: every holder of a \<^verbatim>\<open>FdCtxPtr\<close> in the code reads or writes it before anything else can
  run.  The kernel is a state of its own: which descriptors are open, whether they are sockets, and
  their status flags; what \<^verbatim>\<open>F_SETFL\<close> makes of the old flags and its argument is a parameter of it.
\<close>

section \<open>The kernel\<close>

record kernel =
  fdSocket :: "int \<rightharpoonup> bool" \<comment> \<open>\<^verbatim>\<open>fstat\<close>: fails, or says whether it is a socket\<close>
  fdFlags :: "int \<Rightarrow> 32 word"
  setfl :: "32 word \<Rightarrow> 32 word \<Rightarrow> 32 word"

definition O_NONBLOCK :: "32 word" where "O_NONBLOCK = 0x800"

text \<open>What the manual page of \<^verbatim>\<open>fcntl\<close> says about \<^verbatim>\<open>O_NONBLOCK\<close>.\<close>

definition kernel_ok :: "kernel \<Rightarrow> bool" where
  "kernel_ok k \<longleftrightarrow> (\<forall>old arg. setfl k old arg AND O_NONBLOCK = arg AND O_NONBLOCK)"

definition fcntlGet :: "int \<Rightarrow> kernel \<Rightarrow> 32 word" where
  "fcntlGet fd k = (if fdSocket k fd = None then - 1 else fdFlags k fd)"

definition fcntlSet :: "int \<Rightarrow> 32 word \<Rightarrow> kernel \<Rightarrow> kernel" where
  "fcntlSet fd arg k =
     (if fdSocket k fd = None then k else k\<lparr>fdFlags := (fdFlags k)(fd := setfl k (fdFlags k fd) arg)\<rparr>)"

section \<open>Contexts\<close>

record fdCtx =
  isInit :: bool
  isSocket :: bool
  sysNonblock :: bool
  userNonblock :: bool
  isClosed :: bool
  ctxFd :: int
  recvTimeout :: "64 word"
  sendTimeout :: "64 word"

definition SO_RCVTIMEO :: int where "SO_RCVTIMEO = 20"
definition SO_SNDTIMEO :: int where "SO_SNDTIMEO = 21"

definition setTimeout :: "int \<Rightarrow> 64 word \<Rightarrow> fdCtx \<Rightarrow> fdCtx" where
  "setTimeout type ms c =
     (if type = SO_RCVTIMEO then c\<lparr>recvTimeout := ms\<rparr> else c\<lparr>sendTimeout := ms\<rparr>)"

definition getTimeout :: "int \<Rightarrow> fdCtx \<Rightarrow> 64 word" where
  "getTimeout type c = (if type = SO_RCVTIMEO then recvTimeout c else sendTimeout c)"

definition initFdCtx :: "fdCtx \<Rightarrow> kernel \<Rightarrow> fdCtx \<times> kernel" where
  "initFdCtx c k =
     (if isInit c then (c, k)
      else
        let c1 = (case fdSocket k (ctxFd c) of None \<Rightarrow> c | Some sock \<Rightarrow> c\<lparr>isInit := True, isSocket := sock\<rparr>)
        in if isSocket c1
           then let flags = fcntlGet (ctxFd c1) k;
                    k1 = (if flags AND O_NONBLOCK = 0 then fcntlSet (ctxFd c1) (flags OR O_NONBLOCK) k else k)
                in (c1\<lparr>sysNonblock := True\<rparr>, k1)
           else (c1, k))"

definition newFdCtx :: "int \<Rightarrow> kernel \<Rightarrow> fdCtx \<times> kernel" where
  "newFdCtx fd k = initFdCtx \<lparr>isInit = False, isSocket = False, sysNonblock = False, userNonblock = False,
     isClosed = False, ctxFd = fd, recvTimeout = 0, sendTimeout = 0\<rparr> k"

section \<open>The manager\<close>

type_synonym fdManager = "fdCtx option list"

definition newFdManager :: fdManager where
  "newFdManager = replicate 64 None"

definition vecResize :: "nat \<Rightarrow> 'a option list \<Rightarrow> 'a option list" where
  \<comment> \<open>\<^verbatim>\<open>std::vector::resize\<close> of pointers: cut off or filled up with null\<close>
  "vecResize n xs = take n xs @ replicate (n - length xs) None"

text \<open>\<open>get\<close>; \<open>fd * 1.5\<close> converted to a size is \<open>fd + fd div 2\<close>.\<close>

definition fdCreate :: "int \<Rightarrow> fdManager \<Rightarrow> kernel \<Rightarrow> (fdCtx option \<times> fdManager \<times> kernel) res" where
  "fdCreate fd m k =
     (case newFdCtx fd k of (ctx, k1) \<Rightarrow>
        let m1 = (if fd \<ge> int (length m) then vecResize (nat (fd + fd div 2)) m else m)
        in andThen (vecSet m1 fd (Some ctx)) (\<lambda>m2. Inr (Some ctx, m2, k1)))"

definition fdGet :: "int \<Rightarrow> bool \<Rightarrow> fdManager \<Rightarrow> kernel \<Rightarrow> (fdCtx option \<times> fdManager \<times> kernel) res" where
  "fdGet fd autoCreate m k =
     (if fd < 0 then Inr (None, m, k)
      else if fd > int (length m) then (if \<not> autoCreate then Inr (None, m, k) else fdCreate fd m k)
      else andThen (vecGet m fd) (\<lambda>c.
        if c \<noteq> None \<or> \<not> autoCreate then Inr (c, m, k) else fdCreate fd m k))"

definition fdDel :: "int \<Rightarrow> fdManager \<Rightarrow> fdManager res" where
  "fdDel fd m = (if fd < int (length m) then vecSet m fd None else Inr m)"

section \<open>Which calls are safe\<close>

lemma length_vecResize [simp]: "length (vecResize n xs) = n"
  by (simp add: vecResize_def)

lemma vecResize_nth: "i < length xs \<Longrightarrow> i < n \<Longrightarrow> vecResize n xs ! i = xs ! i"
  by (simp add: vecResize_def nth_append)

lemma fdCreate_ok:
  assumes "0 \<le> fd" and "2 \<le> length m"
  shows "\<exists>ctx k' m'. newFdCtx fd k = (ctx, k') \<and> fdCreate fd m k = Inr (Some ctx, m', k') \<and>
    nat fd < length m' \<and> m' ! nat fd = Some ctx \<and> 2 \<le> length m' \<and>
    (\<forall>i<length m. i \<noteq> nat fd \<longrightarrow> m' ! i = m ! i)"
proof -
  obtain ctx k' where c: "newFdCtx fd k = (ctx, k')" by fastforce
  let ?m1 = "if fd \<ge> int (length m) then vecResize (nat (fd + fd div 2)) m else m"
  have len: "fd < int (length ?m1)" "2 \<le> length ?m1" using assms by auto
  then have "fdCreate fd m k = Inr (Some ctx, ?m1[nat fd := Some ctx], k')"
    using c assms(1) by (simp add: fdCreate_def vecSet_in_range Let_def)
  moreover have "?m1[nat fd := Some ctx] ! i = m ! i" if "i < length m" "i \<noteq> nat fd" for i
    using that by (auto simp: vecResize_nth)
  ultimately show ?thesis using c len assms(1) by (intro exI[of _ ctx] exI[of _ k'] exI[of _ "?m1[nat fd := Some ctx]"]) auto
qed

text \<open>The bound of \<open>get\<close> is off by one: the first descriptor behind the vector is read out of range, with
  or without creation; every other descriptor is answered.\<close>

lemma fdGet_off_by_one: "fdGet (int (length m)) autoCreate m k = Inl BadAccess"
  by (simp add: fdGet_def vecGet_def)

lemma fdGet_returns:
  assumes "fd \<noteq> int (length m)" and "2 \<le> length m"
  shows "returns (fdGet fd autoCreate m k)"
proof (cases "0 \<le> fd")
  case True
  with fdCreate_ok[OF True assms(2), of k] assms(1) show ?thesis
    by (auto simp: fdGet_def vecGet_in_range)
qed (simp add: fdGet_def)

text \<open>A found context is the one stored.\<close>

lemma fdGet_found:
  assumes "0 \<le> fd" and "fd < int (length m)" and "m ! nat fd = Some c"
  shows "fdGet fd autoCreate m k = Inr (Some c, m, k)"
  using assms by (simp add: fdGet_def vecGet_in_range)

lemma fdGet_none:
  assumes "0 \<le> fd" and "fd < int (length m)" and "m ! nat fd = None"
  shows "fdGet fd False m k = Inr (None, m, k)"
  using assms by (simp add: fdGet_def vecGet_in_range)

lemma and_exp_cases: "(x :: 'a::len word) AND 2 ^ n = 0 \<or> x AND 2 ^ n = 2 ^ n"
proof (cases "bit x n")
  case True
  then have "x AND 2 ^ n = 2 ^ n" by (intro bit_eqI) (auto simp: bit_simps)
  then show ?thesis ..
next
  case False
  then have "x AND 2 ^ n = 0" by (intro bit_eqI) (auto simp: bit_simps)
  then show ?thesis ..
qed

lemma nonblock_cases: "x AND O_NONBLOCK = 0 \<or> x AND O_NONBLOCK = O_NONBLOCK"
  using and_exp_cases[of x 11] by (simp add: O_NONBLOCK_def)

lemma newFdCtx_socket:
  assumes "fdSocket k fd = Some True"
  shows "\<exists>k'. newFdCtx fd k = (\<lparr>isInit = True, isSocket = True, sysNonblock = True, userNonblock = False,
     isClosed = False, ctxFd = fd, recvTimeout = 0, sendTimeout = 0\<rparr>, k') \<and>
     fdSocket k' = fdSocket k \<and> setfl k' = setfl k \<and>
     (kernel_ok k \<longrightarrow> fdFlags k' fd AND O_NONBLOCK = O_NONBLOCK)"
proof -
  note nb = nonblock_cases
  show ?thesis
    using assms nb[of "fdFlags k fd"]
    by (auto simp: newFdCtx_def initFdCtx_def fcntlGet_def fcntlSet_def kernel_ok_def bit.conj_disj_distrib2 Let_def)
qed

end
