(* ===== verification/Fiber.thy ===== *)
theory Fiber
  imports Prelude Transitions
begin

text \<open>
  The fibers of one thread, \<^verbatim>\<open>src/fiber/fiber.cpp\<close>.  Fiber objects live in a store; \<open>curFiber\<close>,
  \<open>threadMain\<close> and \<open>schedFiber\<close> are the thread-local pointers (the last one is
  \<^verbatim>\<open>Scheduler::getMainFiber()\<close>).  A \<^verbatim>\<open>ucontext_t\<close> is the piece of code that goes on when it is switched
  to; \<open>control\<close> is the code that executes now, and \<^verbatim>\<open>swapcontext\<close> stores it in one context and takes
  the one of another.  \<^verbatim>\<open>getcontext\<close> and \<^verbatim>\<open>swapcontext\<close> are taken to succeed, \<^verbatim>\<open>CondPanic\<close> is an assertion.
\<close>

section \<open>State\<close>

datatype fiberState = READY | RUNNING | TERMINATED

datatype code = ThreadCode | FiberCode nat

record 'c fiber =
  fstate :: fiberState
  hasStack :: bool
  fiberCb :: "'c option"
  isRunInScheduler :: bool

record 'c fiberThread =
  fibers :: "nat \<rightharpoonup> 'c fiber"
  nextFiberId :: nat
  curFiber :: "nat option"
  threadMain :: "nat option"
  schedFiber :: "nat option"
  savedCtx :: "nat \<Rightarrow> code"
  control :: code

definition setState :: "nat \<Rightarrow> 'c fiber \<Rightarrow> 'c fiberThread \<Rightarrow> 'c fiberThread" where
  "setState f b t = t\<lparr>fibers := (fibers t)(f \<mapsto> b)\<rparr>"

definition swapcontext :: "nat \<Rightarrow> nat \<Rightarrow> 'c fiberThread \<Rightarrow> 'c fiberThread" where
  "swapcontext old new t = t\<lparr>savedCtx := (savedCtx t)(old := control t),
     control := ((savedCtx t)(old := control t)) new\<rparr>"

section \<open>Operations\<close>

definition newFiber :: "'c \<Rightarrow> bool \<Rightarrow> 'c fiberThread \<Rightarrow> nat \<times> 'c fiberThread" where
  \<comment> \<open>the context of a new fiber is its own code, \<open>mainFunc\<close>\<close>
  "newFiber cb inSched t =
     (let f = nextFiberId t in
      (f, t\<lparr>fibers := (fibers t)(f \<mapsto> \<lparr>fstate = READY, hasStack = True, fiberCb = Some cb, isRunInScheduler = inSched\<rparr>),
            nextFiberId := Suc f, savedCtx := (savedCtx t)(f := FiberCode f)\<rparr>))"

definition newMainFiber :: "bool \<Rightarrow> 'c fiberThread \<Rightarrow> nat \<times> 'c fiberThread" where
  \<comment> \<open>the private constructor; \<open>isRunInScheduler_\<close> is not initialised, its value is the argument\<close>
  "newMainFiber garbage t =
     (let f = nextFiberId t in
      (f, t\<lparr>fibers := (fibers t)(f \<mapsto> \<lparr>fstate = RUNNING, hasStack = False, fiberCb = None, isRunInScheduler = garbage\<rparr>),
            nextFiberId := Suc f, curFiber := Some f, savedCtx := (savedCtx t)(f := control t)\<rparr>))"

definition fiberGetThis :: "bool \<Rightarrow> 'c fiberThread \<Rightarrow> nat \<times> 'c fiberThread" where
  "fiberGetThis garbage t =
     (case curFiber t of
        Some f \<Rightarrow> (f, t)
      | None \<Rightarrow> (case newMainFiber garbage t of (f, t1) \<Rightarrow> (f, t1\<lparr>threadMain := Some f\<rparr>)))"

text \<open>The fiber whose context a switch stores in (\<open>resume\<close>) or goes back to (\<open>yield\<close>).\<close>

definition baseFiber :: "'c fiber \<Rightarrow> 'c fiberThread \<Rightarrow> nat res" where
  "baseFiber b t = derefOpt (if isRunInScheduler b then schedFiber t else threadMain t)"

definition fiberReset :: "nat \<Rightarrow> 'c \<Rightarrow> 'c fiberThread \<Rightarrow> 'c fiberThread res" where
  "fiberReset f cb t =
     andThen (derefOpt (fibers t f)) (\<lambda>b.
     andThen (myAssert (hasStack b)) (\<lambda>_.
     andThen (myAssert (fstate b = TERMINATED)) (\<lambda>_.
       Inr ((setState f (b\<lparr>fiberCb := Some cb, fstate := READY\<rparr>) t)\<lparr>savedCtx := (savedCtx t)(f := FiberCode f)\<rparr>))))"

definition fiberResume :: "nat \<Rightarrow> 'c fiberThread \<Rightarrow> 'c fiberThread res" where
  "fiberResume f t =
     andThen (derefOpt (fibers t f)) (\<lambda>b.
     andThen (myAssert (fstate b \<noteq> TERMINATED \<and> fstate b \<noteq> RUNNING)) (\<lambda>_.
     let t1 = setState f (b\<lparr>fstate := RUNNING\<rparr>) (t\<lparr>curFiber := Some f\<rparr>)
     in andThen (baseFiber b t1) (\<lambda>base. Inr (swapcontext base f t1))))"

definition fiberYield :: "nat \<Rightarrow> 'c fiberThread \<Rightarrow> 'c fiberThread res" where
  "fiberYield f t =
     andThen (derefOpt (fibers t f)) (\<lambda>b.
     andThen (myAssert (fstate b = RUNNING \<or> fstate b = TERMINATED)) (\<lambda>_.
     let t1 = setState f (if fstate b \<noteq> TERMINATED then b\<lparr>fstate := READY\<rparr> else b) (t\<lparr>curFiber := threadMain t\<rparr>)
     in andThen (baseFiber b t1) (\<lambda>base. Inr (swapcontext f base t1))))"

definition fiberFinish :: "nat \<Rightarrow> 'c fiberThread \<Rightarrow> 'c fiberThread res" where
  \<comment> \<open>the end of \<open>mainFunc\<close>\<close>
  "fiberFinish f t =
     andThen (derefOpt (fibers t f)) (\<lambda>b. fiberYield f (setState f (b\<lparr>fiberCb := None, fstate := TERMINATED\<rparr>) t))"

definition fiberDestroy :: "nat \<Rightarrow> 'c fiberThread \<Rightarrow> 'c fiberThread res" where
  "fiberDestroy f t =
     andThen (derefOpt (fibers t f)) (\<lambda>b.
       if hasStack b
       then andThen (myAssert (fstate b = TERMINATED)) (\<lambda>_. Inr (t\<lparr>fibers := (fibers t)(f := None)\<rparr>))
       else andThen (myAssert (fiberCb b = None)) (\<lambda>_.
            andThen (myAssert (fstate b = RUNNING)) (\<lambda>_.
              Inr (t\<lparr>fibers := (fibers t)(f := None),
                     curFiber := (if curFiber t = Some f then None else curFiber t)\<rparr>))))"

section \<open>Threads of a scheduler\<close>

definition newThread :: "nat \<Rightarrow> 'c fiberThread" where
  "newThread n = \<lparr>fibers = Map.empty, nextFiberId = n, curFiber = None, threadMain = None, schedFiber = None,
     savedCtx = (\<lambda>_. ThreadCode), control = ThreadCode\<rparr>"

text \<open>A thread of the pool when it enters \<open>Scheduler::run\<close>: its main fiber is its scheduling fiber.\<close>

definition poolThread :: "nat \<Rightarrow> bool \<Rightarrow> 'c fiberThread" where
  "poolThread n garbage = (case fiberGetThis garbage (newThread n) of (f, t) \<Rightarrow> t\<lparr>schedFiber := Some f\<rparr>)"

text \<open>The thread that made the scheduler, in \<open>Scheduler::stop\<close>: a root fiber of its own executes \<open>run\<close>.\<close>

definition callerThread :: "nat \<Rightarrow> bool \<Rightarrow> 'c \<Rightarrow> 'c fiberThread res" where
  "callerThread n garbage runCb =
     (case fiberGetThis garbage (newThread n) of (_, t) \<Rightarrow>
        case newFiber runCb False t of (root, t1) \<Rightarrow> fiberResume root (t1\<lparr>schedFiber := Some root\<rparr>))"

definition isTask :: "'c fiberThread \<Rightarrow> nat \<Rightarrow> bool" where
  "isTask t f = (case fibers t f of None \<Rightarrow> False | Some b \<Rightarrow> hasStack b \<and> isRunInScheduler b)"

definition codeOf :: "'c fiberThread \<Rightarrow> nat \<Rightarrow> code" where
  "codeOf t f = (case fibers t f of Some b \<Rightarrow> if hasStack b then FiberCode f else ThreadCode | None \<Rightarrow> ThreadCode)"

text \<open>What can happen on such a thread: whoever has control makes fibers or reuses and destroys ended
  ones; the loop of the scheduler resumes a fiber; the fiber in control yields or ends.\<close>

inductive fiberStep :: "'c fiberThread \<Rightarrow> 'c fiberThread \<Rightarrow> bool" where
  make: "newFiber cb True t = (f, t') \<Longrightarrow> fiberStep t t'"
| reuse: "isTask t f \<Longrightarrow> fiberReset f cb t = Inr t' \<Longrightarrow> fiberStep t t'"
| delete: "isTask t f \<Longrightarrow> control t \<noteq> FiberCode f \<Longrightarrow> fiberDestroy f t = Inr t' \<Longrightarrow> fiberStep t t'"
| resume: "schedFiber t = Some s \<Longrightarrow> control t = codeOf t s \<Longrightarrow> isTask t f \<Longrightarrow> fiberResume f t = Inr t' \<Longrightarrow> fiberStep t t'"
| yield: "control t = FiberCode f \<Longrightarrow> isTask t f \<Longrightarrow> fiberYield f t = Inr t' \<Longrightarrow> fiberStep t t'"
| finish: "control t = FiberCode f \<Longrightarrow> isTask t f \<Longrightarrow> fiberFinish f t = Inr t' \<Longrightarrow> fiberStep t t'"

inductive_cases fiberStepE: "fiberStep t t'"

definition threadInit :: "'c fiberThread \<Rightarrow> bool" where
  "threadInit t \<longleftrightarrow> (\<exists>n garbage. t = poolThread n garbage) \<or> (\<exists>n garbage cb. callerThread n garbage cb = Inr t)"

end
