(* ===== verification/FiberTheorems.thy ===== *)
theory FiberTheorems
  imports Fiber
begin

text \<open>
  The states of the fibers of a thread agree with what executes: an invariant of every sequence of
  switches that the scheduler and the fibers themselves can make.
\<close>

section \<open>The invariant\<close>

text \<open>\<open>s\<close> is the scheduling fiber, \<open>m\<close> the main fiber of the thread: a task is \<open>RUNNING\<close> exactly when its
  code is in control; a task not in control goes on in its own code when it is switched to; and
  control is with the scheduler, or with the current fiber, a task, that goes back to the scheduler.\<close>

definition fiber_inv :: "nat \<Rightarrow> nat \<Rightarrow> 'c fiberThread \<Rightarrow> bool" where
  "fiber_inv s m t \<longleftrightarrow>
     schedFiber t = Some s \<and> threadMain t = Some m \<and> s < nextFiberId t \<and> m < nextFiberId t \<and>
     \<not> isTask t s \<and> fibers t s \<noteq> None \<and>
     (\<forall>f b. fibers t f = Some b \<longrightarrow> f < nextFiberId t) \<and>
     (\<forall>f b. isTask t f \<longrightarrow> fibers t f = Some b \<longrightarrow> (fstate b = RUNNING \<longleftrightarrow> control t = FiberCode f)) \<and>
     (\<forall>f. isTask t f \<longrightarrow> control t \<noteq> FiberCode f \<longrightarrow> savedCtx t f = FiberCode f) \<and>
     (control t = codeOf t s \<or>
      (\<exists>f. control t = FiberCode f \<and> isTask t f \<and> curFiber t = Some f \<and> savedCtx t s = codeOf t s))"

definition fiber_wf :: "'c fiberThread \<Rightarrow> bool" where
  "fiber_wf t \<longleftrightarrow> (\<exists>s m. fiber_inv s m t)"

lemma isTask_iff: "isTask t f \<longleftrightarrow> (\<exists>b. fibers t f = Some b \<and> hasStack b \<and> isRunInScheduler b)"
  by (auto simp: isTask_def split: option.splits)

lemma fiber_invD:
  assumes "fiber_inv s m t"
  shows "schedFiber t = Some s" "threadMain t = Some m" "s < nextFiberId t" "m < nextFiberId t"
    "\<not> isTask t s" "fibers t s \<noteq> None"
    "fibers t f = Some b \<Longrightarrow> f < nextFiberId t"
    "isTask t f \<Longrightarrow> fibers t f = Some b \<Longrightarrow> (fstate b = RUNNING \<longleftrightarrow> control t = FiberCode f)"
    "isTask t f \<Longrightarrow> control t \<noteq> FiberCode f \<Longrightarrow> savedCtx t f = FiberCode f"
    "control t = codeOf t s \<or>
      (\<exists>f. control t = FiberCode f \<and> isTask t f \<and> curFiber t = Some f \<and> savedCtx t s = codeOf t s)"
  using assms unfolding fiber_inv_def by blast+

lemma codeOf_task: "isTask t f \<Longrightarrow> codeOf t g = FiberCode f \<longleftrightarrow> g = f"
  by (auto simp: codeOf_def isTask_iff split: option.splits if_splits)

text \<open>A step that changes one task and moves control accordingly keeps the invariant.\<close>

lemma fiber_inv_update:
  assumes inv: "fiber_inv s m t" and f: "isTask t f" "fibers t' = (fibers t)(f \<mapsto> b)" "hasStack b" "isRunInScheduler b"
    and same: "schedFiber t' = schedFiber t" "threadMain t' = threadMain t" "nextFiberId t' = nextFiberId t"
    and state: "fstate b = RUNNING \<longleftrightarrow> control t' = FiberCode f"
    and others: "\<And>g. isTask t g \<Longrightarrow> g \<noteq> f \<Longrightarrow>
      (control t' = FiberCode g \<longleftrightarrow> control t = FiberCode g) \<and> savedCtx t' g = savedCtx t g"
    and saved: "control t' \<noteq> FiberCode f \<Longrightarrow> savedCtx t' f = FiberCode f"
    and ctl: "control t' = codeOf t s \<or> (control t' = FiberCode f \<and> curFiber t' = Some f \<and> savedCtx t' s = codeOf t s) \<or>
      (control t' = control t \<and> curFiber t' = curFiber t \<and> savedCtx t' s = savedCtx t s)"
  shows "fiber_inv s m t'"
proof -
  note w = fiber_invD[OF inv]
  have task: "isTask t' g = isTask t g" for g using f by (auto simp: isTask_def)
  have sf: "s \<noteq> f" using w(5) f(1) by auto
  have code: "codeOf t' s = codeOf t s" using sf f(2) by (simp add: codeOf_def)
  show ?thesis
    unfolding fiber_inv_def
  proof (intro conjI allI impI)
    show "\<not> isTask t' s" using w(5) by (simp add: task)
    show "fibers t' s \<noteq> None" using w(6) sf f(2) by simp
    show "g < nextFiberId t'" if "fibers t' g = Some c" for g c
      using that w(7)[of g] f(1,2) same(3) by (cases "g = f") (auto simp: isTask_iff)
    show "fstate c = RUNNING \<longleftrightarrow> control t' = FiberCode g" if "isTask t' g" "fibers t' g = Some c" for g c
      using that w(8)[of g c] f(2) state others[of g] by (cases "g = f") (auto simp: task)
    show "savedCtx t' g = FiberCode g" if "isTask t' g" "control t' \<noteq> FiberCode g" for g
      using that w(9)[of g] saved others[of g] by (cases "g = f") (auto simp: task)
    show "control t' = codeOf t' s \<or>
      (\<exists>f. control t' = FiberCode f \<and> isTask t' f \<and> curFiber t' = Some f \<and> savedCtx t' s = codeOf t' s)"
      using ctl w(10) f(1) by (auto simp: task code)
  qed (use w(1-4) same in simp_all)
qed

section \<open>The steps\<close>

lemma make_inv:
  assumes "fiber_inv s m t" and "newFiber cb True t = (n, t')"
  shows "fiber_inv s m t'"
proof -
  note w = fiber_invD[OF assms(1)]
  have t': "n = nextFiberId t" "t' = snd (newFiber cb True t)" using assms(2) by (auto simp: newFiber_def Let_def)
  have old: "isTask t' g = (g = n \<or> isTask t g)" "g \<noteq> n \<Longrightarrow> codeOf t' g = codeOf t g" for g
    by (auto simp: t' newFiber_def isTask_def codeOf_def Let_def)
  have fresh: "\<not> isTask t n" using w(7) by (auto simp: isTask_iff t'(1))
  have ctl: "control t \<noteq> FiberCode n"
    using w(3,10) fresh by (auto simp: t'(1) codeOf_def split: option.splits if_splits)
  have s: "s \<noteq> n" using w(3) by (simp add: t'(1))
  have f: "schedFiber t' = schedFiber t" "threadMain t' = threadMain t" "nextFiberId t' = Suc n" "control t' = control t"
    "curFiber t' = curFiber t" "fibers t' s = fibers t s" "savedCtx t' s = savedCtx t s"
    "\<And>g. g \<noteq> n \<Longrightarrow> fibers t' g = fibers t g" "\<And>g. g \<noteq> n \<Longrightarrow> savedCtx t' g = savedCtx t g"
    "savedCtx t' n = FiberCode n" "\<And>b. fibers t' n = Some b \<Longrightarrow> fstate b = READY"
    using s by (auto simp: t' newFiber_def Let_def)
  show ?thesis
    unfolding fiber_inv_def
  proof (intro conjI allI impI)
    show "\<not> isTask t' s" using w(5) s by (simp add: old)
    show "fibers t' s \<noteq> None" using w(6) by (simp add: f)
    show "g < nextFiberId t'" if "fibers t' g = Some b" for g b
      using that w(7)[of g b] f(3) f(8)[of g] t'(1) by (cases "g = n") auto
    show "fstate b = RUNNING \<longleftrightarrow> control t' = FiberCode g" if "isTask t' g" "fibers t' g = Some b" for g b
      using that ctl f(4,8,11) w(8)[of g b] old(1) by (cases "g = n") auto
    show "savedCtx t' g = FiberCode g" if "isTask t' g" "control t' \<noteq> FiberCode g" for g
      using that f(4,9,10) w(9)[of g] old(1) by (cases "g = n") auto
    show "control t' = codeOf t' s \<or>
      (\<exists>f. control t' = FiberCode f \<and> isTask t' f \<and> curFiber t' = Some f \<and> savedCtx t' s = codeOf t' s)"
      using w(10) f(4,5,7) old(2)[OF s] old(1) by auto
  qed (use w(1-4) f(1-3) t'(1) in simp_all)
qed

lemma task_fiber: "isTask t f \<Longrightarrow> \<exists>b. fibers t f = Some b \<and> hasStack b \<and> isRunInScheduler b"
  by (simp add: isTask_iff)

lemma resume_inv:
  assumes "fiber_inv s m t" and "control t = codeOf t s" and "isTask t f" and "fiberResume f t = Inr t'"
  shows "fiber_inv s m t'" and "control t' = FiberCode f" and "curFiber t' = Some f"
proof -
  note w = fiber_invD[OF assms(1)]
  from task_fiber[OF assms(3)] obtain b where b: "fibers t f = Some b" "hasStack b" "isRunInScheduler b" by blast
  have sf: "s \<noteq> f" using w(5) assms(3) by auto
  have nf: "control t \<noteq> FiberCode g" if "isTask t g" for g
    using that assms(2) codeOf_task[OF that] w(5) by auto
  have saved: "savedCtx t f = FiberCode f" using w(9)[OF assms(3) nf[OF assms(3)]] .
  have t': "t' = t\<lparr>curFiber := Some f, fibers := (fibers t)(f \<mapsto> b\<lparr>fstate := RUNNING\<rparr>),
      savedCtx := (savedCtx t)(s := control t), control := FiberCode f\<rparr>"
    using assms(4) b w(1) sf saved
    by (auto simp: fiberResume_def baseFiber_def setState_def swapcontext_def andThen_eq_Inr myAssert_eq_Inr Let_def)
  show "control t' = FiberCode f" "curFiber t' = Some f" by (simp_all add: t')
  show "fiber_inv s m t'"
    by (rule fiber_inv_update[OF assms(1,3), where b="b\<lparr>fstate := RUNNING\<rparr>"])
      (use b nf w(5) assms(2) in \<open>auto simp: t'\<close>)
qed

lemma leave_inv:
  assumes "fiber_inv s m t" and "control t = FiberCode f" and "isTask t f" and "fibers t f = Some b"
    and "t' = swapcontext f s (setState f b' (t\<lparr>curFiber := threadMain t\<rparr>))"
    and "hasStack b'" "isRunInScheduler b'" "fstate b' \<noteq> RUNNING"
  shows "fiber_inv s m t'" and "control t' = codeOf t s"
proof -
  note w = fiber_invD[OF assms(1)]
  have sf: "s \<noteq> f" using w(5) assms(3) by auto
  have ne: "control t \<noteq> codeOf t s" using codeOf_task[OF assms(3), of s] sf assms(2) by auto
  with w(10) have saved: "savedCtx t s = codeOf t s" by blast
  have t': "t' = t\<lparr>curFiber := threadMain t, fibers := (fibers t)(f \<mapsto> b'),
      savedCtx := (savedCtx t)(f := FiberCode f), control := codeOf t s\<rparr>"
    using assms(2,5) sf saved by (simp add: setState_def swapcontext_def)
  have nf: "codeOf t s \<noteq> FiberCode g" if "isTask t g" for g using codeOf_task[OF that, of s] that w(5) by auto
  show "control t' = codeOf t s" by (simp add: t')
  show "fiber_inv s m t'"
    by (rule fiber_inv_update[OF assms(1,3), where b=b']) (use assms(1-4,6-8) nf in \<open>auto simp: t'\<close>)
qed

lemma yield_inv:
  assumes "fiber_inv s m t" and "control t = FiberCode f" and "isTask t f" and "fiberYield f t = Inr t'"
  shows "fiber_inv s m t'" and "control t' = codeOf t s"
proof -
  note w = fiber_invD[OF assms(1)]
  from task_fiber[OF assms(3)] obtain b where b: "fibers t f = Some b" "hasStack b" "isRunInScheduler b" by blast
  then have run: "fstate b = RUNNING" using w(8)[OF assms(3)] assms(2) by blast
  have "t' = swapcontext f s (setState f (b\<lparr>fstate := READY\<rparr>) (t\<lparr>curFiber := threadMain t\<rparr>))"
    using assms(4) b run w(1)
    by (auto simp: fiberYield_def baseFiber_def setState_def andThen_eq_Inr Let_def)
  from leave_inv[OF assms(1-3) b(1) this] b(2,3) show "fiber_inv s m t'" "control t' = codeOf t s" by simp_all
qed

lemma finish_inv:
  assumes "fiber_inv s m t" and "control t = FiberCode f" and "isTask t f" and "fiberFinish f t = Inr t'"
  shows "fiber_inv s m t'" and "control t' = codeOf t s"
proof -
  note w = fiber_invD[OF assms(1)]
  from task_fiber[OF assms(3)] obtain b where b: "fibers t f = Some b" "hasStack b" "isRunInScheduler b" by blast
  have "t' = swapcontext f s (setState f (b\<lparr>fiberCb := None, fstate := TERMINATED\<rparr>) (t\<lparr>curFiber := threadMain t\<rparr>))"
    using assms(4) b w(1)
    by (auto simp: fiberFinish_def fiberYield_def baseFiber_def setState_def andThen_eq_Inr Let_def)
  from leave_inv[OF assms(1-3) b(1) this] b(2,3) show "fiber_inv s m t'" "control t' = codeOf t s" by simp_all
qed

lemma reset_inv:
  assumes "fiber_inv s m t" and "isTask t f" and "fiberReset f cb t = Inr t'"
  shows "fiber_inv s m t'"
proof -
  note w = fiber_invD[OF assms(1)]
  from task_fiber[OF assms(2)] obtain b where b: "fibers t f = Some b" "hasStack b" "isRunInScheduler b" by blast
  have sf: "s \<noteq> f" using w(5) assms(2) by auto
  have t': "fstate b = TERMINATED" "t' = t\<lparr>fibers := (fibers t)(f \<mapsto> b\<lparr>fiberCb := Some cb, fstate := READY\<rparr>),
      savedCtx := (savedCtx t)(f := FiberCode f)\<rparr>"
    using assms(3) b by (auto simp: fiberReset_def setState_def andThen_eq_Inr myAssert_eq_Inr)
  have nf: "control t \<noteq> FiberCode f" using w(8)[OF assms(2) b(1)] t'(1) by auto
  show ?thesis
    by (rule fiber_inv_update[OF assms(1,2), where b="b\<lparr>fiberCb := Some cb, fstate := READY\<rparr>"])
      (use b nf sf in \<open>auto simp: t'(2)\<close>)
qed

lemma destroy_inv:
  assumes "fiber_inv s m t" and "isTask t f" and "control t \<noteq> FiberCode f" and "fiberDestroy f t = Inr t'"
  shows "fiber_inv s m t'"
proof -
  note w = fiber_invD[OF assms(1)]
  from task_fiber[OF assms(2)] obtain b where b: "fibers t f = Some b" "hasStack b" by blast
  have t': "t' = t\<lparr>fibers := (fibers t)(f := None)\<rparr>"
    using assms(4) b by (auto simp: fiberDestroy_def andThen_eq_Inr)
  have sf: "s \<noteq> f" using w(5) assms(2) by auto
  have task: "isTask t' g = (g \<noteq> f \<and> isTask t g)" "codeOf t' s = codeOf t s" for g
    using sf by (simp_all add: t' isTask_def codeOf_def)
  show ?thesis
    unfolding fiber_inv_def
  proof (intro conjI allI impI)
    show "g < nextFiberId t'" if "fibers t' g = Some c" for g c
      using that w(7)[of g c] by (auto simp: t' split: if_splits)
    show "fstate c = RUNNING \<longleftrightarrow> control t' = FiberCode g" if "isTask t' g" "fibers t' g = Some c" for g c
      using that w(8)[of g c] by (auto simp: task(1)) (simp_all add: t')
    show "savedCtx t' g = FiberCode g" if "isTask t' g" "control t' \<noteq> FiberCode g" for g
      using that w(9)[of g] unfolding task(1) by (simp add: t')
    have "control t' = control t" "curFiber t' = curFiber t" "savedCtx t' = savedCtx t" by (simp_all add: t')
    then show "control t' = codeOf t' s \<or>
      (\<exists>f. control t' = FiberCode f \<and> isTask t' f \<and> curFiber t' = Some f \<and> savedCtx t' s = codeOf t' s)"
      using w(10) assms(3) by (auto simp: task)
  qed (use w(1-6) sf in \<open>simp_all add: t' isTask_def\<close>)
qed

lemma fiberStep_inv:
  assumes "fiber_inv s m t" and "fiberStep t t'"
  shows "fiber_inv s m t'"
proof (rule fiberStepE[OF assms(2)], goal_cases)
  case (1 cb f)
  from make_inv[OF assms(1) this] show ?case .
next
  case (2 f cb)
  from reset_inv[OF assms(1) this] show ?case .
next
  case (3 f)
  from destroy_inv[OF assms(1) this] show ?case .
next
  case (4 s' f)
  then have "s' = s" using fiber_invD(1)[OF assms(1)] by simp
  with 4 resume_inv(1)[OF assms(1)] show ?case by blast
next
  case (5 f)
  from yield_inv(1)[OF assms(1) this] show ?case .
next
  case (6 f)
  from finish_inv(1)[OF assms(1) this] show ?case .
qed

section \<open>Threads\<close>

lemma poolThread_inv: "fiber_inv n n (poolThread n garbage)" "control (poolThread n garbage) = ThreadCode"
  by (auto simp: fiber_inv_def poolThread_def fiberGetThis_def newMainFiber_def newThread_def isTask_def codeOf_def Let_def)

lemma callerThread_inv:
  "\<exists>t. callerThread n garbage cb = Inr t \<and> fiber_inv (Suc n) n t \<and> control t = FiberCode (Suc n)"
  by (auto simp: fiber_inv_def callerThread_def fiberGetThis_def newMainFiber_def newThread_def newFiber_def
      fiberResume_def baseFiber_def setState_def swapcontext_def isTask_def codeOf_def Let_def)

lemma threadInit_wf: "threadInit t \<Longrightarrow> fiber_wf t"
  using poolThread_inv callerThread_inv unfolding threadInit_def fiber_wf_def by (metis sum.inject(2))

interpretation fiberThread: invariant_of threadInit fiberStep fiber_wf
  by unfold_locales (auto intro: threadInit_wf, auto simp: fiber_wf_def dest: fiberStep_inv)

lemma resume_returns:
  assumes "fiber_inv s m t" and "isTask t f" and "fibers t f = Some b" and "fstate b = READY" and "control t = codeOf t s"
  shows "\<exists>t'. fiberResume f t = Inr t' \<and> control t' = FiberCode f \<and> curFiber t' = Some f"
proof -
  have "isRunInScheduler b" using assms(2,3) by (simp add: isTask_iff)
  then obtain t' where "fiberResume f t = Inr t'"
    using assms(3,4) fiber_invD(1)[OF assms(1)] by (simp add: fiberResume_def baseFiber_def setState_def Let_def)
  with resume_inv(2,3)[OF assms(1,5,2)] show ?thesis by blast
qed

lemma leave_returns:
  assumes "fiber_inv s m t" and "isTask t f" and "control t = FiberCode f"
  shows "\<exists>t1 t2. fiberYield f t = Inr t1 \<and> control t1 = codeOf t s \<and> fiberFinish f t = Inr t2 \<and> control t2 = codeOf t s"
proof -
  from task_fiber[OF assms(2)] obtain b where b: "fibers t f = Some b" "isRunInScheduler b" by blast
  then have "fstate b = RUNNING" using fiber_invD(8)[OF assms(1,2)] assms(3) by blast
  then obtain t1 t2 where "fiberYield f t = Inr t1" "fiberFinish f t = Inr t2"
    using b fiber_invD(1)[OF assms(1)]
    by (simp add: fiberYield_def fiberFinish_def baseFiber_def setState_def Let_def)
  with yield_inv(2)[OF assms(1,3,2)] finish_inv(2)[OF assms(1,3,2)] show ?thesis by blast
qed

text \<open>C22: in every state a thread of the scheduler can reach, the state fields of its task fibers tell the
  truth: a task is \<open>RUNNING\<close> exactly if its code executes, so at most one is; and no switch fails: the
  scheduler can resume every task that is \<open>READY\<close> - which then is current and in control - and the
  task in control can yield or end, which gives control back to the scheduling fiber.\<close>

theorem fiber_states_true:
  assumes "reach threadInit fiberStep t"
  shows "\<exists>s. schedFiber t = Some s \<and>
    (\<forall>f b. isTask t f \<and> fibers t f = Some b \<longrightarrow> (fstate b = RUNNING \<longleftrightarrow> control t = FiberCode f)) \<and>
    (\<forall>f b. isTask t f \<and> fibers t f = Some b \<and> fstate b = READY \<and> control t = codeOf t s \<longrightarrow>
      (\<exists>t'. fiberResume f t = Inr t' \<and> control t' = FiberCode f \<and> curFiber t' = Some f)) \<and>
    (\<forall>f. isTask t f \<and> control t = FiberCode f \<longrightarrow>
      (\<exists>t1 t2. fiberYield f t = Inr t1 \<and> control t1 = codeOf t s \<and> fiberFinish f t = Inr t2 \<and> control t2 = codeOf t s))"
proof -
  from fiberThread.reach_inv[OF assms] obtain s m where inv: "fiber_inv s m t" by (auto simp: fiber_wf_def)
  show ?thesis
    using fiber_invD(1,8)[OF inv] resume_returns[OF inv] leave_returns[OF inv] by blast
qed

theorem fiber_states_true_witness:
  "\<exists>t s f t'. newFiber ''job'' True (poolThread 0 False) = (f, t) \<and> schedFiber t = Some s \<and>
    fiberResume f t = Inr t' \<and> control t' = FiberCode f \<and> curFiber t' = Some f"
proof -
  obtain f t where nf: "newFiber ''job'' True (poolThread 0 False) = (f, t)" by fastforce
  have "threadInit (poolThread 0 False :: string fiberThread)" unfolding threadInit_def by blast
  then have "reach threadInit fiberStep t"
    using reach_step[OF reach_init, where step=fiberStep] fiberStep.make[OF nf] by blast
  note P = fiber_states_true[OF this]
  have "isTask t f" "\<exists>b. fibers t f = Some b \<and> fstate b = READY"
    using nf by (auto simp: newFiber_def isTask_def Let_def)
  moreover have "schedFiber t = Some s \<Longrightarrow> control t = codeOf t s" for s
    using nf by (auto simp: newFiber_def poolThread_def fiberGetThis_def newMainFiber_def newThread_def codeOf_def Let_def)
  ultimately show ?thesis using P nf by blast
qed

end
