(* ===== verification/Scheduler.thy ===== *)
theory Scheduler
  imports FiberTheorems
begin

text \<open>
  The scheduler of \<^verbatim>\<open>src/fiber/scheduler.cpp\<close>: a queue of tasks, each a fiber or a callback, some bound
  to a thread, and the loop that every thread executes.  \<open>runLoop\<close> is the loop of one thread whose
  callbacks run to their end (they may schedule further callbacks): \<open>body c\<close> lists the callbacks that
  \<open>c\<close> schedules.
\<close>

section \<open>State\<close>

record 'c schedulerTask =
  taskFiber :: "nat option"
  taskCb :: "'c option"
  taskThread :: int

record 'c scheduler =
  tasks :: "'c schedulerTask list"
  threadPool :: "int list" \<comment> \<open>the threads of the pool, by their ids\<close>
  threadIds :: "int list"
  isStopped :: bool
  threadCnt :: nat
  activeThreadCnt :: nat
  idleThreadCnt :: nat
  isUserCaller :: bool
  rootThreadId :: int

definition newScheduler :: "nat \<Rightarrow> bool \<Rightarrow> int \<Rightarrow> 'c scheduler res" where
  "newScheduler cnt useCaller tid =
     andThen (myAssert (cnt > 0)) (\<lambda>_. Inr
       \<lparr>tasks = [], threadPool = [], threadIds = (if useCaller then [tid] else []), isStopped = False,
        threadCnt = (if useCaller then cnt - 1 else cnt), activeThreadCnt = 0, idleThreadCnt = 0,
        isUserCaller = useCaller, rootThreadId = (if useCaller then tid else -1)\<rparr>)"

definition schedule :: "'c schedulerTask \<Rightarrow> 'c scheduler \<Rightarrow> bool \<times> 'c scheduler" where
  \<comment> \<open>\<open>scheduler(task)\<close> with \<open>isNeedTrickle\<close>; the flag: the idle threads are woken\<close>
  "schedule t s =
     (tasks s = [], if taskFiber t \<noteq> None \<or> taskCb t \<noteq> None then s\<lparr>tasks := tasks s @ [t]\<rparr> else s)"

definition cbTask :: "'c \<Rightarrow> 'c schedulerTask" where
  "cbTask cb = \<lparr>taskFiber = None, taskCb = Some cb, taskThread = -1\<rparr>"

definition fiberTask :: "nat option \<Rightarrow> 'c schedulerTask" where
  "fiberTask f = \<lparr>taskFiber = f, taskCb = None, taskThread = -1\<rparr>"

definition schedulerStart :: "int list \<Rightarrow> 'c scheduler \<Rightarrow> 'c scheduler" where
  \<comment> \<open>the argument: the ids the new threads get\<close>
  "schedulerStart tids s =
     (if isStopped s \<or> threadPool s \<noteq> [] then s
      else s\<lparr>threadPool := take (threadCnt s) tids, threadIds := threadIds s @ take (threadCnt s) tids\<rparr>)"

definition schedulerStopping :: "'c scheduler \<Rightarrow> bool" where
  "schedulerStopping s \<longleftrightarrow> isStopped s \<and> activeThreadCnt s = 0 \<and> tasks s = []"

text \<open>\<open>stop\<close> up to the joins, for a thread whose scheduler is this one (\<open>mine\<close>) or not; the number of
  wake-ups it sends, and whether the root fiber is resumed.\<close>

definition schedulerStop :: "bool \<Rightarrow> 'c scheduler \<Rightarrow> (nat \<times> bool \<times> 'c scheduler) res" where
  "schedulerStop mine s =
     (if schedulerStopping s then Inr (0, False, s)
      else
        let s1 = s\<lparr>isStopped := True\<rparr>
        in andThen (myAssert (if isUserCaller s1 then mine else \<not> mine)) (\<lambda>_.
             Inr (threadCnt s1 + (if isUserCaller s1 then 1 else 0), isUserCaller s1, s1\<lparr>threadPool := []\<rparr>)))"

section \<open>The loop of a thread\<close>

text \<open>The search of the queue: tasks bound to other threads are skipped, and make the thread wake the
  others; so does a queue that is not searched to its end.\<close>

fun pickTask :: "int \<Rightarrow> (nat \<rightharpoonup> 'c fiber) \<Rightarrow> 'c schedulerTask list
    \<Rightarrow> ('c schedulerTask option \<times> 'c schedulerTask list \<times> bool) res" where
  "pickTask tid fs [] = Inr (None, [], False)"
| "pickTask tid fs (t # ts) =
     (if taskThread t \<noteq> -1 \<and> taskThread t \<noteq> tid
      then andThen (pickTask tid fs ts) (\<lambda>(r, ts', _). Inr (r, t # ts', True))
      else
        andThen (myAssert (taskFiber t \<noteq> None \<or> taskCb t \<noteq> None)) (\<lambda>_.
        andThen (case taskFiber t of
                   None \<Rightarrow> Inr ()
                 | Some f \<Rightarrow> andThen (derefOpt (fs f)) (\<lambda>b. myAssert (fstate b = READY))) (\<lambda>_.
          Inr (Some t, ts, ts \<noteq> []))))"

record 'c runner =
  sched :: "'c scheduler"
  thread :: "'c fiberThread"
  idleFiber :: nat

text \<open>A fiber that is resumed and runs its callback to the end: the callback schedules others, then
  \<open>mainFunc\<close> ends the fiber and control is back in the loop.\<close>

definition runFiber :: "('c \<Rightarrow> 'c list) \<Rightarrow> nat \<Rightarrow> 'c runner \<Rightarrow> ('c list \<times> 'c runner) res" where
  "runFiber body f r =
     andThen (fiberResume f (thread r)) (\<lambda>t1.
     andThen (derefOpt (fibers t1 f)) (\<lambda>b.
     andThen (derefOpt (fiberCb b)) (\<lambda>cb.
     let s1 = fold (\<lambda>c s. snd (schedule (cbTask c) s)) (body cb) (sched r)
     in andThen (fiberFinish f t1) (\<lambda>t2. Inr ([cb], r\<lparr>sched := s1, thread := t2\<rparr>)))))"

text \<open>The idle fiber of the base class: \<^verbatim>\<open>while(!stopping()) yield()\<close>, one resumption.\<close>

definition runIdle :: "'c runner \<Rightarrow> 'c runner res" where
  "runIdle r =
     andThen (fiberResume (idleFiber r) (thread r)) (\<lambda>t1.
     andThen (if schedulerStopping (sched r) then fiberFinish (idleFiber r) t1
              else fiberYield (idleFiber r) t1) (\<lambda>t2. Inr (r\<lparr>thread := t2\<rparr>)))"

definition setActive :: "nat \<Rightarrow> 'c runner \<Rightarrow> 'c runner" where
  "setActive n r = r\<lparr>sched := (sched r)\<lparr>activeThreadCnt := n\<rparr>\<rparr>"

definition setIdle :: "nat \<Rightarrow> 'c runner \<Rightarrow> 'c runner" where
  "setIdle n r = r\<lparr>sched := (sched r)\<lparr>idleThreadCnt := n\<rparr>\<rparr>"

text \<open>One round: \<open>None\<close> when the loop is left.  The fiber for callbacks is released after every use, so it
  is always made anew, and it is destroyed at its end.\<close>

definition runRound :: "('c \<Rightarrow> 'c list) \<Rightarrow> int \<Rightarrow> 'c runner \<Rightarrow> ('c list \<times> 'c runner) option res" where
  "runRound body tid r =
     andThen (pickTask tid (fibers (thread r)) (tasks (sched r))) (\<lambda>(task, ts, _).
     case task of
       Some t \<Rightarrow>
         let r1 = setActive (Suc (activeThreadCnt (sched r))) (r\<lparr>sched := (sched r)\<lparr>tasks := ts\<rparr>\<rparr>)
         in (case taskFiber t of
               Some f \<Rightarrow> andThen (runFiber body f r1) (\<lambda>(cs, r2).
                 Inr (Some (cs, setActive (activeThreadCnt (sched r2) - 1) r2)))
             | None \<Rightarrow> andThen (derefOpt (taskCb t)) (\<lambda>cb.
                 case newFiber cb True (thread r1) of (f, t1) \<Rightarrow>
                   andThen (runFiber body f (r1\<lparr>thread := t1\<rparr>)) (\<lambda>(cs, r2).
                   andThen (fiberDestroy f (thread r2)) (\<lambda>t2.
                     Inr (Some (cs, setActive (activeThreadCnt (sched r2) - 1) (r2\<lparr>thread := t2\<rparr>)))))))
     | None \<Rightarrow>
         andThen (derefOpt (fibers (thread r) (idleFiber r))) (\<lambda>b.
           if fstate b = TERMINATED then Inr None
           else andThen (runIdle (setIdle (Suc (idleThreadCnt (sched r))) r)) (\<lambda>r1.
                  Inr (Some ([], setIdle (idleThreadCnt (sched r1) - 1) r1)))))"

fun runLoop :: "('c \<Rightarrow> 'c list) \<Rightarrow> int \<Rightarrow> nat \<Rightarrow> 'c runner \<Rightarrow> ('c list \<times> 'c runner) res" where
  "runLoop body tid 0 r = Inl NoReturn"
| "runLoop body tid (Suc n) r =
     andThen (runRound body tid r) (\<lambda>w. case w of
       None \<Rightarrow> Inr ([], r)
     | Some (cs, r1) \<Rightarrow> andThen (runLoop body tid n r1) (\<lambda>(cs', r2). Inr (cs @ cs', r2)))"

text \<open>The start of \<open>run\<close> on a thread: its idle fiber.\<close>

definition startRunner :: "'c \<Rightarrow> 'c fiberThread \<Rightarrow> 'c scheduler \<Rightarrow> 'c runner" where
  "startRunner idleCb t s =
     (case newFiber idleCb True t of (f, t1) \<Rightarrow> \<lparr>sched = s, thread = t1, idleFiber = f\<rparr>)"

end
