(* ===== verification/SchedulerTheorems.thy ===== *)
theory SchedulerTheorems
  imports Scheduler
begin

text \<open>
  The queue of the scheduler: what a thread takes from it, and that the loop of a stopped scheduler
  ends after executing everything that was scheduled, in the order it was scheduled.
\<close>

section \<open>Taking a task\<close>

lemma pickTask_first:
  assumes "pickTask tid fs ts = Inr (Some t, ts', w)"
  shows "\<exists>xs ys. ts = xs @ t # ys \<and> ts' = xs @ ys \<and> (\<forall>x\<in>set xs. taskThread x \<noteq> -1 \<and> taskThread x \<noteq> tid) \<and>
    (taskThread t = -1 \<or> taskThread t = tid) \<and> (w \<longleftrightarrow> xs @ ys \<noteq> [])"
  using assms
proof (induction ts arbitrary: ts' w)
  case (Cons x ts)
  show ?case
  proof (cases "taskThread x \<noteq> -1 \<and> taskThread x \<noteq> tid")
    case True
    with Cons.prems obtain ts'' w' where p: "pickTask tid fs ts = Inr (Some t, ts'', w')" "ts' = x # ts''" "w"
      by (auto simp: andThen_eq_Inr)
    from Cons.IH[OF p(1)] obtain xs ys where "ts = xs @ t # ys" "ts'' = xs @ ys"
      "\<forall>x\<in>set xs. taskThread x \<noteq> -1 \<and> taskThread x \<noteq> tid" "taskThread t = -1 \<or> taskThread t = tid" by blast
    with True p(2,3) show ?thesis by (intro exI[of _ "x # xs"] exI[of _ ys]) simp
  next
    case False
    with Cons.prems have "t = x" "ts' = ts" "w \<longleftrightarrow> ts \<noteq> []" by (auto simp: andThen_eq_Inr)
    with False show ?thesis by (intro exI[of _ "[]"] exI[of _ ts]) auto
  qed
qed simp

lemma pickTask_cb: "pickTask tid fs (cbTask c # ts) = Inr (Some (cbTask c), ts, ts \<noteq> [])"
  by (simp add: cbTask_def)

lemma cbTask_fields [simp]: "taskFiber (cbTask c) = None" "taskCb (cbTask c) = Some c" "taskThread (cbTask c) = -1"
  by (simp_all add: cbTask_def)

lemma schedule_all:
  "fold (\<lambda>c s. snd (schedule (cbTask c) s)) cs s = s\<lparr>tasks := tasks s @ map cbTask cs\<rparr>"
  by (induction cs arbitrary: s) (simp_all add: schedule_def)

section \<open>One round\<close>

lemma resume_fibers:
  assumes "fiberResume f t = Inr t'" and "fibers t f = Some b"
  shows "fibers t' = (fibers t)(f \<mapsto> b\<lparr>fstate := RUNNING\<rparr>)" and "nextFiberId t' = nextFiberId t"
  using assms by (auto simp: fiberResume_def setState_def swapcontext_def andThen_eq_Inr Let_def)

lemma finish_fibers:
  assumes "fiberFinish f t = Inr t'" and "fibers t f = Some b"
  shows "fibers t' = (fibers t)(f \<mapsto> b\<lparr>fiberCb := None, fstate := TERMINATED\<rparr>)" and "nextFiberId t' = nextFiberId t"
  using assms by (auto simp: fiberFinish_def fiberYield_def setState_def swapcontext_def andThen_eq_Inr Let_def)

text \<open>A fiber that is resumed and ended: the effect on its thread.\<close>

lemma resume_finish:
  assumes "fiber_inv s m t" and "control t = codeOf t s" and "isTask t f" and "fibers t f = Some b"
    and "fstate b = READY"
  shows "\<exists>t1 t2. fiberResume f t = Inr t1 \<and> fibers t1 f = Some (b\<lparr>fstate := RUNNING\<rparr>) \<and> fiberFinish f t1 = Inr t2 \<and>
    fiber_inv s m t2 \<and> control t2 = codeOf t2 s \<and> nextFiberId t2 = nextFiberId t \<and>
    fibers t2 = (fibers t)(f \<mapsto> b\<lparr>fiberCb := None, fstate := TERMINATED\<rparr>)"
proof -
  from resume_returns[OF assms(1,3,4,5,2)] obtain t1 where t1: "fiberResume f t = Inr t1" "control t1 = FiberCode f" by blast
  note inv1 = resume_inv(1)[OF assms(1,2,3) t1(1)]
  note r = resume_fibers[OF t1(1) assms(4)]
  have task1: "isTask t1 f" using assms(3,4) r(1) by (simp add: isTask_def)
  have f1: "fibers t1 f = Some (b\<lparr>fstate := RUNNING\<rparr>)" using r(1) by simp
  from leave_returns[OF inv1 task1 t1(2)] obtain t2 where t2: "fiberFinish f t1 = Inr t2" "control t2 = codeOf t1 s" by blast
  note inv2 = finish_inv(1)[OF inv1 t1(2) task1 t2(1)]
  note e = finish_fibers[OF t2(1) f1]
  have "s \<noteq> f" using fiber_invD(5)[OF assms(1)] assms(3) by auto
  then have "codeOf t2 s = codeOf t1 s" using e(1) by (simp add: codeOf_def)
  moreover have "fibers t2 = (fibers t)(f \<mapsto> b\<lparr>fiberCb := None, fstate := TERMINATED\<rparr>)" using e(1) r(1) by simp
  ultimately show ?thesis using t1 t2 inv2 f1 e(2) r(2) by auto
qed

text \<open>The thread between two rounds.\<close>

definition loop_wf :: "nat \<Rightarrow> nat \<Rightarrow> 'c runner \<Rightarrow> bool" where
  "loop_wf s m r \<longleftrightarrow> fiber_inv s m (thread r) \<and> control (thread r) = codeOf (thread r) s \<and>
     isTask (thread r) (idleFiber r) \<and> (\<exists>b. fibers (thread r) (idleFiber r) = Some b \<and> fstate b = READY)"

lemma runRound_cb:
  assumes "loop_wf s m r" and "tasks (sched r) = cbTask c # ts"
  shows "\<exists>r'. runRound body tid r = Inr (Some ([c], r')) \<and> loop_wf s m r' \<and> idleFiber r' = idleFiber r \<and>
    sched r' = (sched r)\<lparr>tasks := ts @ map cbTask (body c)\<rparr>"
proof -
  let ?t = "thread r" and ?b = "\<lparr>fstate = READY, hasStack = True, fiberCb = Some c, isRunInScheduler = True\<rparr>"
  from assms(1) obtain bi where w: "fiber_inv s m ?t" "control ?t = codeOf ?t s" "isTask ?t (idleFiber r)"
    "fibers ?t (idleFiber r) = Some bi" "fstate bi = READY" by (auto simp: loop_wf_def)
  obtain f t1 where nf: "newFiber c True ?t = (f, t1)" by fastforce
  then have f1: "f = nextFiberId ?t" "fibers t1 = (fibers ?t)(f \<mapsto> ?b)" "control t1 = control ?t"
    by (auto simp: newFiber_def Let_def)
  note w7 = fiber_invD(7)[OF w(1)]
  have ne: "idleFiber r \<noteq> f" "s \<noteq> f" using w7[OF w(4)] fiber_invD(3)[OF w(1)] f1(1) by auto
  have task: "isTask t1 f" "control t1 = codeOf t1 s" "fibers t1 f = Some ?b"
    using f1 ne w(2) by (auto simp: isTask_def codeOf_def)
  have rdy: "fstate ?b = READY" by simp
  from resume_finish[OF make_inv[OF w(1) nf] task(2,1,3) rdy] obtain t2 t3 where
    t: "fiberResume f t1 = Inr t2" "fibers t2 f = Some (?b\<lparr>fstate := RUNNING\<rparr>)" "fiberFinish f t2 = Inr t3"
      "fiber_inv s m t3" "control t3 = codeOf t3 s"
      "fibers t3 = (fibers t1)(f \<mapsto> ?b\<lparr>fiberCb := None, fstate := TERMINATED\<rparr>)" by blast
  let ?t4 = "t3\<lparr>fibers := (fibers t3)(f := None)\<rparr>"
  have d: "fiberDestroy f t3 = Inr ?t4" by (simp add: fiberDestroy_def t(6))
  have task3: "isTask t3 f" "control t3 \<noteq> FiberCode f"
    using t(5,6) codeOf_task[of t3 f s] ne(2) by (auto simp: isTask_def)
  note inv4 = destroy_inv[OF t(4) task3 d]
  have "fibers ?t4 (idleFiber r) = Some bi" "codeOf ?t4 s = codeOf t3 s"
    using ne w(4) by (simp_all add: t(6) f1(2) codeOf_def)
  then have wf: "loop_wf s m \<lparr>sched = sc, thread = ?t4, idleFiber = idleFiber r\<rparr>" for sc
    using inv4 t(5) w(3,4,5) by (simp add: loop_wf_def isTask_def)
  let ?r' = "\<lparr>sched = (sched r)\<lparr>tasks := ts @ map cbTask (body c)\<rparr>, thread = ?t4, idleFiber = idleFiber r\<rparr>"
  have "runRound body tid r = Inr (Some ([c], ?r'))"
    using t d nf assms(2) pickTask_cb[of tid "fibers ?t" c ts]
    by (cases r; cases "sched r") (simp add: runRound_def runFiber_def setActive_def schedule_all Let_def)
  with wf show ?thesis by (intro exI[of _ ?r']) simp
qed

lemma runRound_last:
  assumes "loop_wf s m r" and "schedulerStopping (sched r)"
  shows "\<exists>r'. runRound body tid r = Inr (Some ([], r')) \<and> fiber_inv s m (thread r') \<and> sched r' = sched r \<and>
    runRound body tid r' = Inr None"
proof -
  let ?t = "thread r"
  from assms(1) obtain bi where w: "fiber_inv s m ?t" "control ?t = codeOf ?t s" "isTask ?t (idleFiber r)"
    "fibers ?t (idleFiber r) = Some bi" "fstate bi = READY" by (auto simp: loop_wf_def)
  from resume_finish[OF w] obtain t1 t2 where t: "fiberResume (idleFiber r) ?t = Inr t1"
    "fiberFinish (idleFiber r) t1 = Inr t2" "fiber_inv s m t2"
    "fibers t2 = (fibers ?t)(idleFiber r \<mapsto> bi\<lparr>fiberCb := None, fstate := TERMINATED\<rparr>)" by blast
  have st: "tasks (sched r) = []" using assms(2) by (simp add: schedulerStopping_def)
  let ?r = "r\<lparr>thread := t2\<rparr>"
  have stop: "schedulerStopping ((sched r)\<lparr>idleThreadCnt := n\<rparr>)" for n using assms(2) by (simp add: schedulerStopping_def)
  have "runRound body tid r = Inr (Some ([], ?r))"
    using st w(4,5) t(1,2) stop by (cases r; cases "sched r") (simp add: runRound_def runIdle_def setIdle_def)
  moreover have "runRound body tid ?r = Inr None" using st t(4) by (simp add: runRound_def)
  ultimately show ?thesis using t(3) by (intro exI[of _ ?r]) simp
qed

section \<open>The whole run\<close>

text \<open>C23: if every callback schedules only finitely many more (a weight decreases), the loop of a stopped
  scheduler ends: it executes each callback once, in the order they were scheduled - first those in
  the queue, then those the executed ones scheduled - makes and destroys a fiber for each without
  a failing assertion, and leaves with an empty queue and an ended idle fiber.\<close>

theorem stopped_run_ends:
  assumes "loop_wf s m r" and "isStopped (sched r)" and "activeThreadCnt (sched r) = 0"
    and "tasks (sched r) = map cbTask cs" and weight: "\<forall>c. sum_list (map weight (body c)) < (weight c :: nat)"
  shows "\<exists>n done r'. runLoop body tid n r = Inr (done, r') \<and> done = cs @ concat (map body done) \<and>
    schedulerStopping (sched r') \<and> fiber_inv s m (thread r') \<and> idleThreadCnt (sched r') = idleThreadCnt (sched r)"
  using assms(1-4)
proof (induction "sum_list (map weight cs)" arbitrary: cs r rule: less_induct)
  case less
  show ?case
  proof (cases cs)
    case Nil
    then have "schedulerStopping (sched r)" using less.prems(2-4) by (simp add: schedulerStopping_def)
    with runRound_last[OF less.prems(1) this, of body tid] obtain r' where
      r': "runRound body tid r = Inr (Some ([], r'))" "fiber_inv s m (thread r')" "sched r' = sched r"
        "runRound body tid r' = Inr None" "schedulerStopping (sched r)" by blast
    then have "runLoop body tid (Suc (Suc 0)) r = Inr ([], r')" by simp
    with r' Nil show ?thesis by (intro exI[of _ "Suc (Suc 0)"] exI[of _ "[]"] exI[of _ r']) simp
  next
    case (Cons c cs')
    with less.prems(4) have "tasks (sched r) = cbTask c # map cbTask cs'" by simp
    from runRound_cb[OF less.prems(1) this, of body tid] obtain r1 where
      r1: "runRound body tid r = Inr (Some ([c], r1))" "loop_wf s m r1"
        "sched r1 = (sched r)\<lparr>tasks := map cbTask (cs' @ body c)\<rparr>" by auto
    have lt: "sum_list (map weight (cs' @ body c)) < sum_list (map weight cs)"
      using weight Cons by simp
    have "isStopped (sched r1)" "activeThreadCnt (sched r1) = 0" "tasks (sched r1) = map cbTask (cs' @ body c)"
      using r1(3) less.prems(2,3) by simp_all
    from less.hyps[OF lt r1(2) this] obtain n log r' where
      n: "runLoop body tid n r1 = Inr (log, r')" "log = (cs' @ body c) @ concat (map body log)"
        "schedulerStopping (sched r')" "fiber_inv s m (thread r')"
        "idleThreadCnt (sched r') = idleThreadCnt (sched r1)" by blast
    have "runLoop body tid (Suc n) r = Inr (c # log, r')" using r1(1) n(1) by simp
    moreover have "c # log = cs @ concat (map body (c # log))" using n(2) Cons by simp
    moreover have "idleThreadCnt (sched r') = idleThreadCnt (sched r)" using n(5) r1(3) by simp
    ultimately show ?thesis using n(3,4) by blast
  qed
qed

definition sampleBody :: "string \<Rightarrow> string list" where
  "sampleBody c = (if c = ''ab'' then [''a'', ''b''] else [])"

theorem stopped_run_ends_witness:
  "\<exists>n r r'. runLoop sampleBody 7 n r = Inr ([''ab'', ''c'', ''a'', ''b''], r') \<and> schedulerStopping (sched r')"
proof -
  obtain f t where nf: "newFiber ''idle'' True (poolThread 0 False) = (f, t)" by fastforce
  define r where "r = \<lparr>sched = \<lparr>tasks = map cbTask [''ab'', ''c''], threadPool = [], threadIds = [], isStopped = True,
      threadCnt = 1, activeThreadCnt = 0, idleThreadCnt = 0, isUserCaller = False, rootThreadId = -1\<rparr>,
      thread = t, idleFiber = f\<rparr>"
  have "fiber_inv 0 0 t" using make_inv[OF poolThread_inv(1) nf] .
  moreover have "control t = codeOf t 0" "isTask t f" "\<exists>b. fibers t f = Some b \<and> fstate b = READY"
    using nf by (auto simp: newFiber_def poolThread_def fiberGetThis_def newMainFiber_def newThread_def codeOf_def
        isTask_def Let_def)
  ultimately have wf: "loop_wf 0 0 r" by (simp add: loop_wf_def r_def)
  have st: "isStopped (sched r)" "activeThreadCnt (sched r) = 0" "tasks (sched r) = map cbTask [''ab'', ''c'']"
    by (simp_all add: r_def)
  have w: "\<forall>c. sum_list (map (\<lambda>c. if c = ''ab'' then 3 else 1 :: nat) (sampleBody c)) < (if c = ''ab'' then 3 else 1)"
    by (simp add: sampleBody_def)
  from stopped_run_ends[OF wf st w, of 7] obtain n log r' where
    e: "runLoop sampleBody 7 n r = Inr (log, r')" "schedulerStopping (sched r')"
      "log = [''ab'', ''c''] @ concat (map sampleBody log)" by blast
  obtain l1 where l1: "log = ''ab'' # ''c'' # l1" using e(3) by simp
  define l2 where "l2 = concat (map sampleBody l1)"
  have l1': "l1 = ''a'' # ''b'' # l2" using e(3) l1 by (simp add: sampleBody_def l2_def)
  have "\<forall>c\<in>set l2. c = ''a'' \<or> c = ''b''" by (auto simp: l2_def sampleBody_def split: if_splits)
  then have none: "concat (map sampleBody l2) = []" by (auto simp: sampleBody_def)
  have "l2 = concat (map sampleBody (''a'' # ''b'' # l2))" by (subst l2_def) (simp only: l1')
  also have "\<dots> = concat (map sampleBody l2)" by (simp add: sampleBody_def)
  also note none
  finally have "l2 = []" .
  then show ?thesis using e(1,2) l1 l1' by (intro exI[of _ n] exI[of _ r] exI[of _ r']) simp
qed

end
