(* ===== verification/IoManager.thy ===== *)
theory IoManager
  imports SchedulerTheorems TimerTheorems
begin

text \<open>
  The event manager of \<^verbatim>\<open>src/fiber/io_manager.cpp\<close>: a scheduler and a timer manager with, for every file
  descriptor, the events its fibers wait for.  The bit sets of \<open>enum Event\<close> are sets.  The kernel's
  side of epoll is a table of what is registered under a descriptor; \<^verbatim>\<open>epoll_ctl\<close> fails as its manual
  page says (adding what is there, changing what is not), and may fail otherwise, which is an argument.
  Contexts are objects in a store, because epoll keeps pointers to them.
\<close>

section \<open>State\<close>

datatype event = READ | WRITE

record 'c eventContext =
  ecScheduler :: bool \<comment> \<open>a scheduler is set\<close>
  ecFiber :: "nat option"
  ecCb :: "'c option"

record 'c fdContext =
  readCtx :: "'c eventContext"
  writeCtx :: "'c eventContext"
  fcFd :: int
  fcEvents :: "event set"

record 'c ioManager =
  iomSched :: "'c scheduler"
  iomTimers :: "'c timerManager"
  fdContexts :: "nat list"
  ctxStore :: "nat \<rightharpoonup> 'c fdContext"
  nextCtx :: nat
  epollReg :: "int \<rightharpoonup> event set \<times> nat"
  pendingEventCnt :: "64 word"
  pipeBytes :: nat

definition noContext :: "'c eventContext" where
  "noContext = \<lparr>ecScheduler = False, ecFiber = None, ecCb = None\<rparr>"

definition newFdContext :: "int \<Rightarrow> 'c fdContext" where
  "newFdContext fd = \<lparr>readCtx = noContext, writeCtx = noContext, fcFd = fd, fcEvents = {}\<rparr>"

datatype epollOp = CtlAdd | CtlMod | CtlDel

definition epollCtl :: "bool \<Rightarrow> epollOp \<Rightarrow> int \<Rightarrow> event set \<Rightarrow> nat \<Rightarrow> (int \<rightharpoonup> event set \<times> nat)
    \<Rightarrow> (int \<rightharpoonup> event set \<times> nat) option" where
  "epollCtl ok op fd evs p reg =
     (if \<not> ok \<or> (op = CtlAdd \<longleftrightarrow> reg fd \<noteq> None) then None
      else Some (reg(fd := (if op = CtlDel then None else Some (evs, p)))))"

section \<open>Contexts\<close>

definition getContext :: "event \<Rightarrow> 'c fdContext \<Rightarrow> 'c eventContext" where
  "getContext e fc = (case e of READ \<Rightarrow> readCtx fc | WRITE \<Rightarrow> writeCtx fc)"

definition setContext :: "event \<Rightarrow> 'c eventContext \<Rightarrow> 'c fdContext \<Rightarrow> 'c fdContext" where
  "setContext e c fc = (case e of READ \<Rightarrow> fc\<lparr>readCtx := c\<rparr> | WRITE \<Rightarrow> fc\<lparr>writeCtx := c\<rparr>)"

definition resetContext :: "event \<Rightarrow> 'c fdContext \<Rightarrow> 'c fdContext" where
  "resetContext e fc = setContext e noContext fc"

definition trickle :: "'c ioManager \<Rightarrow> 'c ioManager" where
  \<comment> \<open>a byte into the pipe wakes a thread in \<^verbatim>\<open>epoll_wait\<close>\<close>
  "trickle m = (if \<not> (idleThreadCnt (iomSched m) > 0) then m else m\<lparr>pipeBytes := Suc (pipeBytes m)\<rparr>)"

definition iomSchedule :: "'c schedulerTask \<Rightarrow> 'c ioManager \<Rightarrow> 'c ioManager" where
  "iomSchedule t m =
     (case schedule t (iomSched m) of (wake, s) \<Rightarrow>
        let m1 = m\<lparr>iomSched := s\<rparr> in if wake then trickle m1 else m1)"

text \<open>\<open>addTimer\<close> of the timer manager with the manager's own \<open>OnTimerInsertedAtFront\<close>.\<close>

definition iomAddTimer :: "nat \<Rightarrow> 64 word \<Rightarrow> 64 word \<Rightarrow> 'c \<Rightarrow> bool \<Rightarrow> 'c ioManager \<Rightarrow> 'c ioManager" where
  "iomAddTimer p now ms cb is_repeat m =
     (case addTimer p now ms cb is_repeat (iomTimers m) of (at_front, tm) \<Rightarrow>
        let m1 = m\<lparr>iomTimers := tm\<rparr> in if at_front then trickle m1 else m1)"

definition triggerEvent :: "nat \<Rightarrow> event \<Rightarrow> 'c ioManager \<Rightarrow> 'c ioManager res" where
  "triggerEvent p e m =
     andThen (derefOpt (ctxStore m p)) (\<lambda>fc.
       if e \<notin> fcEvents fc then Inr m
       else
         let fc1 = fc\<lparr>fcEvents := fcEvents fc - {e}\<rparr>; ctx = getContext e fc1
         in andThen (if ecScheduler ctx then Inr () else Inl BadAccess) (\<lambda>_.
            let m1 = iomSchedule (case ecCb ctx of Some cb \<Rightarrow> cbTask cb | None \<Rightarrow> fiberTask (ecFiber ctx)) m
            in Inr (m1\<lparr>ctxStore := (ctxStore m1)(p \<mapsto> resetContext e fc1)\<rparr>)))"

definition contextResize :: "nat \<Rightarrow> 'c ioManager \<Rightarrow> 'c ioManager" where
  \<comment> \<open>cut off, or filled up with new contexts\<close>
  "contextResize n m =
     (let old = take n (fdContexts m);
          fresh = [nextCtx m ..< nextCtx m + (n - length old)]
      in m\<lparr>fdContexts := old @ fresh, nextCtx := nextCtx m + (n - length old),
           ctxStore := (\<lambda>p. if p \<in> set fresh then Some (newFdContext (int (length old + (p - nextCtx m))))
                            else ctxStore m p)\<rparr>)"

text \<open>The context of a descriptor; a negative number is larger than every size.\<close>

definition findContext :: "int \<Rightarrow> 'c ioManager \<Rightarrow> nat option res" where
  "findContext fd m =
     (if fd < 0 \<or> fd \<ge> int (length (fdContexts m)) then Inr None
      else andThen (vecGet (fdContexts m) fd) (\<lambda>p. Inr (Some p)))"

section \<open>Operations\<close>

text \<open>\<open>addEvent\<close>: \<open>self\<close> is the current fiber with its state.  Converting \<open>fd * 1.5\<close> to a size is
  undefined for a negative \<open>fd\<close>.\<close>

definition addEvent :: "bool \<Rightarrow> nat \<times> fiberState \<Rightarrow> int \<Rightarrow> event \<Rightarrow> 'c option \<Rightarrow> 'c ioManager \<Rightarrow> (int \<times> 'c ioManager) res" where
  "addEvent ok self fd e cb m =
     andThen (findContext fd m) (\<lambda>found.
     andThen (case found of
                Some _ \<Rightarrow> Inr m
              | None \<Rightarrow> if fd < 0 then Inl BadAccess else Inr (contextResize (nat (fd + fd div 2)) m)) (\<lambda>m1.
     andThen (vecGet (fdContexts m1) fd) (\<lambda>p.
     andThen (derefOpt (ctxStore m1 p)) (\<lambda>fc.
     andThen (myAssert (e \<notin> fcEvents fc)) (\<lambda>_.
       case epollCtl ok (if fcEvents fc \<noteq> {} then CtlMod else CtlAdd) fd (insert e (fcEvents fc)) p (epollReg m1) of
         None \<Rightarrow> Inr (-1, m1)
       | Some reg \<Rightarrow>
           andThen (case cb of Some _ \<Rightarrow> Inr () | None \<Rightarrow> myAssert (snd self = RUNNING)) (\<lambda>_.
           let ctx = (getContext e fc)\<lparr>ecScheduler := True\<rparr>;
               ctx1 = (case cb of Some c \<Rightarrow> ctx\<lparr>ecCb := Some c\<rparr> | None \<Rightarrow> ctx\<lparr>ecFiber := Some (fst self)\<rparr>);
               fc1 = setContext e ctx1 (fc\<lparr>fcEvents := insert e (fcEvents fc)\<rparr>)
           in Inr (0, m1\<lparr>epollReg := reg, pendingEventCnt := pendingEventCnt m1 + 1,
                         ctxStore := (ctxStore m1)(p \<mapsto> fc1)\<rparr>)))))))"

text \<open>\<open>delEvent\<close> and \<open>cancelEvent\<close> up to their last lines.\<close>

definition unregister :: "bool \<Rightarrow> int \<Rightarrow> event \<Rightarrow> 'c ioManager \<Rightarrow> (nat \<times> 'c fdContext \<times> 'c ioManager) option res" where
  "unregister ok fd e m =
     andThen (findContext fd m) (\<lambda>found. case found of
       None \<Rightarrow> Inr None
     | Some p \<Rightarrow> andThen (derefOpt (ctxStore m p)) (\<lambda>fc.
         if e \<notin> fcEvents fc then Inr None
         else
           let newEvents = fcEvents fc - {e}
           in (case epollCtl ok (if newEvents \<noteq> {} then CtlMod else CtlDel) fd newEvents p (epollReg m) of
                 None \<Rightarrow> Inr None
               | Some reg \<Rightarrow> Inr (Some (p, fc, m\<lparr>epollReg := reg\<rparr>)))))"

definition delEvent :: "bool \<Rightarrow> int \<Rightarrow> event \<Rightarrow> 'c ioManager \<Rightarrow> (bool \<times> 'c ioManager) res" where
  "delEvent ok fd e m =
     andThen (unregister ok fd e m) (\<lambda>u. Inr (case u of
       None \<Rightarrow> (False, m)
     | Some (p, fc, m1) \<Rightarrow>
         (True, m1\<lparr>pendingEventCnt := pendingEventCnt m1 - 1,
                   ctxStore := (ctxStore m1)(p \<mapsto> resetContext e (fc\<lparr>fcEvents := fcEvents fc - {e}\<rparr>))\<rparr>)))"

definition cancelEvent :: "bool \<Rightarrow> int \<Rightarrow> event \<Rightarrow> 'c ioManager \<Rightarrow> (bool \<times> 'c ioManager) res" where
  "cancelEvent ok fd e m =
     andThen (unregister ok fd e m) (\<lambda>u. case u of
       None \<Rightarrow> Inr (False, m)
     | Some (p, fc, m1) \<Rightarrow> andThen (triggerEvent p e m1) (\<lambda>m2.
         Inr (True, m2\<lparr>pendingEventCnt := pendingEventCnt m2 - 1\<rparr>)))"

definition triggerIf :: "bool \<Rightarrow> nat \<Rightarrow> event \<Rightarrow> 'c ioManager \<Rightarrow> 'c ioManager res" where
  \<comment> \<open>\<open>triggerEvent\<close> and the decrement behind it, under the condition before it\<close>
  "triggerIf c p e m =
     (if c then andThen (triggerEvent p e m) (\<lambda>m1. Inr (m1\<lparr>pendingEventCnt := pendingEventCnt m1 - 1\<rparr>)) else Inr m)"

definition cancelAll :: "bool \<Rightarrow> int \<Rightarrow> 'c ioManager \<Rightarrow> (bool \<times> 'c ioManager) res" where
  "cancelAll ok fd m =
     andThen (findContext fd m) (\<lambda>found. case found of
       None \<Rightarrow> Inr (False, m)
     | Some p \<Rightarrow> andThen (derefOpt (ctxStore m p)) (\<lambda>fc.
         if fcEvents fc = {} then Inr (False, m)
         else (case epollCtl ok CtlDel fd {} p (epollReg m) of
                 None \<Rightarrow> Inr (False, m)
               | Some reg \<Rightarrow>
                   andThen (triggerIf (READ \<in> fcEvents fc) p READ (m\<lparr>epollReg := reg\<rparr>)) (\<lambda>m1.
                   andThen (triggerIf (WRITE \<in> fcEvents fc) p WRITE m1) (\<lambda>m2.
                   andThen (derefOpt (ctxStore m2 p)) (\<lambda>fc2.
                   andThen (myAssert (fcEvents fc2 = {})) (\<lambda>_. Inr (True, m2))))))))"

section \<open>The idle fiber\<close>

text \<open>What \<^verbatim>\<open>epoll_wait\<close> reports for a context: readable, writable, error or hang-up.\<close>

record report =
  rpEvents :: "event set"
  rpError :: bool

definition handleReport :: "bool \<Rightarrow> nat \<Rightarrow> report \<Rightarrow> 'c ioManager \<Rightarrow> 'c ioManager res" where
  "handleReport ok p rp m =
     andThen (derefOpt (ctxStore m p)) (\<lambda>fc.
       let realEvents = (if rpError rp then fcEvents fc else rpEvents rp)
       in if realEvents = {} \<or> fcEvents fc \<inter> realEvents = {} then Inr m
          else
            let leftEvents = fcEvents fc - realEvents
            in (case epollCtl ok (if leftEvents \<noteq> {} then CtlMod else CtlDel) (fcFd fc) leftEvents p (epollReg m) of
                  None \<Rightarrow> Inr m
                | Some reg \<Rightarrow>
                    andThen (triggerIf (READ \<in> realEvents) p READ (m\<lparr>epollReg := reg\<rparr>)) (\<lambda>m1.
                      triggerIf (WRITE \<in> realEvents) p WRITE m1)))"

text \<open>The argument of \<^verbatim>\<open>epoll_wait\<close>: the time to the next timer is converted to \<^verbatim>\<open>int\<close> before it is
  compared with the maximum of five seconds.\<close>

definition epollTimeout :: "64 word \<Rightarrow> int" where
  "epollTimeout next_timeout =
     (if next_timeout \<noteq> - 1 then min (sint (ucast next_timeout :: 32 word)) 5000 else 5000)"

definition scheduleExpired :: "64 word \<Rightarrow> nat \<Rightarrow> 'c ioManager \<Rightarrow> 'c ioManager res" where
  "scheduleExpired now q m =
     andThen (listExpiredCb now q (iomTimers m)) (\<lambda>(cbs, tm).
       Inr (fold (\<lambda>cb m. iomSchedule \<lparr>taskFiber = None, taskCb = cb, taskThread = -1\<rparr> m) cbs (m\<lparr>iomTimers := tm\<rparr>)))"

definition idleWake ::
  "64 word \<Rightarrow> nat \<Rightarrow> (bool \<times> nat \<times> report) option list \<Rightarrow> 'c ioManager \<Rightarrow> 'c ioManager res" where
  \<comment> \<open>one wake-up of \<open>idle\<close>: the expired timers, then every report; the pipe (\<open>None\<close>) is emptied\<close>
  "idleWake now q reports m =
     andThen (scheduleExpired now q m) (\<lambda>m1.
       foldR (\<lambda>x m. case x of None \<Rightarrow> Inr (m\<lparr>pipeBytes := 0\<rparr>)
                            | Some (ok, p, rp) \<Rightarrow> handleReport ok p rp m) reports m1)"

definition iomStopping :: "64 word \<Rightarrow> 'c ioManager \<Rightarrow> (bool \<times> 64 word \<times> 'c ioManager) res" where
  "iomStopping now m =
     andThen (getNextTimer now (iomTimers m)) (\<lambda>(timeout, tm).
       Inr (timeout = - 1 \<and> pendingEventCnt m = 0 \<and> schedulerStopping (iomSched m), timeout, m\<lparr>iomTimers := tm\<rparr>))"

definition newIoManager :: "64 word \<Rightarrow> 'c scheduler \<Rightarrow> 'c ioManager" where
  \<comment> \<open>the constructor, its pipe and epoll calls taken to succeed\<close>
  "newIoManager now s = contextResize 32
     \<lparr>iomSched = s, iomTimers = newTimerManager now, fdContexts = [], ctxStore = Map.empty, nextCtx = 0,
      epollReg = Map.empty, pendingEventCnt = 0, pipeBytes = 0\<rparr>"

end
