(* ===== verification/IoTheorems.thy ===== *)
theory IoTheorems
  imports IoManager
begin

text \<open>
  The bookkeeping of the event manager: its contexts, its table in the kernel and its counter of
  pending events agree after every operation, as long as the kernel reports only what is registered.
\<close>

section \<open>The invariant\<close>

text \<open>An event that is registered has somebody to wake, any other has an empty context.\<close>

definition ctx_ok :: "'c fdContext \<Rightarrow> bool" where
  "ctx_ok fc \<longleftrightarrow> (\<forall>e. if e \<in> fcEvents fc
     then ecScheduler (getContext e fc) \<and> (ecFiber (getContext e fc) \<noteq> None \<or> ecCb (getContext e fc) \<noteq> None)
     else getContext e fc = noContext)"

definition eventCount :: "'c ioManager \<Rightarrow> nat \<Rightarrow> nat" where
  "eventCount m p = (case ctxStore m p of None \<Rightarrow> 0 | Some fc \<Rightarrow> card (fcEvents fc))"

definition registration :: "'c fdContext \<Rightarrow> nat \<Rightarrow> (event set \<times> nat) option" where
  "registration fc p = (if fcEvents fc = {} then None else Some (fcEvents fc, p))"

definition slot_ok :: "'c ioManager \<Rightarrow> nat \<Rightarrow> nat \<Rightarrow> bool" where
  "slot_ok m i p \<longleftrightarrow> (\<exists>fc. ctxStore m p = Some fc \<and> fcFd fc = int i \<and> ctx_ok fc \<and> epollReg m (int i) = registration fc p)"

definition iom_wf :: "'c ioManager \<Rightarrow> bool" where
  "iom_wf m \<longleftrightarrow> distinct (fdContexts m) \<and> 2 \<le> length (fdContexts m) \<and> (\<forall>p\<in>set (fdContexts m). p < nextCtx m) \<and>
     (\<forall>i<length (fdContexts m). slot_ok m i (fdContexts m ! i)) \<and>
     (\<forall>fd. fd < 0 \<or> int (length (fdContexts m)) \<le> fd \<longrightarrow> epollReg m fd = None) \<and>
     pendingEventCnt m = of_nat (\<Sum>p\<in>set (fdContexts m). eventCount m p)"

lemma iom_wfD:
  assumes "iom_wf m"
  shows "distinct (fdContexts m)" "2 \<le> length (fdContexts m)" "p \<in> set (fdContexts m) \<Longrightarrow> p < nextCtx m"
    "i < length (fdContexts m) \<Longrightarrow> slot_ok m i (fdContexts m ! i)"
    "fd < 0 \<or> int (length (fdContexts m)) \<le> fd \<Longrightarrow> epollReg m fd = None"
    "pendingEventCnt m = of_nat (\<Sum>p\<in>set (fdContexts m). eventCount m p)"
  using assms by (auto simp: iom_wf_def)

lemma event_finite [simp]: "finite (E :: event set)"
proof (rule finite_subset)
  show "E \<subseteq> {READ, WRITE}" using event.exhaust by auto
qed simp

lemma event_set: "E = (if READ \<in> E then {READ} else {}) \<union> (if WRITE \<in> E then {WRITE} else {})"
proof (rule set_eqI)
  fix e show "e \<in> E \<longleftrightarrow> e \<in> (if READ \<in> E then {READ} else {}) \<union> (if WRITE \<in> E then {WRITE} else {})"
    by (cases e) simp_all
qed

lemma iom_wf_cong:
  "fdContexts m' = fdContexts m \<Longrightarrow> ctxStore m' = ctxStore m \<Longrightarrow> nextCtx m' = nextCtx m \<Longrightarrow>
   epollReg m' = epollReg m \<Longrightarrow> pendingEventCnt m' = pendingEventCnt m \<Longrightarrow> iom_wf m' = iom_wf m"
  by (simp add: iom_wf_def slot_ok_def eventCount_def)

text \<open>The context of one descriptor changes, with its registration and the counter.\<close>

lemma iom_wf_update:
  assumes "iom_wf m" and i: "i < length (fdContexts m)" "p = fdContexts m ! i" "ctxStore m p = Some fc"
    and new: "fcFd fc' = fcFd fc" "ctx_ok fc'" "ctxStore m' = (ctxStore m)(p \<mapsto> fc')"
      "epollReg m' = (epollReg m)(int i := registration fc' p)"
      "pendingEventCnt m' + of_nat (card (fcEvents fc)) = pendingEventCnt m + of_nat (card (fcEvents fc'))"
    and same: "fdContexts m' = fdContexts m" "nextCtx m' = nextCtx m"
  shows "iom_wf m'"
proof -
  note w = iom_wfD[OF assms(1)]
  have inj: "j = i" if "j < length (fdContexts m)" "fdContexts m ! j = p" for j
    using that i w(1) by (simp add: nth_eq_iff_index_eq)
  have slots: "slot_ok m' j (fdContexts m ! j)" if j: "j < length (fdContexts m)" for j
  proof (cases "j = i")
    case True
    then show ?thesis using w(4)[OF j] i(2,3) new(1-4) by (auto simp: slot_ok_def)
  next
    case False
    then show ?thesis using w(4)[OF j] inj[OF j] new(3,4) by (auto simp: slot_ok_def)
  qed
  have pin: "p \<in> set (fdContexts m)" using i by simp
  have cnt: "(\<Sum>x\<in>set (fdContexts m). eventCount m' x) + card (fcEvents fc)
      = (\<Sum>x\<in>set (fdContexts m). eventCount m x) + card (fcEvents fc')"
  proof -
    have rest: "(\<Sum>x\<in>set (fdContexts m) - {p}. eventCount m' x) = (\<Sum>x\<in>set (fdContexts m) - {p}. eventCount m x)"
      by (rule sum.cong) (simp_all add: eventCount_def new(3))
    have "eventCount m' p = card (fcEvents fc')" "eventCount m p = card (fcEvents fc)"
      by (simp_all add: eventCount_def new(3) i(3))
    then show ?thesis
      using sum.remove[OF finite_set pin, of "eventCount m'"] sum.remove[OF finite_set pin, of "eventCount m"] rest
      by simp
  qed
  have "pendingEventCnt m' = of_nat (\<Sum>x\<in>set (fdContexts m). eventCount m' x)"
    using arg_cong[OF cnt, of "of_nat :: nat \<Rightarrow> 64 word"] new(5) w(6) by (simp only: of_nat_add) (metis add_right_cancel)
  then show ?thesis
    using w(1-3,5) slots same new(4) i(1) by (auto simp: iom_wf_def)
qed

section \<open>Finding and resizing\<close>

lemma findContext_eq:
  "findContext fd m = Inr (if fd < 0 \<or> int (length (fdContexts m)) \<le> fd then None else Some (fdContexts m ! nat fd))"
  by (simp add: findContext_def vecGet_in_range)

lemma newFdContext_ok: "ctx_ok (newFdContext fd)"
  by (auto simp: ctx_ok_def newFdContext_def getContext_def split: event.split)

lemma contextResize_wf:
  assumes "iom_wf m" and "length (fdContexts m) \<le> n"
  shows "iom_wf (contextResize n m)" and "length (fdContexts (contextResize n m)) = n"
    and "pendingEventCnt (contextResize n m) = pendingEventCnt m"
proof -
  note w = iom_wfD[OF assms(1)]
  let ?m = "contextResize n m" and ?k = "length (fdContexts m)"
  let ?fresh = "[nextCtx m ..< nextCtx m + (n - ?k)]"
  have f: "fdContexts ?m = fdContexts m @ ?fresh" "nextCtx ?m = nextCtx m + (n - ?k)" "epollReg ?m = epollReg m"
    "pendingEventCnt ?m = pendingEventCnt m"
    using assms(2) by (simp_all add: contextResize_def Let_def)
  have old: "ctxStore ?m p = ctxStore m p" if "p \<in> set (fdContexts m)" for p
    using w(3)[OF that] assms(2) by (simp add: contextResize_def Let_def)
  have fresh: "ctxStore ?m (nextCtx m + j) = Some (newFdContext (int (?k + j)))" if "j < n - ?k" for j
    using that assms(2) by (simp add: contextResize_def Let_def) linarith
  show len: "length (fdContexts ?m) = n" using assms(2) by (simp add: f(1))
  show "pendingEventCnt ?m = pendingEventCnt m" by (rule f(4))
  have slots: "slot_ok ?m i (fdContexts ?m ! i)" if i: "i < n" for i
  proof (cases "i < ?k")
    case True
    with w(4)[OF True] old show ?thesis by (simp add: slot_ok_def f(1,3) nth_append)
  next
    case False
    then obtain j where j: "i = ?k + j" "j < n - ?k" using i by (metis add_diff_inverse_nat diff_less_mono not_less)
    have "epollReg ?m (int i) = None" using w(5)[of "int i"] False by (simp add: f(3))
    moreover have "fdContexts ?m ! i = nextCtx m + j" using j by (simp add: f(1) nth_append)
    ultimately show ?thesis
      using fresh[OF j(2)] j(1) newFdContext_ok[of "int i"] by (simp add: slot_ok_def registration_def newFdContext_def)
  qed
  have "eventCount ?m p = 0" if "p \<in> set ?fresh" for p
    using fresh[of "p - nextCtx m"] that by (auto simp: eventCount_def newFdContext_def)
  moreover have disj: "set (fdContexts m) \<inter> set ?fresh = {}" using w(3) by (fastforce dest: w(3))
  moreover have "(\<Sum>p\<in>set (fdContexts m). eventCount ?m p) = (\<Sum>p\<in>set (fdContexts m). eventCount m p)"
    by (rule sum.cong) (simp_all add: eventCount_def old)
  ultimately have "(\<Sum>p\<in>set (fdContexts ?m). eventCount ?m p) = (\<Sum>p\<in>set (fdContexts m). eventCount m p)"
    by (simp add: f(1) sum.union_disjoint del: set_upt)
  moreover have "distinct (fdContexts ?m)" using w(1) disj by (simp add: f(1) del: set_upt)
  moreover have "\<forall>p\<in>set (fdContexts ?m). p < nextCtx ?m" using w(3) by (auto simp: f(1,2) trans_less_add1)
  ultimately show "iom_wf ?m" using slots w(2,5,6) assms(2) len by (auto simp: iom_wf_def f(3,4))
qed

lemma contextResize_new:
  assumes "length (fdContexts m) \<le> i" and "i < n"
  shows "ctxStore (contextResize n m) (fdContexts (contextResize n m) ! i) = Some (newFdContext (int i))"
    and "iomSched (contextResize n m) = iomSched m"
  using assms by (auto simp: contextResize_def nth_append Let_def)

section \<open>Waking\<close>

lemma iomSchedule_fields [simp]:
  "iomTimers (iomSchedule t m) = iomTimers m" "fdContexts (iomSchedule t m) = fdContexts m"
  "ctxStore (iomSchedule t m) = ctxStore m" "nextCtx (iomSchedule t m) = nextCtx m"
  "epollReg (iomSchedule t m) = epollReg m" "pendingEventCnt (iomSchedule t m) = pendingEventCnt m"
  by (simp_all add: iomSchedule_def schedule_def trickle_def Let_def)

lemma iomSchedule_tasks:
  "taskFiber t \<noteq> None \<or> taskCb t \<noteq> None \<Longrightarrow> tasks (iomSched (iomSchedule t m)) = tasks (iomSched m) @ [t]"
  by (simp add: iomSchedule_def schedule_def trickle_def Let_def)

lemma getContext_set: "getContext e (setContext e' c fc) = (if e = e' then c else getContext e fc)"
  by (cases e; cases e') (simp_all add: getContext_def setContext_def)

lemma setContext_fields [simp]: "fcEvents (setContext e c fc) = fcEvents fc" "fcFd (setContext e c fc) = fcFd fc"
  by (cases e; simp add: setContext_def)+

lemma getContext_events [simp]: "getContext e (fc\<lparr>fcEvents := E\<rparr>) = getContext e fc"
  by (cases e) (simp_all add: getContext_def)

text \<open>The task that an event's context stands for.\<close>

definition wakeTask :: "event \<Rightarrow> 'c fdContext \<Rightarrow> 'c schedulerTask" where
  "wakeTask e fc = (case ecCb (getContext e fc) of Some cb \<Rightarrow> cbTask cb | None \<Rightarrow> fiberTask (ecFiber (getContext e fc)))"

definition afterEvent :: "event \<Rightarrow> 'c fdContext \<Rightarrow> 'c fdContext" where
  "afterEvent e fc = resetContext e (fc\<lparr>fcEvents := fcEvents fc - {e}\<rparr>)"

lemma ctx_okD:
  assumes "ctx_ok fc"
  shows "e \<in> fcEvents fc \<Longrightarrow> ecScheduler (getContext e fc)"
    "e \<in> fcEvents fc \<Longrightarrow> ecFiber (getContext e fc) \<noteq> None \<or> ecCb (getContext e fc) \<noteq> None"
    "e \<notin> fcEvents fc \<Longrightarrow> getContext e fc = noContext"
  using assms[unfolded ctx_ok_def, THEN spec, of e] by (simp_all split: if_splits)

lemma ctx_okI:
  assumes "\<And>e. e \<in> fcEvents fc \<Longrightarrow>
      ecScheduler (getContext e fc) \<and> (ecFiber (getContext e fc) \<noteq> None \<or> ecCb (getContext e fc) \<noteq> None)"
    and "\<And>e. e \<notin> fcEvents fc \<Longrightarrow> getContext e fc = noContext"
  shows "ctx_ok fc"
  unfolding ctx_ok_def using assms by presburger

lemma afterEvent_get: "getContext e' (afterEvent e fc) = (if e' = e then noContext else getContext e' fc)"
  by (simp add: afterEvent_def resetContext_def getContext_set)

lemma afterEvent_facts:
  assumes "ctx_ok fc"
  shows "fcEvents (afterEvent e fc) = fcEvents fc - {e}" "fcFd (afterEvent e fc) = fcFd fc" "ctx_ok (afterEvent e fc)"
    "e' \<noteq> e \<Longrightarrow> wakeTask e' (afterEvent e fc) = wakeTask e' fc"
proof -
  show ev: "fcEvents (afterEvent e fc) = fcEvents fc - {e}" and "fcFd (afterEvent e fc) = fcFd fc"
    by (simp_all add: afterEvent_def resetContext_def)
  show "ctx_ok (afterEvent e fc)"
  proof (rule ctx_okI)
    fix e' assume "e' \<in> fcEvents (afterEvent e fc)"
    then have "e' \<in> fcEvents fc" "e' \<noteq> e" by (simp_all add: ev)
    then show "ecScheduler (getContext e' (afterEvent e fc)) \<and>
        (ecFiber (getContext e' (afterEvent e fc)) \<noteq> None \<or> ecCb (getContext e' (afterEvent e fc)) \<noteq> None)"
      using ctx_okD(1,2)[OF assms, of e'] by (simp add: afterEvent_get)
  next
    fix e' assume "e' \<notin> fcEvents (afterEvent e fc)"
    then show "getContext e' (afterEvent e fc) = noContext"
      using ctx_okD(3)[OF assms, of e'] by (auto simp: ev afterEvent_get)
  qed
  show "e' \<noteq> e \<Longrightarrow> wakeTask e' (afterEvent e fc) = wakeTask e' fc" by (simp add: wakeTask_def afterEvent_get cong: option.case_cong)
qed

lemma triggerEvent_eq:
  assumes "ctxStore m p = Some fc" and "ctx_ok fc" and "e \<in> fcEvents fc"
  shows "triggerEvent p e m = Inr ((iomSchedule (wakeTask e fc) m)\<lparr>ctxStore := (ctxStore m)(p \<mapsto> afterEvent e fc)\<rparr>)"
    and "tasks (iomSched (iomSchedule (wakeTask e fc) m)) = tasks (iomSched m) @ [wakeTask e fc]"
proof -
  have ok: "ecScheduler (getContext e fc)" "ecFiber (getContext e fc) \<noteq> None \<or> ecCb (getContext e fc) \<noteq> None"
    using ctx_okD[OF assms(2)] assms(3) by blast+
  have "taskFiber (wakeTask e fc) \<noteq> None \<or> taskCb (wakeTask e fc) \<noteq> None"
    using ok(2) by (auto simp: wakeTask_def cbTask_def fiberTask_def split: option.split)
  then show "tasks (iomSched (iomSchedule (wakeTask e fc) m)) = tasks (iomSched m) @ [wakeTask e fc]"
    by (rule iomSchedule_tasks)
  show "triggerEvent p e m = Inr ((iomSchedule (wakeTask e fc) m)\<lparr>ctxStore := (ctxStore m)(p \<mapsto> afterEvent e fc)\<rparr>)"
    using assms(1,3) ok(1) by (simp add: triggerEvent_def wakeTask_def afterEvent_def Let_def cong: option.case_cong)
qed

lemma triggerIf_form:
  assumes "ctxStore m p = Some fc" and "ctx_ok fc" and "c \<Longrightarrow> e \<in> fcEvents fc"
  shows "\<exists>m'. triggerIf c p e m = Inr m' \<and> fdContexts m' = fdContexts m \<and> nextCtx m' = nextCtx m \<and>
    epollReg m' = epollReg m \<and> pendingEventCnt m' = pendingEventCnt m - (if c then 1 else 0) \<and>
    ctxStore m' = (ctxStore m)(p \<mapsto> (if c then afterEvent e fc else fc)) \<and>
    tasks (iomSched m') = tasks (iomSched m) @ (if c then [wakeTask e fc] else [])"
proof (cases c)
  case True
  with triggerEvent_eq[OF assms(1,2)] assms(3) show ?thesis by (simp add: triggerIf_def)
next
  case False
  with assms(1) show ?thesis by (simp add: triggerIf_def fun_upd_idem)
qed

text \<open>Both events of a context, as in \<open>cancelAll\<close> and \<open>idle\<close>.\<close>

lemma triggerBoth_form:
  assumes "ctxStore m p = Some fc" and "ctx_ok fc" and "E \<subseteq> fcEvents fc"
  shows "\<exists>m' fc'. andThen (triggerIf (READ \<in> E) p READ m) (triggerIf (WRITE \<in> E) p WRITE) = Inr m' \<and>
    fdContexts m' = fdContexts m \<and> nextCtx m' = nextCtx m \<and> epollReg m' = epollReg m \<and>
    pendingEventCnt m' + of_nat (card E) = pendingEventCnt m \<and>
    ctxStore m' = (ctxStore m)(p \<mapsto> fc') \<and> ctx_ok fc' \<and> fcFd fc' = fcFd fc \<and> fcEvents fc' = fcEvents fc - E \<and>
    tasks (iomSched m') = tasks (iomSched m) @ (if READ \<in> E then [wakeTask READ fc] else []) @
      (if WRITE \<in> E then [wakeTask WRITE fc] else [])"
proof -
  let ?fc1 = "if READ \<in> E then afterEvent READ fc else fc"
  from triggerIf_form[OF assms(1,2), of "READ \<in> E" READ] assms(3) obtain m1 where
    m1: "triggerIf (READ \<in> E) p READ m = Inr m1" "fdContexts m1 = fdContexts m" "nextCtx m1 = nextCtx m"
      "epollReg m1 = epollReg m" "pendingEventCnt m1 = pendingEventCnt m - (if READ \<in> E then 1 else 0)"
      "ctxStore m1 = (ctxStore m)(p \<mapsto> ?fc1)"
      "tasks (iomSched m1) = tasks (iomSched m) @ (if READ \<in> E then [wakeTask READ fc] else [])" by blast
  have fc1: "ctxStore m1 p = Some ?fc1" "ctx_ok ?fc1" "fcEvents ?fc1 = fcEvents fc - (E \<inter> {READ})"
    "fcFd ?fc1 = fcFd fc" "wakeTask WRITE ?fc1 = wakeTask WRITE fc"
    using m1(6) afterEvent_facts[OF assms(2)] assms(2) by auto
  have wr: "WRITE \<in> E \<Longrightarrow> WRITE \<in> fcEvents ?fc1" using fc1(3) assms(3) by auto
  let ?fc2 = "if WRITE \<in> E then afterEvent WRITE ?fc1 else ?fc1"
  from triggerIf_form[OF fc1(1,2) wr] obtain m2 where
    m2: "triggerIf (WRITE \<in> E) p WRITE m1 = Inr m2" "fdContexts m2 = fdContexts m1" "nextCtx m2 = nextCtx m1"
      "epollReg m2 = epollReg m1" "pendingEventCnt m2 = pendingEventCnt m1 - (if WRITE \<in> E then 1 else 0)"
      "ctxStore m2 = (ctxStore m1)(p \<mapsto> ?fc2)"
      "tasks (iomSched m2) = tasks (iomSched m1) @ (if WRITE \<in> E then [wakeTask WRITE ?fc1] else [])" by blast
  have E: "E = (if READ \<in> E then {READ} else {}) \<union> (if WRITE \<in> E then {WRITE} else {})" by (rule event_set)
  have card: "card E = (if READ \<in> E then 1 else 0) + (if WRITE \<in> E then 1 else 0)"
    by (subst E) auto
  have ev2: "ctx_ok ?fc2" "fcFd ?fc2 = fcFd fc" using afterEvent_facts(2,3)[OF fc1(2)] fc1(2,4) by simp_all
  have "fcEvents ?fc2 = fcEvents fc - E \<inter> {READ} - E \<inter> {WRITE}"
    using afterEvent_facts(1)[OF fc1(2)] fc1(3) by auto
  also have "\<dots> = fcEvents fc - E" by (subst (3) E) auto
  finally have ev3: "fcEvents ?fc2 = fcEvents fc - E" .
  have "pendingEventCnt m2 + of_nat (card E) = pendingEventCnt m" by (simp add: card m1(5) m2(5))
  then show ?thesis
    using m1(1-4,7) m2(1-4,6,7) ev2 ev3 m1(6) fc1(5)
    by (intro exI[of _ m2] exI[of _ ?fc2]) simp
qed

section \<open>One descriptor\<close>

lemma iom_slot:
  assumes "iom_wf m" and "0 \<le> fd" and "fd < int (length (fdContexts m))"
  obtains p fc where "p = fdContexts m ! nat fd" "findContext fd m = Inr (Some p)" "ctxStore m p = Some fc"
    "fcFd fc = fd" "ctx_ok fc" "epollReg m fd = registration fc p"
proof -
  have "nat fd < length (fdContexts m)" using assms(2,3) by simp
  from iom_wfD(4)[OF assms(1) this] obtain fc where "ctxStore m (fdContexts m ! nat fd) = Some fc"
    "fcFd fc = fd" "ctx_ok fc" "epollReg m fd = registration fc (fdContexts m ! nat fd)"
    using assms(2) by (auto simp: slot_ok_def)
  then show thesis using that assms(2,3) by (simp add: findContext_eq)
qed

lemma iom_wf_at:
  assumes "iom_wf m" and "0 \<le> fd" "fd < int (length (fdContexts m))" "p = fdContexts m ! nat fd" "ctxStore m p = Some fc"
    and "fcFd fc' = fcFd fc" "ctx_ok fc'" "ctxStore m' = (ctxStore m)(p \<mapsto> fc')"
      "epollReg m' = (epollReg m)(fd := registration fc' p)"
      "pendingEventCnt m' + of_nat (card (fcEvents fc)) = pendingEventCnt m + of_nat (card (fcEvents fc'))"
    and "fdContexts m' = fdContexts m" "nextCtx m' = nextCtx m"
  shows "iom_wf m'"
  by (rule iom_wf_update[of m "nat fd" p fc fc' m']) (use assms in simp_all)

text \<open>What \<^verbatim>\<open>epoll_ctl\<close> answers when the registration is that of the context.\<close>

lemma epollCtl_add:
  "reg fd = registration fc p \<Longrightarrow>
   epollCtl ok (if fcEvents fc \<noteq> {} then CtlMod else CtlAdd) fd E p reg = (if ok then Some (reg(fd \<mapsto> (E, p))) else None)"
  by (simp add: epollCtl_def registration_def)

lemma epollCtl_remove:
  "reg fd = registration fc p \<Longrightarrow> fcEvents fc \<noteq> {} \<Longrightarrow> op \<noteq> CtlAdd \<Longrightarrow>
   epollCtl ok op fd E p reg = (if ok then Some (reg(fd := (if op = CtlDel then None else Some (E, p)))) else None)"
  by (simp add: epollCtl_def registration_def)

lemma card_remove1: "e \<in> E \<Longrightarrow> of_nat (card (E :: event set)) = (of_nat (card (E - {e})) :: 64 word) + 1"
proof -
  assume "e \<in> E"
  from card.remove[OF event_finite this] show ?thesis by (simp only: of_nat_Suc add.commute)
qed

section \<open>Adding an event\<close>

definition waiter :: "nat \<times> fiberState \<Rightarrow> 'c option \<Rightarrow> 'c schedulerTask" where
  "waiter self cb = (case cb of Some c \<Rightarrow> cbTask c | None \<Rightarrow> fiberTask (Some (fst self)))"

lemma addEvent_at:
  assumes wf: "iom_wf m" and fd: "0 \<le> fd" "fd < int (length (fdContexts m))"
    and p: "p = fdContexts m ! nat fd" "ctxStore m p = Some fc" and new: "e \<notin> fcEvents fc"
    and self: "cb = None \<Longrightarrow> snd self = RUNNING"
  shows "addEvent False self fd e cb m = Inr (-1, m)"
    and "\<exists>m' fc'. addEvent True self fd e cb m = Inr (0, m') \<and> iom_wf m' \<and> fdContexts m' = fdContexts m \<and>
      ctxStore m' p = Some fc' \<and> fcEvents fc' = insert e (fcEvents fc) \<and> wakeTask e fc' = waiter self cb \<and>
      iomSched m' = iomSched m"
proof -
  from iom_slot[OF wf fd] p have s: "findContext fd m = Inr (Some p)" "fcFd fc = fd" "ctx_ok fc"
    "epollReg m fd = registration fc p" by auto
  have v: "vecGet (fdContexts m) fd = Inr p" using fd p(1) by (simp add: vecGet_in_range)
  note ctl = epollCtl_add[of "epollReg m", OF s(4), of _ "insert e (fcEvents fc)"]
  show "addEvent False self fd e cb m = Inr (-1, m)"
    using new p(2) by (simp add: addEvent_def s(1) v ctl)
  let ?ctx = "(getContext e fc)\<lparr>ecScheduler := True\<rparr>"
  let ?ctx1 = "case cb of Some c \<Rightarrow> ?ctx\<lparr>ecCb := Some c\<rparr> | None \<Rightarrow> ?ctx\<lparr>ecFiber := Some (fst self)\<rparr>"
  let ?fc' = "setContext e ?ctx1 (fc\<lparr>fcEvents := insert e (fcEvents fc)\<rparr>)"
  let ?m' = "m\<lparr>epollReg := (epollReg m)(fd \<mapsto> (insert e (fcEvents fc), p)),
    pendingEventCnt := pendingEventCnt m + 1, ctxStore := (ctxStore m)(p \<mapsto> ?fc')\<rparr>"
  have "(case cb of Some _ \<Rightarrow> Inr () | None \<Rightarrow> myAssert (snd self = RUNNING)) = Inr ()"
    using self by (cases cb) simp_all
  then have eq: "addEvent True self fd e cb m = Inr (0, ?m')"
    using new p(2) by (simp add: addEvent_def s(1) v ctl Let_def)
  have old: "getContext e fc = noContext" by (rule ctx_okD(3)[OF s(3) new])
  have ok: "ctx_ok ?fc'"
  proof (rule ctx_okI)
    fix e' assume "e' \<in> fcEvents ?fc'"
    then have "e' = e \<or> e' \<in> fcEvents fc" by simp
    then show "ecScheduler (getContext e' ?fc') \<and> (ecFiber (getContext e' ?fc') \<noteq> None \<or> ecCb (getContext e' ?fc') \<noteq> None)"
      using ctx_okD(1,2)[OF s(3), of e'] by (cases cb) (auto simp: getContext_set)
  next
    fix e' assume "e' \<notin> fcEvents ?fc'"
    then show "getContext e' ?fc' = noContext" using ctx_okD(3)[OF s(3), of e'] by (auto simp: getContext_set)
  qed
  have wf': "iom_wf ?m'"
    by (rule iom_wf_at[OF wf fd p, of ?fc'])
       (use ok new in \<open>simp_all add: registration_def\<close>)
  have "wakeTask e ?fc' = waiter self cb"
    using old by (cases cb) (simp_all add: wakeTask_def waiter_def getContext_set noContext_def)
  with eq wf' show "\<exists>m' fc'. addEvent True self fd e cb m = Inr (0, m') \<and> iom_wf m' \<and> fdContexts m' = fdContexts m \<and>
      ctxStore m' p = Some fc' \<and> fcEvents fc' = insert e (fcEvents fc) \<and> wakeTask e fc' = waiter self cb \<and>
      iomSched m' = iomSched m"
    by (intro exI[of _ ?m'] exI[of _ ?fc']) simp
qed

lemma addEvent_resized:
  assumes wf: "iom_wf m" and "int (length (fdContexts m)) \<le> fd"
  defines "m1 \<equiv> contextResize (nat (fd + fd div 2)) m"
  shows "iom_wf m1" "fd < int (length (fdContexts m1))" "length (fdContexts m1) = nat (fd + fd div 2)"
    "addEvent ok self fd e cb m1 = addEvent ok self fd e cb m"
proof -
  have n: "length (fdContexts m) \<le> nat (fd + fd div 2)" "fd < int (nat (fd + fd div 2))"
    using assms(2) iom_wfD(2)[OF wf] by auto
  show "iom_wf m1" "length (fdContexts m1) = nat (fd + fd div 2)"
    unfolding m1_def by (rule contextResize_wf[OF wf n(1)])+
  then show in1: "fd < int (length (fdContexts m1))" using n(2) by simp
  show "addEvent ok self fd e cb m1 = addEvent ok self fd e cb m"
    using assms(2) in1 m1_def by (simp add: addEvent_def findContext_eq)
qed

lemma addEvent_wf:
  assumes wf: "iom_wf m" and add: "addEvent ok self fd e cb m = Inr (r, m')"
  shows "iom_wf m'" and "length (fdContexts m') \<le> max (length (fdContexts m)) (nat (fd + fd div 2))"
proof -
  have run: "iom_wf m' \<and> fdContexts m' = fdContexts m1"
    if w1: "iom_wf m1" and in1: "0 \<le> fd" "fd < int (length (fdContexts m1))"
      and a1: "addEvent ok self fd e cb m1 = Inr (r, m')" for m1
  proof -
    from iom_slot[OF w1 in1] obtain p fc where s: "p = fdContexts m1 ! nat fd" "findContext fd m1 = Inr (Some p)"
      "ctxStore m1 p = Some fc" "epollReg m1 fd = registration fc p" by metis
    note ctl = epollCtl_add[of "epollReg m1", OF s(4)]
    have v: "vecGet (fdContexts m1) fd = Inr p" using in1 s(1) by (simp add: vecGet_in_range)
    have new: "e \<notin> fcEvents fc" using a1 s(3) by (auto simp: addEvent_def s(2) v andThen_eq_Inr)
    have self: "snd self = RUNNING" if "cb = None" "ok"
      using a1 s(3) that by (auto simp: addEvent_def s(2) v ctl andThen_eq_Inr myAssert_def split: if_splits)
    show ?thesis
    proof (cases ok)
      case True
      with self have "cb = None \<Longrightarrow> snd self = RUNNING" by simp
      from addEvent_at(2)[OF w1 in1 s(1,3) new, of cb self, OF this] obtain m2 where
        "addEvent True self fd e cb m1 = Inr (0, m2)" "iom_wf m2" "fdContexts m2 = fdContexts m1" by blast
      with a1 True show ?thesis by simp
    next
      case False
      with new a1 s(3) have "m' = m1" by (simp add: addEvent_def s(2) v ctl)
      with w1 show ?thesis by simp
    qed
  qed
  have fd: "0 \<le> fd"
    using add by (rule_tac ccontr) (simp add: addEvent_def findContext_eq)
  have "iom_wf m' \<and> length (fdContexts m') \<le> max (length (fdContexts m)) (nat (fd + fd div 2))"
  proof (cases "fd < int (length (fdContexts m))")
    case True
    from run[OF wf fd True add] show ?thesis by simp
  next
    case False
    then have "int (length (fdContexts m)) \<le> fd" by simp
    note r = addEvent_resized[OF wf this]
    from run[OF r(1) fd r(2)] add r(3,4) show ?thesis by simp
  qed
  then show "iom_wf m'" "length (fdContexts m') \<le> max (length (fdContexts m)) (nat (fd + fd div 2))" by simp_all
qed

section \<open>Removing events\<close>

lemma unregister_some:
  assumes wf: "iom_wf m" and "unregister ok fd e m = Inr (Some (p, fc, m1))"
  shows "0 \<le> fd" "fd < int (length (fdContexts m))" "p = fdContexts m ! nat fd" "ctxStore m p = Some fc"
    "e \<in> fcEvents fc" "fcFd fc = fd" "ctx_ok fc"
    "m1 = m\<lparr>epollReg := (epollReg m)(fd := registration (afterEvent e fc) p)\<rparr>"
proof -
  note u = assms(2)[unfolded unregister_def findContext_eq]
  show fd: "0 \<le> fd" "fd < int (length (fdContexts m))"
    using u by (auto split: if_splits)
  from iom_slot[OF wf fd] obtain p' fc' where s: "p' = fdContexts m ! nat fd" "ctxStore m p' = Some fc'"
      "fcFd fc' = fd" "ctx_ok fc'" "epollReg m fd = registration fc' p'" "findContext fd m = Inr (Some p')" by metis
  have e: "e \<in> fcEvents fc'" using assms(2) s(2) by (simp add: unregister_def s(6) split: if_splits)
  then have "fcEvents fc' \<noteq> {}" by auto
  note ctl = epollCtl_remove[of "epollReg m", OF s(5) this]
  have reg: "registration (afterEvent e fc') p' = (if fcEvents fc' - {e} = {} then None else Some (fcEvents fc' - {e}, p'))"
    by (simp add: registration_def afterEvent_facts(1)[OF s(4)])
  have "unregister ok fd e m
      = Inr (if ok then Some (p', fc', m\<lparr>epollReg := (epollReg m)(fd := registration (afterEvent e fc') p')\<rparr>) else None)"
    using s(2) e by (simp add: unregister_def s(6) ctl reg Let_def)
  with assms(2) have eq: "p = p'" "fc = fc'" "m1 = m\<lparr>epollReg := (epollReg m)(fd := registration (afterEvent e fc') p')\<rparr>"
    by (auto split: if_splits)
  then show "p = fdContexts m ! nat fd" "ctxStore m p = Some fc" "e \<in> fcEvents fc" "fcFd fc = fd" "ctx_ok fc"
    "m1 = m\<lparr>epollReg := (epollReg m)(fd := registration (afterEvent e fc) p)\<rparr>" using s e by simp_all
qed

lemma delEvent_wf:
  assumes wf: "iom_wf m" and "delEvent ok fd e m = Inr (r, m')"
  shows "iom_wf m'"
proof -
  from assms(2) consider "m' = m" | p fc m1 where "unregister ok fd e m = Inr (Some (p, fc, m1))"
    "m' = m1\<lparr>pendingEventCnt := pendingEventCnt m1 - 1, ctxStore := (ctxStore m1)(p \<mapsto> afterEvent e fc)\<rparr>"
    by (auto simp: delEvent_def andThen_eq_Inr afterEvent_def split: option.splits)
  then show ?thesis
  proof cases
    case 2
    note u = unregister_some[OF wf 2(1)]
    show ?thesis
      by (rule iom_wf_at[OF wf u(1-4), of "afterEvent e fc"])
        (use 2(2) u(8) afterEvent_facts(1-3)[OF u(7)] card_remove1[OF u(5)] in simp_all)
  qed (use wf in simp)
qed

lemma unregister_at:
  assumes wf: "iom_wf m" and fd: "0 \<le> fd" "fd < int (length (fdContexts m))" "p = fdContexts m ! nat fd" "ctxStore m p = Some fc"
    and e: "e \<in> fcEvents fc"
  shows "\<exists>reg. unregister True fd e m = Inr (Some (p, fc, m\<lparr>epollReg := reg\<rparr>))"
proof -
  from iom_slot[OF wf fd(1,2)] fd(3,4) have s: "findContext fd m = Inr (Some p)" "epollReg m fd = registration fc p" by auto
  have "fcEvents fc \<noteq> {}" using e by auto
  note ctl = epollCtl_remove[of "epollReg m", OF s(2) this]
  show ?thesis using fd(4) e by (auto simp: unregister_def s(1) ctl Let_def)
qed

lemma cancelEvent_at:
  assumes wf: "iom_wf m" and fd: "0 \<le> fd" "fd < int (length (fdContexts m))" "p = fdContexts m ! nat fd" "ctxStore m p = Some fc"
    and e: "e \<in> fcEvents fc"
  shows "\<exists>m'. cancelEvent True fd e m = Inr (True, m') \<and> iomTimers m' = iomTimers m \<and>
    tasks (iomSched m') = tasks (iomSched m) @ [wakeTask e fc]"
proof -
  from unregister_at[OF assms] obtain reg where u: "unregister True fd e m = Inr (Some (p, fc, m\<lparr>epollReg := reg\<rparr>))" by blast
  have "ctxStore (m\<lparr>epollReg := reg\<rparr>) p = Some fc" using fd(4) by simp
  from iom_slot[OF wf fd(1,2)] fd(3,4) have "ctx_ok fc" by auto
  note t = triggerEvent_eq[OF \<open>ctxStore (m\<lparr>epollReg := reg\<rparr>) p = Some fc\<close> this e]
  show ?thesis using t by (simp add: cancelEvent_def u)
qed

lemma cancelEvent_wf:
  assumes wf: "iom_wf m" and "cancelEvent ok fd e m = Inr (r, m')"
  shows "iom_wf m'"
proof -
  from assms(2) consider "m' = m" | p fc m1 m2 where "unregister ok fd e m = Inr (Some (p, fc, m1))"
    "triggerIf True p e m1 = Inr m2" "m' = m2"
    by (auto simp: cancelEvent_def triggerIf_def andThen_eq_Inr split: option.splits)
  then show ?thesis
  proof cases
    case 2
    note u = unregister_some[OF wf 2(1)]
    from triggerIf_form[of m1 p fc True e] u(4,5,7,8) 2(2,3) have
      m': "fdContexts m' = fdContexts m" "nextCtx m' = nextCtx m" "epollReg m' = epollReg m1"
        "pendingEventCnt m' = pendingEventCnt m - 1" "ctxStore m' = (ctxStore m)(p \<mapsto> afterEvent e fc)" by auto
    show ?thesis
      by (rule iom_wf_at[OF wf u(1-4), of "afterEvent e fc"])
        (use m' u(8) afterEvent_facts(1-3)[OF u(7)] card_remove1[OF u(5)] in simp_all)
  qed (use wf in simp)
qed

text \<open>Events of one context leave together: after \<open>cancelAll\<close> and after a report.\<close>

lemma triggerBoth_wf:
  assumes wf: "iom_wf m" and fd: "0 \<le> fd" "fd < int (length (fdContexts m))" "p = fdContexts m ! nat fd" "ctxStore m p = Some fc"
    and ok: "fcFd fc = fd" "ctx_ok fc" and E: "E \<subseteq> fcEvents fc"
    and m1: "m1 = m\<lparr>epollReg := (epollReg m)(fd := (if fcEvents fc - E = {} then None else Some (fcEvents fc - E, p)))\<rparr>"
  shows "\<exists>m' fc'. andThen (triggerIf (READ \<in> E) p READ m1) (triggerIf (WRITE \<in> E) p WRITE) = Inr m' \<and> iom_wf m' \<and>
    fdContexts m' = fdContexts m \<and> ctxStore m' p = Some fc' \<and> fcEvents fc' = fcEvents fc - E \<and>
    tasks (iomSched m') = tasks (iomSched m) @ (if READ \<in> E then [wakeTask READ fc] else []) @
      (if WRITE \<in> E then [wakeTask WRITE fc] else [])"
proof -
  have "ctxStore m1 p = Some fc" using fd(4) m1 by simp
  from triggerBoth_form[OF this ok(2) E] obtain m' fc' where m':
    "andThen (triggerIf (READ \<in> E) p READ m1) (triggerIf (WRITE \<in> E) p WRITE) = Inr m'"
    "fdContexts m' = fdContexts m1" "nextCtx m' = nextCtx m1" "epollReg m' = epollReg m1"
    "pendingEventCnt m' + of_nat (card E) = pendingEventCnt m1" "ctxStore m' = (ctxStore m1)(p \<mapsto> fc')"
    "ctx_ok fc'" "fcFd fc' = fcFd fc" "fcEvents fc' = fcEvents fc - E"
    "tasks (iomSched m') = tasks (iomSched m1) @ (if READ \<in> E then [wakeTask READ fc] else []) @
      (if WRITE \<in> E then [wakeTask WRITE fc] else [])" by blast
  have "card (fcEvents fc) = card (fcEvents fc - E) + card E"
    using E by (simp add: card_Diff_subset card_mono)
  then have "of_nat (card (fcEvents fc)) = (of_nat (card (fcEvents fc - E)) + of_nat (card E) :: 64 word)"
    by (simp only: of_nat_add)
  then have "pendingEventCnt m' + of_nat (card (fcEvents fc)) = pendingEventCnt m + of_nat (card (fcEvents fc'))"
    using m'(5) m1 by (simp add: m'(9) algebra_simps)
  then have "iom_wf m'"
    by (intro iom_wf_at[OF wf fd, of fc'])
      (use m' m1 in \<open>simp_all add: registration_def\<close>)
  with m' m1 show ?thesis by (intro exI[of _ m'] exI[of _ fc']) simp
qed

lemma cancelAll_wf:
  assumes wf: "iom_wf m" and c: "cancelAll ok fd m = Inr (r, m')"
  shows "iom_wf m' \<and> fdContexts m' = fdContexts m"
proof (cases "0 \<le> fd \<and> fd < int (length (fdContexts m))")
  case True
  then have fd: "0 \<le> fd" "fd < int (length (fdContexts m))" by simp_all
  from iom_slot[OF wf fd] obtain p fc where s: "p = fdContexts m ! nat fd" "ctxStore m p = Some fc" "fcFd fc = fd"
      "ctx_ok fc" "epollReg m fd = registration fc p" "findContext fd m = Inr (Some p)" by metis
  show ?thesis
  proof (cases "fcEvents fc = {} \<or> \<not> ok")
    case True
    then have "m' = m" using c s(2) by (auto simp: cancelAll_def s(6) epollCtl_def split: if_splits)
    with wf show ?thesis by simp
  next
    case False
    then have ctl: "epollCtl ok CtlDel fd {} p (epollReg m) = Some ((epollReg m)(fd := None))"
      using epollCtl_remove[of "epollReg m", OF s(5)] by simp
    let ?m1 = "m\<lparr>epollReg := (epollReg m)(fd := None)\<rparr>"
    from triggerBoth_wf[OF wf fd s(1-4) subset_refl, of ?m1] obtain m2 where
      "andThen (triggerIf (READ \<in> fcEvents fc) p READ ?m1) (triggerIf (WRITE \<in> fcEvents fc) p WRITE) = Inr m2" "iom_wf m2"
      "fdContexts m2 = fdContexts m"
      by auto
    with c s(2) False ctl show ?thesis
      by (auto simp: cancelAll_def s(6) andThen_eq_Inr)
  qed
next
  case False
  then have "m' = m" using c by (auto simp: cancelAll_def findContext_eq)
  with wf show ?thesis by simp
qed

section \<open>Reports and timers\<close>

text \<open>A report that names registered events only: what the kernel gives as long as nobody changes the
  context between \<^verbatim>\<open>epoll_wait\<close> and the loop over the reports.\<close>

definition current :: "report \<Rightarrow> 'c fdContext \<Rightarrow> bool" where
  "current rp fc \<longleftrightarrow> rpError rp \<or> rpEvents rp \<subseteq> fcEvents fc"

definition reported :: "report \<Rightarrow> 'c fdContext \<Rightarrow> event set" where
  "reported rp fc = (if rpError rp then fcEvents fc else rpEvents rp)"

lemma handleReport_current:
  assumes wf: "iom_wf m" and fd: "0 \<le> fd" "fd < int (length (fdContexts m))" "p = fdContexts m ! nat fd" "ctxStore m p = Some fc"
    and cur: "current rp fc"
  shows "handleReport False p rp m = Inr m"
    and "\<exists>m' fc'. handleReport True p rp m = Inr m' \<and> iom_wf m' \<and> fdContexts m' = fdContexts m \<and> ctxStore m' p = Some fc' \<and>
      fcEvents fc' = fcEvents fc - reported rp fc \<and>
      tasks (iomSched m') = tasks (iomSched m) @ (if READ \<in> reported rp fc then [wakeTask READ fc] else []) @
        (if WRITE \<in> reported rp fc then [wakeTask WRITE fc] else [])"
proof -
  show "handleReport False p rp m = Inr m"
    using fd(4) by (simp add: handleReport_def epollCtl_def Let_def)
  from iom_slot[OF wf fd(1,2)] fd(3,4) have s: "fcFd fc = fd" "ctx_ok fc" "epollReg m fd = registration fc p" by auto
  have E: "reported rp fc \<subseteq> fcEvents fc" using cur by (auto simp: current_def reported_def)
  show "\<exists>m' fc'. handleReport True p rp m = Inr m' \<and> iom_wf m' \<and> fdContexts m' = fdContexts m \<and> ctxStore m' p = Some fc' \<and>
      fcEvents fc' = fcEvents fc - reported rp fc \<and>
      tasks (iomSched m') = tasks (iomSched m) @ (if READ \<in> reported rp fc then [wakeTask READ fc] else []) @
        (if WRITE \<in> reported rp fc then [wakeTask WRITE fc] else [])"
  proof (cases "reported rp fc = {}")
    case True
    then have "handleReport True p rp m = Inr m"
      using fd(4) by (auto simp: handleReport_def reported_def Let_def)
    with wf fd(4) True show ?thesis by (intro exI[of _ m] exI[of _ fc]) simp
  next
    case False
    with E have ne: "fcEvents fc \<noteq> {}" "fcEvents fc \<inter> reported rp fc \<noteq> {}" by auto
    note ctl = epollCtl_remove[of "epollReg m", OF s(3) ne(1)]
    let ?left = "fcEvents fc - reported rp fc"
    let ?m1 = "m\<lparr>epollReg := (epollReg m)(fd := (if ?left = {} then None else Some (?left, p)))\<rparr>"
    have "handleReport True p rp m = andThen (triggerIf (READ \<in> reported rp fc) p READ ?m1) (triggerIf (WRITE \<in> reported rp fc) p WRITE)"
      using fd(4) False ne(2)
      by (simp add: handleReport_def reported_def[symmetric] ctl s(1) Let_def del: Diff_eq_empty_iff)
    moreover from triggerBoth_wf[OF wf fd s(1,2) E refl] obtain m' fc' where
      "andThen (triggerIf (READ \<in> reported rp fc) p READ ?m1) (triggerIf (WRITE \<in> reported rp fc) p WRITE) = Inr m'"
      "iom_wf m'" "fdContexts m' = fdContexts m" "ctxStore m' p = Some fc'" "fcEvents fc' = ?left"
      "tasks (iomSched m') = tasks (iomSched m) @ (if READ \<in> reported rp fc then [wakeTask READ fc] else []) @
        (if WRITE \<in> reported rp fc then [wakeTask WRITE fc] else [])" by blast
    ultimately show ?thesis by (intro exI[of _ m'] exI[of _ fc']) simp
  qed
qed

lemma fold_schedule_fields:
  fixes g :: "'c ioManager \<Rightarrow> 'd"
  assumes "\<And>t m. g (iomSchedule t m) = g m"
  shows "g (fold (\<lambda>cb m. iomSchedule (f cb) m) cbs m) = g m"
  by (induction cbs arbitrary: m) (simp_all add: assms)

lemma scheduleExpired_wf:
  assumes "iom_wf m" and "scheduleExpired now q m = Inr m'"
  shows "iom_wf m'" and "fdContexts m' = fdContexts m"
proof -
  from assms(2) obtain cbs tm where
    m': "m' = fold (\<lambda>cb m. iomSchedule \<lparr>taskFiber = None, taskCb = cb, taskThread = -1\<rparr> m) cbs (m\<lparr>iomTimers := tm\<rparr>)"
    by (auto simp: scheduleExpired_def andThen_eq_Inr)
  have f: "fdContexts m' = fdContexts m" "ctxStore m' = ctxStore m" "nextCtx m' = nextCtx m" "epollReg m' = epollReg m"
    "pendingEventCnt m' = pendingEventCnt m"
    unfolding m' by (subst fold_schedule_fields; simp)+
  show "iom_wf m'" using iom_wf_cong[OF f] assms(1) by simp
  show "fdContexts m' = fdContexts m" by (rule f(1))
qed

section \<open>The manager as a state machine\<close>

text \<open>What its users and its idle fiber do: the workers change the queue and the timers, epoll reports.\<close>

inductive iomStep :: "'c ioManager \<Rightarrow> 'c ioManager \<Rightarrow> bool" where
  io_add: "fd < 2 ^ 31 \<Longrightarrow> addEvent ok self fd e cb m = Inr (r, m') \<Longrightarrow> iomStep m m'"
| io_del: "delEvent ok fd e m = Inr (b, m') \<Longrightarrow> iomStep m m'"
| io_cancel: "cancelEvent ok fd e m = Inr (b, m') \<Longrightarrow> iomStep m m'"
| io_cancelAll: "cancelAll ok fd m = Inr (b, m') \<Longrightarrow> iomStep m m'"
| io_expired: "scheduleExpired now q m = Inr m' \<Longrightarrow> iomStep m m'"
| io_report: "p \<in> set (fdContexts m) \<Longrightarrow> ctxStore m p = Some fc \<Longrightarrow> current rp fc \<Longrightarrow>
    handleReport ok p rp m = Inr m' \<Longrightarrow> iomStep m m'"
| io_tickle: "iomStep m (m\<lparr>pipeBytes := n\<rparr>)"
| io_workers: "iomStep m (m\<lparr>iomSched := s, iomTimers := tm\<rparr>)"

definition iomInit :: "'c ioManager \<Rightarrow> bool" where
  "iomInit m \<longleftrightarrow> (\<exists>now s. m = newIoManager now s)"

definition iom_inv :: "'c ioManager \<Rightarrow> bool" where
  "iom_inv m \<longleftrightarrow> iom_wf m \<and> length (fdContexts m) < 2 ^ 32"

lemma newIoManager_fields:
  "fdContexts (newIoManager now s) = [0..<32]" "nextCtx (newIoManager now s) = 32" "iomSched (newIoManager now s) = s"
  "epollReg (newIoManager now s) = Map.empty" "pendingEventCnt (newIoManager now s) = 0"
  "iomTimers (newIoManager now s) = newTimerManager now"
  "p < 32 \<Longrightarrow> ctxStore (newIoManager now s) p = Some (newFdContext (int p))"
  by (simp_all add: newIoManager_def contextResize_def Let_def del: upt_rec_numeral)

lemma newIoManager_inv: "iom_inv (newIoManager now s)"
proof -
  let ?m = "newIoManager now s"
  note f = newIoManager_fields(1,2,4,5)[of now s]
  have "eventCount ?m p = 0" if "p \<in> set [0..<32]" for p
    using that newIoManager_fields(7)[of p now s] by (simp add: eventCount_def newFdContext_def)
  then have "(\<Sum>p\<in>set (fdContexts ?m). eventCount ?m p) = 0" by (simp add: f(1) del: upt_rec_numeral)
  moreover have "slot_ok ?m i (fdContexts ?m ! i)" if "i < 32" for i
    using newIoManager_fields(7)[of i now s] that newFdContext_ok[of "int i"]
    by (simp add: slot_ok_def f(1,3) registration_def newFdContext_def del: upt_rec_numeral)
  ultimately show ?thesis
    by (simp add: iom_inv_def iom_wf_def f(1-4) del: upt_rec_numeral)
qed

lemma handleReport_wf:
  assumes wf: "iom_wf m" and p: "p \<in> set (fdContexts m)" "ctxStore m p = Some fc" "current rp fc"
    and h: "handleReport ok p rp m = Inr m'"
  shows "iom_wf m'" "fdContexts m' = fdContexts m"
proof -
  from p(1) obtain i where i: "i < length (fdContexts m)" "p = fdContexts m ! i" by (auto simp: in_set_conv_nth)
  have fd: "0 \<le> int i" "int i < int (length (fdContexts m))" "p = fdContexts m ! nat (int i)" using i by simp_all
  note r = handleReport_current[OF wf fd p(2,3)]
  have "iom_wf m' \<and> fdContexts m' = fdContexts m"
  proof (cases ok)
    case True
    with r(2) h show ?thesis by auto
  next
    case False
    with r(1) h wf show ?thesis by auto
  qed
  then show "iom_wf m'" "fdContexts m' = fdContexts m" by simp_all
qed

lemma remove_lengths:
  "unregister ok fd e m = Inr (Some (p, fc, m1)) \<Longrightarrow> fdContexts m1 = fdContexts m"
  "triggerEvent p e m = Inr m' \<Longrightarrow> fdContexts m' = fdContexts m"
  "triggerIf c p e m = Inr m' \<Longrightarrow> fdContexts m' = fdContexts m"
  "delEvent ok fd e m = Inr (b, m') \<Longrightarrow> fdContexts m' = fdContexts m"
  "cancelEvent ok fd e m = Inr (b, m') \<Longrightarrow> fdContexts m' = fdContexts m"
proof -
  show u: "fdContexts m1 = fdContexts m" if "unregister ok fd e m = Inr (Some (p, fc, m1))" for ok fd e m p fc m1
    using that by (auto simp: unregister_def andThen_eq_Inr Let_def split: option.splits if_splits)
  show t: "fdContexts m' = fdContexts m" if "triggerEvent p e m = Inr m'" for p e m m'
    using that by (auto simp: triggerEvent_def andThen_eq_Inr Let_def split: if_splits)
  show ti: "fdContexts m' = fdContexts m" if "triggerIf c p e m = Inr m'" for c p e m m'
    using that by (auto simp: triggerIf_def andThen_eq_Inr dest!: t split: if_splits)
  show "delEvent ok fd e m = Inr (b, m') \<Longrightarrow> fdContexts m' = fdContexts m"
    by (auto simp: delEvent_def andThen_eq_Inr dest!: u split: option.splits)
  show "cancelEvent ok fd e m = Inr (b, m') \<Longrightarrow> fdContexts m' = fdContexts m"
    by (auto simp: cancelEvent_def andThen_eq_Inr dest!: u t split: option.splits)
qed

lemma iomStep_inv:
  assumes "iom_inv m" and "iomStep m m'"
  shows "iom_inv m'"
proof -
  have wf: "iom_wf m" and len: "length (fdContexts m) < 2 ^ 32" using assms(1) by (simp_all add: iom_inv_def)
  from assms(2) show ?thesis
  proof cases
    case (io_add fd ok self e cb r)
    note a = addEvent_wf[OF wf io_add(2)]
    have "nat (fd + fd div 2) < 2 ^ 32" using io_add(1) by simp
    with a len show ?thesis by (simp add: iom_inv_def)
  next
    case (io_del ok fd e b)
    from delEvent_wf[OF wf io_del] remove_lengths(4)[OF io_del] len show ?thesis by (simp add: iom_inv_def)
  next
    case (io_cancel ok fd e b)
    from cancelEvent_wf[OF wf io_cancel] remove_lengths(5)[OF io_cancel] len show ?thesis by (simp add: iom_inv_def)
  next
    case (io_cancelAll ok fd b)
    from cancelAll_wf[OF wf io_cancelAll] len show ?thesis by (simp add: iom_inv_def)
  next
    case (io_expired now q)
    from scheduleExpired_wf[OF wf io_expired] len show ?thesis by (simp add: iom_inv_def)
  next
    case (io_report p fc rp ok)
    from handleReport_wf[OF wf io_report] len show ?thesis by (simp add: iom_inv_def)
  next
    case (io_tickle n)
    with assms(1) show ?thesis by (simp add: iom_inv_def iom_wf_def slot_ok_def eventCount_def)
  next
    case (io_workers s tm)
    with assms(1) show ?thesis by (simp add: iom_inv_def iom_wf_def slot_ok_def eventCount_def)
  qed
qed

interpretation iom: invariant_of iomInit iomStep iom_inv
  by unfold_locales (auto simp: iomInit_def intro: newIoManager_inv iomStep_inv)

lemma event_card: "card (E :: event set) \<le> 2"
proof -
  have "E \<subseteq> {READ, WRITE}" by (subst event_set[of E]) auto
  from card_mono[OF _ this] show ?thesis by simp
qed

lemma sum_events_bound: "(\<Sum>p\<in>set ps. eventCount m p) \<le> 2 * length ps"
proof -
  have "(\<Sum>p\<in>set ps. eventCount m p) \<le> (\<Sum>p\<in>set ps. 2)"
    by (rule sum_mono) (simp add: eventCount_def event_card split: option.split)
  also have "\<dots> \<le> 2 * length ps" by (simp add: card_length)
  finally show ?thesis .
qed

lemma no_pending:
  assumes "iom_inv m" and "pendingEventCnt m = 0"
  shows "epollReg m fd = None" and "p \<in> set (fdContexts m) \<Longrightarrow> \<exists>fc. ctxStore m p = Some fc \<and> fcEvents fc = {}"
proof -
  have wf: "iom_wf m" and len: "length (fdContexts m) < 2 ^ 32" using assms(1) by (simp_all add: iom_inv_def)
  let ?n = "\<Sum>p\<in>set (fdContexts m). eventCount m p"
  have "?n < 2 ^ 64" using sum_events_bound[of m "fdContexts m"] len by simp
  moreover have "(of_nat ?n :: 64 word) = 0" using iom_wfD(6)[OF wf] assms(2) by simp
  then have "2 ^ 64 dvd ?n" unfolding word_of_nat_eq_0_iff by simp
  ultimately have z: "?n = 0" using nat_dvd_not_less by blast
  show some: "\<exists>fc. ctxStore m p = Some fc \<and> fcEvents fc = {}" if p: "p \<in> set (fdContexts m)" for p
  proof -
    from p obtain i where "i < length (fdContexts m)" "p = fdContexts m ! i" by (auto simp: in_set_conv_nth)
    with iom_wfD(4)[OF wf] obtain fc where fc: "ctxStore m p = Some fc" by (auto simp: slot_ok_def)
    moreover have "eventCount m p = 0" using z p by simp
    ultimately show ?thesis by (simp add: eventCount_def)
  qed
  show "epollReg m fd = None"
  proof (cases "0 \<le> fd \<and> fd < int (length (fdContexts m))")
    case True
    then have fd: "0 \<le> fd" "fd < int (length (fdContexts m))" by simp_all
    from iom_slot[OF wf fd] obtain p fc where s: "p = fdContexts m ! nat fd" "ctxStore m p = Some fc"
      "epollReg m fd = registration fc p" by metis
    have "p \<in> set (fdContexts m)" using s(1) fd by (simp add: nth_mem)
    from some[OF this] s(2,3) show ?thesis by (simp add: registration_def)
  next
    case False
    then show ?thesis using iom_wfD(5)[OF wf] by auto
  qed
qed

text \<open>Registered, then reported.\<close>

lemma wake_at:
  assumes w0: "iom_wf m0" and fd: "0 \<le> fd" and in0: "fd < int (length (fdContexts m0))" and self: "snd self = RUNNING"
    and new0: "\<And>fc. ctxStore m0 (fdContexts m0 ! nat fd) = Some fc \<Longrightarrow> e \<notin> fcEvents fc"
  shows "\<exists>m1 m2 p fc. addEvent True self fd e None m0 = Inr (0, m1) \<and> p = fdContexts m1 ! nat fd \<and>
    handleReport True p \<lparr>rpEvents = {e}, rpError = False\<rparr> m1 = Inr m2 \<and>
    tasks (iomSched m2) = tasks (iomSched m0) @ [fiberTask (Some (fst self))] \<and> ctxStore m2 p = Some fc \<and> e \<notin> fcEvents fc"
proof -
  from iom_slot[OF w0 fd in0] obtain p fc where s: "p = fdContexts m0 ! nat fd" "ctxStore m0 p = Some fc" by metis
  have new: "e \<notin> fcEvents fc" using new0 s by simp
  from addEvent_at(2)[OF w0 fd in0 s new, of None self] self obtain m1 fc1 where
    m1: "addEvent True self fd e None m0 = Inr (0, m1)" "iom_wf m1" "fdContexts m1 = fdContexts m0"
      "ctxStore m1 p = Some fc1" "fcEvents fc1 = insert e (fcEvents fc)" "wakeTask e fc1 = waiter self None"
      "iomSched m1 = iomSched m0" by blast
  let ?rp = "\<lparr>rpEvents = {e}, rpError = False\<rparr>"
  have rp: "current ?rp fc1" "reported ?rp fc1 = {e}" using m1(5) by (simp_all add: current_def reported_def)
  have in1: "fd < int (length (fdContexts m1))" "p = fdContexts m1 ! nat fd" using in0 s(1) m1(3) by simp_all
  from handleReport_current(2)[OF m1(2) fd in1 m1(4) rp(1)] rp(2) obtain m2 fc2 where
    m2: "handleReport True p ?rp m1 = Inr m2" "ctxStore m2 p = Some fc2" "fcEvents fc2 = fcEvents fc1 - {e}"
      "tasks (iomSched m2) = tasks (iomSched m1) @ (if READ \<in> {e} then [wakeTask READ fc1] else []) @
        (if WRITE \<in> {e} then [wakeTask WRITE fc1] else [])" by auto
  have "tasks (iomSched m2) = tasks (iomSched m0) @ [fiberTask (Some (fst self))]"
    using m2(4) m1(6,7) by (cases e) (simp_all add: waiter_def)
  with m1(1) in1(2) m2(1-3) show ?thesis by auto
qed

section \<open>Properties\<close>



text \<open>C19: A wait is answered, exactly once: in every reachable state, a running fiber that registers for an
  event nobody waits for is registered, also when its descriptor is behind the contexts and they are made
  larger; and when epoll then reports that event, exactly this fiber is put at the end of the queue, and
  the event is not registered any more.
\<close>

theorem event_wakes_waiter:
  assumes "reach iomInit iomStep m" and "0 \<le> fd" and "snd self = RUNNING"
    and "\<forall>fc. fd < int (length (fdContexts m)) \<longrightarrow> ctxStore m (fdContexts m ! nat fd) = Some fc \<longrightarrow> e \<notin> fcEvents fc"
  shows "\<exists>m1 m2 p fc. addEvent True self fd e None m = Inr (0, m1) \<and> p = fdContexts m1 ! nat fd \<and>
    handleReport True p \<lparr>rpEvents = {e}, rpError = False\<rparr> m1 = Inr m2 \<and>
    tasks (iomSched m2) = tasks (iomSched m) @ [fiberTask (Some (fst self))] \<and>
    ctxStore m2 p = Some fc \<and> e \<notin> fcEvents fc"
proof -
  have wf: "iom_wf m" using iom.reach_inv[OF assms(1)] by (simp add: iom_inv_def)
  show ?thesis
  proof (cases "fd < int (length (fdContexts m))")
    case True
    show ?thesis by (rule wake_at[OF wf assms(2) True assms(3)]) (use assms(4) True in blast)
  next
    case False
    then have "int (length (fdContexts m)) \<le> fd" by simp
    note r = addEvent_resized[OF wf this]
    have new: "e \<notin> fcEvents fc"
      if "ctxStore (contextResize (nat (fd + fd div 2)) m) (fdContexts (contextResize (nat (fd + fd div 2)) m) ! nat fd) = Some fc" for fc
      using that contextResize_new(1)[of m "nat fd" "nat (fd + fd div 2)"] r(2,3) False assms(2)
      by (auto simp: newFdContext_def)
    have "iomSched (contextResize (nat (fd + fd div 2)) m) = iomSched m"
      using contextResize_new(2)[of m "nat fd" "nat (fd + fd div 2)"] r(2,3) False assms(2) by simp
    with wake_at[OF r(1) assms(2) r(2) assms(3) new] r(4) show ?thesis by simp
  qed
qed

theorem event_wakes_waiter_witness:
  "\<exists>(m :: string ioManager) m1 m2 p. addEvent True (3, RUNNING) 40 WRITE None m = Inr (0, m1) \<and>
     length (fdContexts m) = 32 \<and>
     handleReport True p \<lparr>rpEvents = {WRITE}, rpError = False\<rparr> m1 = Inr m2 \<and>
     tasks (iomSched m2) = [fiberTask (Some 3)]"
proof -
  define m :: "string ioManager" where "m = newIoManager 0 \<lparr>tasks = [], threadPool = [], threadIds = [], isStopped = False,
      threadCnt = 1, activeThreadCnt = 0, idleThreadCnt = 0, isUserCaller = False, rootThreadId = -1\<rparr>"
  have m: "length (fdContexts m) = 32" "tasks (iomSched m) = []"
    by (simp_all add: m_def newIoManager_def contextResize_def Let_def del: upt_rec_numeral)
  have "reach iomInit iomStep m" by (rule reach_init) (auto simp: iomInit_def m_def)
  from event_wakes_waiter[OF this, of 40 "(3, RUNNING)" WRITE] m show ?thesis by auto
qed

section \<open>Where the bookkeeping fails\<close>

text \<open>A report about an event that was cancelled in the meantime is counted although nothing is woken: the
  loop of \<open>idle\<close> tests for a common event but decrements for each reported one.  Then the counter is too
  low, for a single waiter it wraps, and \<open>stopping\<close> never answers true again until it is counted up.\<close>

lemma stale_report_miscounts:
  assumes wf: "iom_wf m" and fd: "0 \<le> fd" "fd < int (length (fdContexts m))" "p = fdContexts m ! nat fd" "ctxStore m p = Some fc"
    and ev: "fcEvents fc = {READ}" and one: "pendingEventCnt m = 1"
  shows "\<exists>m'. handleReport True p \<lparr>rpEvents = {READ, WRITE}, rpError = False\<rparr> m = Inr m' \<and>
    pendingEventCnt m' = - 1 \<and> epollReg m' fd = None"
proof -
  from iom_slot[OF wf fd(1,2)] fd(3,4) have s: "fcFd fc = fd" "ctx_ok fc" "epollReg m fd = registration fc p" by auto
  note ctl = epollCtl_remove[of "epollReg m", OF s(3)]
  let ?m0 = "m\<lparr>epollReg := (epollReg m)(fd := None)\<rparr>"
  from triggerIf_form[of ?m0 p fc True READ] fd(4) s(2) ev obtain m1 where
    m1: "triggerIf True p READ ?m0 = Inr m1" "epollReg m1 = epollReg ?m0" "pendingEventCnt m1 = pendingEventCnt m - 1"
      "ctxStore m1 = (ctxStore m)(p \<mapsto> afterEvent READ fc)" by auto
  have "triggerEvent p WRITE m1 = Inr m1"
    using m1(4) afterEvent_facts(1)[OF s(2), of READ] ev by (simp add: triggerEvent_def)
  then have m2: "triggerIf True p WRITE m1 = Inr (m1\<lparr>pendingEventCnt := pendingEventCnt m1 - 1\<rparr>)"
    by (simp add: triggerIf_def)
  have "handleReport True p \<lparr>rpEvents = {READ, WRITE}, rpError = False\<rparr> m
      = Inr (m1\<lparr>pendingEventCnt := pendingEventCnt m1 - 1\<rparr>)"
    using fd(4) ev m1(1) m2 by (simp add: handleReport_def ctl s(1) Let_def)
  with m1(2,3) one show ?thesis by simp
qed

text \<open>A timer further away than \<open>2 ^ 31\<close> milliseconds makes the wait negative, that is without end.\<close>

lemma int_of_low:
  assumes "uint (t :: 64 word) < 2 ^ 32"
  shows "sint (ucast t :: 32 word) = (if uint t < 2 ^ 31 then uint t else uint t - 2 ^ 32)"
proof -
  have "uint (ucast t :: 32 word) = uint t" using assms by (simp add: unsigned_ucast_eq take_bit_int_eq_self)
  moreover have "(uint t + 2 ^ 31) mod 2 ^ 32 = (if uint t < 2 ^ 31 then uint t + 2 ^ 31 else uint t - 2 ^ 31)"
    using assms unsigned_greater_eq[of t, where 'a = int] mod_pos_pos_trivial[of "uint t - 2 ^ 31" "2 ^ 32"]
      mod_add_self2[of "uint t - 2 ^ 31" "2 ^ 32"] by (auto simp: algebra_simps)
  ultimately show ?thesis by (simp add: sint_uint signed_take_bit_eq_take_bit_shift take_bit_eq_mod)
qed

lemma epollTimeout_bounds:
  "t \<noteq> - 1 \<Longrightarrow> uint t < 2 ^ 31 \<Longrightarrow> epollTimeout t = min (uint t) 5000"
  "2 ^ 31 \<le> uint t \<Longrightarrow> uint t < 2 ^ 32 \<Longrightarrow> epollTimeout t < 0"
proof -
  have m: "uint (- 1 :: 64 word) = 2 ^ 64 - 1" by (simp add: unsigned_minus_1_eq_mask mask_eq_exp_minus_1)
  show "t \<noteq> - 1 \<Longrightarrow> uint t < 2 ^ 31 \<Longrightarrow> epollTimeout t = min (uint t) 5000"
    by (simp add: epollTimeout_def int_of_low)
  show "2 ^ 31 \<le> uint t \<Longrightarrow> uint t < 2 ^ 32 \<Longrightarrow> epollTimeout t < 0"
    using m by (cases "t = - 1") (simp_all add: epollTimeout_def int_of_low)
qed

end
