(* ===== verification/Hook.thy ===== *)
theory Hook
  imports FdManager IoTheorems "HOL-Library.Signed_Division"
begin

text \<open>
  The hooked system calls of \<^verbatim>\<open>src/fiber/hook.cpp\<close>.  A call that has to wait yields its fiber: its model
  ends there with the local variables it needs afterwards, and a second definition goes on when the fiber
  is resumed.  The results of the original functions are arguments, each a return value with its
  \<^verbatim>\<open>errno\<close>; the times and the addresses of new timers are arguments too.
\<close>

section \<open>State\<close>

text \<open>The callbacks the hooks hand to the event manager.\<close>

datatype hookCb = TimeoutCb nat int event | WakeFiber nat

record hook =
  hookEnabled :: bool
  fdMgr :: fdManager
  kern :: kernel
  iomOf :: "hookCb ioManager option" \<comment> \<open>the event manager of the thread\<close>
  timerInfos :: "nat \<rightharpoonup> int" \<comment> \<open>the field \<open>cancelled\<close> of the live \<^verbatim>\<open>timer_info\<close> objects\<close>
  nextInfo :: nat
  errnoOf :: int

definition EINTR :: int where "EINTR = 4"
definition EBADF :: int where "EBADF = 9"
definition EAGAIN :: int where "EAGAIN = 11"
definition ETIMEDOUT :: int where "ETIMEDOUT = 110"
definition EINPROGRESS :: int where "EINPROGRESS = 115"

definition eventCode :: "event \<Rightarrow> int" where
  "eventCode e = (case e of READ \<Rightarrow> 1 | WRITE \<Rightarrow> 4)"

definition s_connect_timeout :: "64 word" where "s_connect_timeout = 5000"

text \<open>The variables of a call that waits.\<close>

record ioFrame =
  frInfo :: nat
  frTimer :: "nat option"
  frTimeout :: "64 word"

datatype ioOutcome = IoDone int hook | IoWait ioFrame hook

definition leaveIo :: "nat \<Rightarrow> hook \<Rightarrow> hook" where
  \<comment> \<open>the last strong pointer to the \<^verbatim>\<open>timer_info\<close> goes\<close>
  "leaveIo q h = h\<lparr>timerInfos := (timerInfos h)(q := None)\<rparr>"

definition cancelTimerOf :: "nat option \<Rightarrow> hookCb ioManager \<Rightarrow> hookCb ioManager res" where
  "cancelTimerOf timer m = (case timer of None \<Rightarrow> Inr m
     | Some p \<Rightarrow> andThen (timerCancel p (iomTimers m)) (\<lambda>(_, tm). Inr (m\<lparr>iomTimers := tm\<rparr>)))"

section \<open>Input and output\<close>

text \<open>The original function, called again while a signal interrupts it.  A list without a final result is a
  call that does not come back.\<close>

fun callRaw :: "(int \<times> int) list \<Rightarrow> (int \<times> int) res" where
  "callRaw [] = Inl NoReturn"
| "callRaw ((n, err) # rs) = (if n = -1 \<and> err = EINTR then callRaw rs else Inr (n, err))"

definition direct :: "(int \<times> int) list \<Rightarrow> hook \<Rightarrow> ioOutcome res" where
  \<comment> \<open>the original function, once\<close>
  "direct raw h = (case raw of [] \<Rightarrow> Inl NoReturn | (n, err) # _ \<Rightarrow> Inr (IoDone n (h\<lparr>errnoOf := err\<rparr>)))"

text \<open>One round of the loop of \<open>do_io\<close>, up to its result or its \<^verbatim>\<open>yield\<close>.\<close>

definition armTimer :: "nat \<Rightarrow> 64 word \<Rightarrow> 64 word \<Rightarrow> hookCb \<Rightarrow> hookCb ioManager \<Rightarrow> nat option \<times> hookCb ioManager" where
  "armTimer p now timeoutMs cb m =
     (if timeoutMs \<noteq> - 1 then (Some p, iomAddTimer p now timeoutMs cb False m) else (None, m))"

definition doIoRound :: "bool \<Rightarrow> nat \<times> fiberState \<Rightarrow> 64 word \<Rightarrow> nat \<Rightarrow> (int \<times> int) list \<Rightarrow> int \<Rightarrow> event \<Rightarrow> ioFrame \<Rightarrow> hook
    \<Rightarrow> ioOutcome res" where
  "doIoRound ok self now p raw fd e fr h =
     andThen (callRaw raw) (\<lambda>(n, err).
       let h1 = h\<lparr>errnoOf := err\<rparr>
       in if n \<noteq> -1 \<or> err \<noteq> EAGAIN then Inr (IoDone n (leaveIo (frInfo fr) h1))
          else
            andThen (derefOpt (iomOf h1)) (\<lambda>m.
              case armTimer p now (frTimeout fr) (TimeoutCb (frInfo fr) fd e) m of (timer, m1) \<Rightarrow>
                andThen (addEvent ok self fd e None m1) (\<lambda>(ret, m2).
                  if ret \<noteq> 0
                  then andThen (cancelTimerOf timer m2) (\<lambda>m3.
                         Inr (IoDone (-1) (leaveIo (frInfo fr) (h1\<lparr>iomOf := Some m3\<rparr>))))
                  else Inr (IoWait (fr\<lparr>frTimer := timer\<rparr>) (h1\<lparr>iomOf := Some m2\<rparr>)))))"

text \<open>\<open>do_io\<close>; its argument \<open>timeout\<close>, the socket option, is not used.\<close>

definition doIo :: "bool \<Rightarrow> nat \<times> fiberState \<Rightarrow> 64 word \<Rightarrow> nat \<Rightarrow> (int \<times> int) list \<Rightarrow> int \<Rightarrow> event \<Rightarrow> int \<Rightarrow> hook
    \<Rightarrow> ioOutcome res" where
  "doIo ok self now p raw fd e timeout h =
     (if \<not> hookEnabled h then direct raw h
      else
        andThen (fdGet fd False (fdMgr h) (kern h)) (\<lambda>(c, _, _). case c of
          None \<Rightarrow> direct raw h
        | Some ctx \<Rightarrow>
            if \<not> isSocket ctx \<or> userNonblock ctx then direct raw h
            else if isClosed ctx then Inr (IoDone (-1) (h\<lparr>errnoOf := EBADF\<rparr>))
            else
              let q = nextInfo h;
                  fr = \<lparr>frInfo = q, frTimer = None, frTimeout = getTimeout (eventCode e) ctx\<rparr>
              in doIoRound ok self now p raw fd e fr
                   (h\<lparr>timerInfos := (timerInfos h)(q \<mapsto> 0), nextInfo := Suc q\<rparr>)))"

text \<open>Behind the \<^verbatim>\<open>yield\<close>.\<close>

definition doIoResume :: "bool \<Rightarrow> nat \<times> fiberState \<Rightarrow> 64 word \<Rightarrow> nat \<Rightarrow> (int \<times> int) list \<Rightarrow> int \<Rightarrow> event \<Rightarrow> ioFrame \<Rightarrow> hook
    \<Rightarrow> ioOutcome res" where
  "doIoResume ok self now p raw fd e fr h =
     andThen (derefOpt (iomOf h)) (\<lambda>m.
     andThen (cancelTimerOf (frTimer fr) m) (\<lambda>m1.
     andThen (derefOpt (timerInfos h (frInfo fr))) (\<lambda>cancelled.
       let h1 = h\<lparr>iomOf := Some m1\<rparr>
       in if cancelled \<noteq> 0 then Inr (IoDone (-1) (leaveIo (frInfo fr) (h1\<lparr>errnoOf := cancelled\<rparr>)))
          else doIoRound ok self now p raw fd e fr h1)))"

text \<open>The callbacks, when the scheduler runs them; a conditional timer's callback only with its object alive.\<close>

definition runHookCb :: "bool \<Rightarrow> hookCb \<Rightarrow> hook \<Rightarrow> hook res" where
  "runHookCb ok cb h = (case cb of
     TimeoutCb q fd e \<Rightarrow>
       (case onTimer (\<lambda>q. timerInfos h q \<noteq> None) q cb of
          None \<Rightarrow> Inr h
        | Some _ \<Rightarrow> andThen (derefOpt (timerInfos h q)) (\<lambda>cancelled.
            if cancelled \<noteq> 0 then Inr h
            else andThen (derefOpt (iomOf h)) (\<lambda>m. andThen (cancelEvent ok fd e m) (\<lambda>(_, m1).
                   Inr (h\<lparr>timerInfos := (timerInfos h)(q \<mapsto> ETIMEDOUT), iomOf := Some m1\<rparr>)))))
   | WakeFiber f \<Rightarrow> andThen (derefOpt (iomOf h)) (\<lambda>m. Inr (h\<lparr>iomOf := Some (iomSchedule (fiberTask (Some f)) m)\<rparr>)))"

text \<open>The hooked calls, each with its event and its option.\<close>

datatype ioCall = Accept | Read | Readv | Recv | Recvfrom | Recvmsg | Write | Writev | Send | Sendto | Sendmsg

definition callEvent :: "ioCall \<Rightarrow> event" where
  "callEvent c = (if c \<in> {Accept, Read, Readv, Recv, Recvfrom, Recvmsg} then READ else WRITE)"

definition callOption :: "ioCall \<Rightarrow> int" where
  "callOption c = (if c \<in> {Accept, Read, Readv, Recv, Recvfrom, Recvmsg} then SO_RCVTIMEO else SO_SNDTIMEO)"

definition finishCall :: "ioCall \<Rightarrow> ioOutcome \<Rightarrow> ioOutcome res" where
  \<comment> \<open>\<open>accept\<close> makes a context for its result\<close>
  "finishCall c out = (case out of
     IoWait fr h \<Rightarrow> Inr out
   | IoDone n h \<Rightarrow>
       (if c = Accept \<and> n \<ge> 0
        then andThen (fdGet n True (fdMgr h) (kern h)) (\<lambda>(_, mgr, k). Inr (IoDone n (h\<lparr>fdMgr := mgr, kern := k\<rparr>)))
        else Inr out))"

definition hookedCall :: "bool \<Rightarrow> nat \<times> fiberState \<Rightarrow> 64 word \<Rightarrow> nat \<Rightarrow> (int \<times> int) list \<Rightarrow> ioCall \<Rightarrow> int \<Rightarrow> hook \<Rightarrow> ioOutcome res" where
  "hookedCall ok self now p raw c fd h =
     andThen (doIo ok self now p raw fd (callEvent c) (callOption c) h) (finishCall c)"

section \<open>Sleeping\<close>

text \<open>A sleep arms a timer that schedules the fiber, and yields; the result behind it is 0.\<close>

definition sleepFor :: "64 word \<Rightarrow> nat \<times> fiberState \<Rightarrow> 64 word \<Rightarrow> nat \<Rightarrow> hook \<Rightarrow> hook res" where
  "sleepFor ms self now p h =
     andThen (derefOpt (iomOf h)) (\<lambda>m. Inr (h\<lparr>iomOf := Some (iomAddTimer p now ms (WakeFiber (fst self)) False m)\<rparr>))"

definition sleepMs :: "32 word \<Rightarrow> 64 word" where
  "sleepMs seconds = ucast (seconds * 1000)"

definition usleepMs :: "32 word \<Rightarrow> 64 word" where
  "usleepMs usec = ucast (usec div 1000)"

definition nanosleepMs :: "int \<Rightarrow> int \<Rightarrow> 64 word" where
  "nanosleepMs sec nsec = word_of_int (sec * 1000 + nsec sdiv 1000000)"

section \<open>Sockets\<close>

definition hookedSocket :: "int \<Rightarrow> kernel \<Rightarrow> hook \<Rightarrow> (int \<times> hook) res" where
  \<comment> \<open>the result of the original function, and the kernel behind it\<close>
  "hookedSocket fd k h =
     (let h1 = h\<lparr>kern := k\<rparr>
      in if \<not> hookEnabled h1 then Inr (fd, h1)
         else if fd = -1 then Inr (-1, h1)
         else andThen (fdGet fd True (fdMgr h1) (kern h1)) (\<lambda>(_, mgr, k1). Inr (fd, h1\<lparr>fdMgr := mgr, kern := k1\<rparr>)))"

text \<open>\<open>connect_with_timeout\<close>: \<open>raw\<close> is the result of the original function, \<open>so\<close> that of \<^verbatim>\<open>getsockopt\<close> with the
  pending error of the socket.\<close>

definition connectResult :: "int \<times> int \<Rightarrow> hook \<Rightarrow> int \<times> hook" where
  "connectResult so h =
     (case so of (ret, err) \<Rightarrow>
        if ret = -1 then (-1, h) else if err \<noteq> 0 then (-1, h\<lparr>errnoOf := err\<rparr>) else (0, h))"

definition doneWith :: "nat \<Rightarrow> int \<times> hook \<Rightarrow> ioOutcome" where
  "doneWith q r = IoDone (fst r) (leaveIo q (snd r))"

definition connectWithTimeout :: "bool \<Rightarrow> nat \<times> fiberState \<Rightarrow> 64 word \<Rightarrow> nat \<Rightarrow> int \<times> int \<Rightarrow> int \<times> int \<Rightarrow> int \<Rightarrow> 64 word \<Rightarrow> hook
    \<Rightarrow> ioOutcome res" where
  "connectWithTimeout ok self now p raw so fd timeout h =
     (if \<not> hookEnabled h then direct [raw] h
      else
        andThen (fdGet fd False (fdMgr h) (kern h)) (\<lambda>(c, _, _). case c of
          None \<Rightarrow> direct [raw] h
        | Some ctx \<Rightarrow>
            if \<not> isSocket ctx \<or> userNonblock ctx then direct [raw] h
            else if isClosed ctx then Inr (IoDone (-1) (h\<lparr>errnoOf := EBADF\<rparr>))
            else if fst raw = 0 then Inr (IoDone 0 h)
            else if fst raw \<noteq> -1 \<or> snd raw \<noteq> EINPROGRESS then direct [raw] h
            else
              let q = nextInfo h;
                  h1 = h\<lparr>errnoOf := snd raw, timerInfos := (timerInfos h)(q \<mapsto> 0), nextInfo := Suc q\<rparr>
              in andThen (derefOpt (iomOf h1)) (\<lambda>m.
                   case armTimer p now timeout (TimeoutCb q fd WRITE) m of (timer, m1) \<Rightarrow>
                     andThen (addEvent ok self fd WRITE None m1) (\<lambda>(ret, m2).
                       if ret = 0
                       then Inr (IoWait \<lparr>frInfo = q, frTimer = timer, frTimeout = timeout\<rparr> (h1\<lparr>iomOf := Some m2\<rparr>))
                       else andThen (cancelTimerOf timer m2) (\<lambda>m3.
                              Inr (doneWith q (connectResult so (h1\<lparr>iomOf := Some m3\<rparr>))))))))"

definition connectResume :: "int \<times> int \<Rightarrow> ioFrame \<Rightarrow> hook \<Rightarrow> ioOutcome res" where
  "connectResume so fr h =
     andThen (derefOpt (iomOf h)) (\<lambda>m.
     andThen (cancelTimerOf (frTimer fr) m) (\<lambda>m1.
     andThen (derefOpt (timerInfos h (frInfo fr))) (\<lambda>cancelled.
       let h1 = h\<lparr>iomOf := Some m1\<rparr>
       in if cancelled \<noteq> 0 then Inr (IoDone (-1) (leaveIo (frInfo fr) (h1\<lparr>errnoOf := cancelled\<rparr>)))
          else Inr (doneWith (frInfo fr) (connectResult so h1)))))"

definition hookedConnect :: "bool \<Rightarrow> nat \<times> fiberState \<Rightarrow> 64 word \<Rightarrow> nat \<Rightarrow> int \<times> int \<Rightarrow> int \<times> int \<Rightarrow> int \<Rightarrow> hook \<Rightarrow> ioOutcome res" where
  "hookedConnect ok self now p raw so fd h = connectWithTimeout ok self now p raw so fd s_connect_timeout h"

definition closeKernel :: "int \<Rightarrow> kernel \<Rightarrow> kernel" where
  "closeKernel fd k = k\<lparr>fdSocket := (fdSocket k)(fd := None)\<rparr>"

definition hookedClose :: "bool \<Rightarrow> int \<Rightarrow> hook \<Rightarrow> (int \<times> hook) res" where
  "hookedClose ok fd h =
     (let close_f = (\<lambda>h. Inr (if fdSocket (kern h) fd = None then -1 else 0, h\<lparr>kern := closeKernel fd (kern h)\<rparr>))
      in if \<not> hookEnabled h then close_f h
         else
           andThen (fdGet fd False (fdMgr h) (kern h)) (\<lambda>(c, _, _). case c of
             None \<Rightarrow> close_f h
           | Some _ \<Rightarrow>
               andThen (case iomOf h of None \<Rightarrow> Inr h
                        | Some m \<Rightarrow> andThen (cancelAll ok fd m) (\<lambda>(_, m1). Inr (h\<lparr>iomOf := Some m1\<rparr>))) (\<lambda>h1.
               andThen (fdDel fd (fdMgr h1)) (\<lambda>mgr. close_f (h1\<lparr>fdMgr := mgr\<rparr>)))))"

section \<open>Options\<close>

text \<open>\<open>fcntl\<close>; the commands that are handed on are one case, with the original function's answer.\<close>

datatype fcntlCmd = F_SETFL "32 word" | F_GETFL | F_OTHER "32 word"

definition setCtx :: "int \<Rightarrow> fdCtx \<Rightarrow> hook \<Rightarrow> hook" where
  "setCtx fd c h = h\<lparr>fdMgr := (fdMgr h)[nat fd := Some c]\<rparr>"

definition fcntlSetRaw :: "int \<Rightarrow> 32 word \<Rightarrow> hook \<Rightarrow> 32 word \<times> hook" where
  "fcntlSetRaw fd arg h = (if fdSocket (kern h) fd = None then - 1 else 0, h\<lparr>kern := fcntlSet fd arg (kern h)\<rparr>)"

definition hookedFcntl :: "int \<Rightarrow> fcntlCmd \<Rightarrow> hook \<Rightarrow> (32 word \<times> hook) res" where
  "hookedFcntl fd cmd h = (case cmd of
     F_SETFL arg \<Rightarrow>
       andThen (fdGet fd False (fdMgr h) (kern h)) (\<lambda>(c, _, _). case c of
         None \<Rightarrow> Inr (fcntlSetRaw fd arg h)
       | Some ctx \<Rightarrow>
           if isClosed ctx \<or> userNonblock ctx then Inr (fcntlSetRaw fd arg h)
           else
             let ctx1 = ctx\<lparr>userNonblock := arg AND O_NONBLOCK \<noteq> 0\<rparr>;
                 arg1 = (if sysNonblock ctx1 then arg OR O_NONBLOCK else arg AND NOT O_NONBLOCK)
             in Inr (fcntlSetRaw fd arg1 (setCtx fd ctx1 h)))
   | F_GETFL \<Rightarrow>
       (let arg = fcntlGet fd (kern h)
        in andThen (fdGet fd False (fdMgr h) (kern h)) (\<lambda>(c, _, _). case c of
             None \<Rightarrow> Inr (arg, h)
           | Some ctx \<Rightarrow>
               if isClosed ctx \<or> userNonblock ctx then Inr (arg, h)
               else if userNonblock ctx then Inr (arg OR O_NONBLOCK, h)
               else Inr (arg AND NOT O_NONBLOCK, h)))
   | F_OTHER r \<Rightarrow> Inr (r, h))"

text \<open>\<open>ioctl\<close> with \<^verbatim>\<open>FIONBIO\<close> and its argument, or another request; the kernel sets or clears the flag.\<close>

definition ioctlNonblock :: "int \<Rightarrow> bool \<Rightarrow> kernel \<Rightarrow> kernel" where
  "ioctlNonblock fd on k =
     (if fdSocket k fd = None then k
      else k\<lparr>fdFlags := (fdFlags k)(fd := (if on then fdFlags k fd OR O_NONBLOCK else fdFlags k fd AND NOT O_NONBLOCK))\<rparr>)"

definition hookedIoctl :: "int \<Rightarrow> int option \<Rightarrow> hook \<Rightarrow> hook res" where
  "hookedIoctl fd fionbio h = (case fionbio of
     None \<Rightarrow> Inr h
   | Some arg \<Rightarrow>
       let userFlag = (arg \<noteq> 0); raw = (\<lambda>h. Inr (h\<lparr>kern := ioctlNonblock fd userFlag (kern h)\<rparr>))
       in andThen (fdGet fd False (fdMgr h) (kern h)) (\<lambda>(c, _, _). case c of
            None \<Rightarrow> raw h
          | Some ctx \<Rightarrow>
              if isClosed ctx \<or> \<not> isSocket ctx then raw h
              else raw (setCtx fd (ctx\<lparr>userNonblock := userFlag\<rparr>) h)))"

definition SOL_SOCKET :: int where "SOL_SOCKET = 1"

definition hookedSetsockopt :: "int \<Rightarrow> int \<Rightarrow> int \<Rightarrow> int \<times> int \<Rightarrow> hook \<Rightarrow> hook res" where
  \<comment> \<open>\<open>tv\<close>: the seconds and microseconds the option value holds\<close>
  "hookedSetsockopt fd level optname tv h =
     (if \<not> hookEnabled h then Inr h
      else if level = SOL_SOCKET \<and> (optname = SO_RCVTIMEO \<or> optname = SO_SNDTIMEO)
      then andThen (fdGet fd False (fdMgr h) (kern h)) (\<lambda>(c, _, _). case c of
             None \<Rightarrow> Inr h
           | Some ctx \<Rightarrow> Inr (setCtx fd (setTimeout optname
               (word_of_int (fst tv * 1000 + snd tv sdiv 1000)) ctx) h))
      else Inr h)"

end
