(* ===== verification/HookTheorems.thy ===== *)
theory HookTheorems
  imports Hook
begin

text \<open>
  What a program sees of its sockets through the hooks: the flag it sets and not the one the hooks need,
  a wait that is ended by the event or by the timer, and where the hooks do not do what they are for.
\<close>

section \<open>Contexts behind a descriptor\<close>

definition ctxAt :: "hook \<Rightarrow> int \<Rightarrow> fdCtx \<Rightarrow> bool" where
  "ctxAt h fd c \<longleftrightarrow> 0 \<le> fd \<and> fd < int (length (fdMgr h)) \<and> fdMgr h ! nat fd = Some c"

lemma ctxAt_get: "ctxAt h fd c \<Longrightarrow> fdGet fd False (fdMgr h) (kern h) = Inr (Some c, fdMgr h, kern h)"
  by (simp add: ctxAt_def fdGet_found)

lemma setCtx_at [simp]: "ctxAt h fd c \<Longrightarrow> ctxAt (setCtx fd c' h) fd c'"
  by (simp add: ctxAt_def setCtx_def nat_less_iff)

lemma setCtx_fields [simp]:
  "kern (setCtx fd c h) = kern h" "iomOf (setCtx fd c h) = iomOf h" "hookEnabled (setCtx fd c h) = hookEnabled h"
  by (simp_all add: setCtx_def)

lemma ctxAt_kern [simp]: "ctxAt (h\<lparr>kern := k\<rparr>) fd c = ctxAt h fd c"
  by (simp add: ctxAt_def)

section \<open>The non-blocking flag\<close>

lemma nonblock_simps:
  "(x OR O_NONBLOCK) AND O_NONBLOCK = O_NONBLOCK" "(x AND NOT O_NONBLOCK) AND O_NONBLOCK = 0"
  by (simp_all add: bit.conj_disj_distrib2 and.assoc)

lemma O_NONBLOCK_nz: "O_NONBLOCK \<noteq> 0"
  by (simp add: O_NONBLOCK_def)

lemma fcntl_set_get:
  assumes "ctxAt h fd c" and "sysNonblock c" and "\<not> userNonblock c" and "\<not> isClosed c"
    and "fdSocket (kern h) fd \<noteq> None" and "kernel_ok (kern h)"
  shows "\<exists>h1 v. hookedFcntl fd (F_SETFL arg) h = Inr (0, h1) \<and> hookedFcntl fd F_GETFL h1 = Inr (v, h1) \<and>
    v AND O_NONBLOCK = arg AND O_NONBLOCK \<and> fdFlags (kern h1) fd AND O_NONBLOCK = O_NONBLOCK \<and>
    ctxAt h1 fd (c\<lparr>userNonblock := arg AND O_NONBLOCK \<noteq> 0\<rparr>) \<and> fdSocket (kern h1) fd \<noteq> None"
proof -
  let ?c = "c\<lparr>userNonblock := arg AND O_NONBLOCK \<noteq> 0\<rparr>"
  let ?f = "setfl (kern h) (fdFlags (kern h) fd) (arg OR O_NONBLOCK)"
  let ?h1 = "snd (fcntlSetRaw fd (arg OR O_NONBLOCK) (setCtx fd ?c h))"
  from assms(5) obtain sock where sock: "fdSocket (kern h) fd = Some sock" by auto
  have k: "fdFlags (kern ?h1) fd = ?f" "fdSocket (kern ?h1) fd = Some sock"
    using sock by (simp_all add: fcntlSetRaw_def fcntlSet_def)
  have f: "?f AND O_NONBLOCK = O_NONBLOCK"
    using assms(6) by (simp add: kernel_ok_def nonblock_simps)
  have set: "hookedFcntl fd (F_SETFL arg) h = Inr (0, ?h1)"
    using assms(2-4) sock by (simp add: hookedFcntl_def ctxAt_get[OF assms(1)] fcntlSetRaw_def Let_def)
  have at: "ctxAt ?h1 fd ?c" using setCtx_at[OF assms(1), of ?c] by (simp add: fcntlSetRaw_def)
  have get: "hookedFcntl fd F_GETFL ?h1 = Inr (if arg AND O_NONBLOCK = 0 then ?f AND NOT O_NONBLOCK else ?f, ?h1)"
    using assms(4) k by (simp add: hookedFcntl_def ctxAt_get[OF at] fcntlGet_def Let_def)
  have "(if arg AND O_NONBLOCK = 0 then ?f AND NOT O_NONBLOCK else ?f) AND O_NONBLOCK = arg AND O_NONBLOCK"
    using f nonblock_cases[of arg] by (auto simp: nonblock_simps)
  with set get at k f show ?thesis by (intro exI[of _ ?h1]) auto
qed

lemma hookedSocket_fresh:
  assumes "hookEnabled h" and "0 \<le> fd" and "fd \<noteq> int (length (fdMgr h))" and "2 \<le> length (fdMgr h)"
    and "fd < int (length (fdMgr h)) \<longrightarrow> fdMgr h ! nat fd = None" and "fdSocket k fd = Some True" and "kernel_ok k"
  shows "\<exists>h1 c. hookedSocket fd k h = Inr (fd, h1) \<and> ctxAt h1 fd c \<and> isSocket c \<and> sysNonblock c \<and> \<not> userNonblock c \<and>
    \<not> isClosed c \<and> sendTimeout c = 0 \<and> fdSocket (kern h1) fd = Some True \<and> kernel_ok (kern h1) \<and>
    hookEnabled h1 \<and> iomOf h1 = iomOf h \<and> fdFlags (kern h1) fd AND O_NONBLOCK = O_NONBLOCK"
proof -
  from newFdCtx_socket[OF assms(6)] obtain k1 where k1: "newFdCtx fd k =
     (\<lparr>isInit = True, isSocket = True, sysNonblock = True, userNonblock = False, isClosed = False, ctxFd = fd,
       recvTimeout = 0, sendTimeout = 0\<rparr>, k1)"
    "fdSocket k1 = fdSocket k" "setfl k1 = setfl k" "fdFlags k1 fd AND O_NONBLOCK = O_NONBLOCK"
    using assms(7) by blast
  let ?c = "\<lparr>isInit = True, isSocket = True, sysNonblock = True, userNonblock = False, isClosed = False, ctxFd = fd,
       recvTimeout = 0, sendTimeout = 0\<rparr>"
  from fdCreate_ok[OF assms(2,4), of k] k1(1) obtain mgr where
    mgr: "fdCreate fd (fdMgr h) k = Inr (Some ?c, mgr, k1)" "nat fd < length mgr" "mgr ! nat fd = Some ?c" by auto
  have "fdGet fd True (fdMgr h) k = fdCreate fd (fdMgr h) k"
    using assms(2,3,5) by (auto simp: fdGet_def vecGet_in_range)
  then have "hookedSocket fd k h = Inr (fd, h\<lparr>kern := k1, fdMgr := mgr\<rparr>)"
    using assms(1,2) mgr(1) by (simp add: hookedSocket_def Let_def)
  moreover have "ctxAt (h\<lparr>kern := k1, fdMgr := mgr\<rparr>) fd ?c" using mgr(2,3) assms(2) by (simp add: ctxAt_def)
  moreover have "kernel_ok k1" using assms(7) k1(3) by (simp add: kernel_ok_def)
  ultimately show ?thesis
    using k1(2,4) assms(1,6) by (intro exI[of _ "h\<lparr>kern := k1, fdMgr := mgr\<rparr>"] exI[of _ ?c]) simp
qed

text \<open>Once the flag is set, it cannot be taken back: \<open>fcntl\<close> then hands everything to the kernel, which makes
  the descriptor block, while the context still says that the program wants it not to.\<close>

lemma nonblock_sticks:
  assumes "ctxAt h fd c" and "userNonblock c" and "fdSocket (kern h) fd \<noteq> None" and "kernel_ok (kern h)"
  shows "\<exists>h1. hookedFcntl fd (F_SETFL 0) h = Inr (0, h1) \<and> ctxAt h1 fd c \<and> fdFlags (kern h1) fd AND O_NONBLOCK = 0"
  using assms by (auto simp: hookedFcntl_def ctxAt_get fcntlSetRaw_def fcntlSet_def kernel_ok_def)

text \<open>\<open>ioctl\<close> with \<^verbatim>\<open>FIONBIO\<close> and 0 makes the kernel's descriptor block, below a context for which the hooks
  count on it not to.\<close>

lemma ioctl_blocks_below:
  assumes "ctxAt h fd c" and "isSocket c" and "\<not> isClosed c" and "fdSocket (kern h) fd \<noteq> None"
  shows "\<exists>h1. hookedIoctl fd (Some 0) h = Inr h1 \<and> ctxAt h1 fd (c\<lparr>userNonblock := False\<rparr>) \<and>
    fdFlags (kern h1) fd AND O_NONBLOCK = 0"
  using assms by (auto simp: hookedIoctl_def ctxAt_get ioctlNonblock_def nonblock_simps Let_def)

section \<open>Waiting for data\<close>

lemma expire_single:
  assumes "timers tm = [p]" and "timerObjs tm p = Some t" and "\<not> isRepeat t" and "nextRun t \<le> now"
  shows "\<exists>tm'. listExpiredCb now q tm = Inr ([timerCb t], tm') \<and> timerObjs tm' p = Some (t\<lparr>timerCb := None\<rparr>) \<and>
    timers tm' = []"
proof -
  obtain r m1 where d: "detectClockRollover now tm = (r, m1)" by fastforce
  then have m1: "timers m1 = [p]" "timerObjs m1 = timerObjs tm"
    using assms(1) by (auto simp: detectClockRollover_def split: if_splits)
  have "nextOf (timerObjs tm) p = nextRun t" using assms(2) by (simp add: nextOf_def timerKeyOf_def)
  moreover from this have "expiredPrefix (timerObjs tm) now q r [p] = ([p], [])"
    using assms(4) by (auto simp: expiredPrefix_def Let_def)
  ultimately show ?thesis
    using assms m1 by (simp add: listExpiredCb_def d not_less)
qed

lemma iomAddTimer_fields [simp]:
  "fdContexts (iomAddTimer p now ms cb r m) = fdContexts m" "ctxStore (iomAddTimer p now ms cb r m) = ctxStore m"
  "nextCtx (iomAddTimer p now ms cb r m) = nextCtx m" "epollReg (iomAddTimer p now ms cb r m) = epollReg m"
  "pendingEventCnt (iomAddTimer p now ms cb r m) = pendingEventCnt m" "iomSched (iomAddTimer p now ms cb r m) = iomSched m"
  by (simp_all add: iomAddTimer_def trickle_def Let_def split: prod.split)

lemma iomAddTimer_timers:
  "timers (iomTimers m) = [] \<Longrightarrow> timers (iomTimers (iomAddTimer p now ms cb r m)) = [p]"
  "timerObjs (iomTimers (iomAddTimer p now ms cb r m)) p
    = Some \<lparr>isRepeat = r, periodMs = ms, nextRun = now + ms, timerCb = Some cb\<rparr>"
  by (simp_all add: iomAddTimer_def addTimer_def insertTimer_def trickle_def setInsert_def insort_insert_key_def
      Let_def split: prod.split)

text \<open>The wait of a call that finds nothing: a timer after the send timeout, and the event with the fiber.\<close>

lemma addEvent_timers:
  assumes "iom_wf m" and "0 \<le> fd" "fd < int (length (fdContexts m))" "addEvent True self fd e cb m = Inr (r, m')"
  shows "iomTimers m' = iomTimers m"
proof -
  from iom_slot[OF assms(1-3)] obtain p where "findContext fd m = Inr (Some p)" by metis
  with assms(4) show ?thesis by (auto simp: addEvent_def andThen_eq_Inr Let_def split: option.splits)
qed

lemma doIo_waits:
  assumes h: "hookEnabled h" "ctxAt h fd c" "isSocket c" "\<not> userNonblock c" "\<not> isClosed c" "iomOf h = Some m"
    and m: "iom_wf m" "fd < int (length (fdContexts m))" "ctxStore m (fdContexts m ! nat fd) = Some fc" "e \<notin> fcEvents fc"
      "timers (iomTimers m) = []"
    and t: "sendTimeout c \<noteq> - 1" and self: "snd self = RUNNING"
  defines "q \<equiv> nextInfo h"
  shows "\<exists>m1 fc1 h1. doIo True self now p ((-1, EAGAIN) # raw) fd e opt h
      = Inr (IoWait \<lparr>frInfo = q, frTimer = Some p, frTimeout = sendTimeout c\<rparr> h1) \<and> iomOf h1 = Some m1 \<and>
    timerInfos h1 q = Some 0 \<and> iom_wf m1 \<and> fdContexts m1 = fdContexts m \<and>
    ctxStore m1 (fdContexts m ! nat fd) = Some fc1 \<and> e \<in> fcEvents fc1 \<and> wakeTask e fc1 = fiberTask (Some (fst self)) \<and>
    iomSched m1 = iomSched m \<and> timers (iomTimers m1) = [p] \<and>
    timerObjs (iomTimers m1) p = Some \<lparr>isRepeat = False, periodMs = sendTimeout c, nextRun = now + sendTimeout c,
      timerCb = Some (TimeoutCb q fd e)\<rparr>"
proof -
  have fd: "0 \<le> fd" using h(2) by (simp add: ctxAt_def)
  let ?m = "iomAddTimer p now (sendTimeout c) (TimeoutCb q fd e) False m"
  have wf: "iom_wf ?m" using m(1) by (subst iom_wf_cong[of ?m m]) simp_all
  have at: "fd < int (length (fdContexts ?m))" "ctxStore ?m (fdContexts m ! nat fd) = Some fc" using m(2,3) by simp_all
  have same: "fdContexts m ! nat fd = fdContexts ?m ! nat fd" by simp
  from addEvent_at(2)[OF wf fd at(1) same at(2) m(4), of None self] self obtain m1 fc1 where
    a: "addEvent True self fd e None ?m = Inr (0, m1)" "iom_wf m1" "fdContexts m1 = fdContexts ?m"
      "ctxStore m1 (fdContexts m ! nat fd) = Some fc1" "fcEvents fc1 = insert e (fcEvents fc)"
      "wakeTask e fc1 = waiter self None" "iomSched m1 = iomSched ?m" by blast
  have tms: "iomTimers m1 = iomTimers ?m" by (rule addEvent_timers[OF wf fd at(1) a(1)])
  have to: "getTimeout (eventCode e) c = sendTimeout c"
    by (cases e) (simp_all add: getTimeout_def eventCode_def SO_RCVTIMEO_def)
  let ?h1 = "h\<lparr>timerInfos := (timerInfos h)(q \<mapsto> 0), nextInfo := Suc q, errnoOf := EAGAIN, iomOf := Some m1\<rparr>"
  have "doIo True self now p ((-1, EAGAIN) # raw) fd e opt h
      = Inr (IoWait \<lparr>frInfo = q, frTimer = Some p, frTimeout = sendTimeout c\<rparr> ?h1)"
    using h t a(1) by (simp add: doIo_def ctxAt_get[OF h(2)] doIoRound_def armTimer_def to q_def[symmetric] EAGAIN_def EINTR_def Let_def)
  with a tms m(5) show ?thesis
    by (intro exI[of _ m1] exI[of _ fc1] exI[of _ ?h1]) (simp add: waiter_def iomAddTimer_timers)
qed

text \<open>The timer's callback, after it expired, ends the wait with an error.\<close>

lemma timeout_ends_wait:
  assumes w: "iom_wf m1" "0 \<le> fd" "fd < int (length (fdContexts m1))" "ctxStore m1 (fdContexts m1 ! nat fd) = Some fc1"
      "e \<in> fcEvents fc1"
    and h1: "timerInfos h1 q = Some 0"
    and tm: "timers (iomTimers m1) = [p]" "timerObjs (iomTimers m1) p = Some \<lparr>isRepeat = False, periodMs = ms,
      nextRun = start, timerCb = Some (TimeoutCb q fd e)\<rparr>" "start \<le> now'"
  shows "\<exists>m2 h3 m3. scheduleExpired now' a m1 = Inr m2 \<and>
    tasks (iomSched m2) = tasks (iomSched m1) @ [cbTask (TimeoutCb q fd e)] \<and>
    runHookCb True (TimeoutCb q fd e) (h1\<lparr>iomOf := Some m2\<rparr>) = Inr h3 \<and> iomOf h3 = Some m3 \<and>
    tasks (iomSched m3) = tasks (iomSched m2) @ [wakeTask e fc1] \<and> timerInfos h3 q = Some ETIMEDOUT \<and>
    timerObjs (iomTimers m3) p = Some \<lparr>isRepeat = False, periodMs = ms, nextRun = start, timerCb = None\<rparr>"
proof -
  let ?cb = "TimeoutCb q fd e"
  from expire_single[OF tm(1,2) _, of now' a] tm(3) obtain tm' where
    x: "listExpiredCb now' a (iomTimers m1) = Inr ([Some ?cb], tm')"
      "timerObjs tm' p = Some \<lparr>isRepeat = False, periodMs = ms, nextRun = start, timerCb = None\<rparr>" by auto
  let ?m2 = "iomSchedule \<lparr>taskFiber = None, taskCb = Some ?cb, taskThread = -1\<rparr> (m1\<lparr>iomTimers := tm'\<rparr>)"
  have m2: "scheduleExpired now' a m1 = Inr ?m2" by (simp add: scheduleExpired_def x(1))
  have t2: "tasks (iomSched ?m2) = tasks (iomSched m1) @ [cbTask ?cb]"
    by (subst iomSchedule_tasks) (simp_all add: cbTask_def)
  have wf2: "iom_wf ?m2" using w(1) by (subst iom_wf_cong[of ?m2 m1]) simp_all
  have same: "fdContexts m1 ! nat fd = fdContexts ?m2 ! nat fd" by simp
  from cancelEvent_at[OF wf2 w(2) _ same _ w(5)] w(3,4) obtain m3 where
    m3: "cancelEvent True fd e ?m2 = Inr (True, m3)" "iomTimers m3 = iomTimers ?m2"
      "tasks (iomSched m3) = tasks (iomSched ?m2) @ [wakeTask e fc1]" by auto
  let ?h3 = "h1\<lparr>timerInfos := (timerInfos h1)(q \<mapsto> ETIMEDOUT), iomOf := Some m3\<rparr>"
  have "runHookCb True ?cb (h1\<lparr>iomOf := Some ?m2\<rparr>) = Inr ?h3"
    using h1 m3(1) by (simp add: runHookCb_def onTimer_def)
  with m2 t2 m3 x(2) show ?thesis by (intro exI[of _ ?m2] exI[of _ ?h3] exI[of _ m3]) simp
qed

lemma resume_after_timeout:
  assumes "iomOf h3 = Some m3" and "timerInfos h3 q = Some ETIMEDOUT"
    and "timerObjs (iomTimers m3) p = Some \<lparr>isRepeat = False, periodMs = ms, nextRun = start, timerCb = None\<rparr>"
  shows "\<exists>h4. doIoResume ok self now p' raw fd e \<lparr>frInfo = q, frTimer = Some p, frTimeout = ms\<rparr> h3 = Inr (IoDone (-1) h4) \<and>
    errnoOf h4 = ETIMEDOUT"
  using assms by (simp add: doIoResume_def cancelTimerOf_def timerCancel_def leaveIo_def ETIMEDOUT_def Let_def)

section \<open>Properties\<close>

text \<open>The hooks keep the two views of \<^verbatim>\<open>O_NONBLOCK\<close> apart: after the hooked \<open>socket\<close> made a descriptor, a
  program that sets the status flags with \<open>fcntl\<close> reads back the non-blocking bit it set, set or not, while
  the kernel's flag, on which the fibers depend, is on all the time.  (This holds for the first
  setting; \<open>nonblock_sticks\<close> shows what a second one does.)
\<close>

theorem user_flags_round_trip:
  assumes "hookEnabled h" and "0 \<le> fd" and "fd \<noteq> int (length (fdMgr h))" and "2 \<le> length (fdMgr h)"
    and "fd < int (length (fdMgr h)) \<longrightarrow> fdMgr h ! nat fd = None" and "fdSocket k fd = Some True" and "kernel_ok k"
  shows "\<exists>h1 h2 v. hookedSocket fd k h = Inr (fd, h1) \<and> hookedFcntl fd (F_SETFL arg) h1 = Inr (0, h2) \<and>
    hookedFcntl fd F_GETFL h2 = Inr (v, h2) \<and> v AND O_NONBLOCK = arg AND O_NONBLOCK \<and>
    fdFlags (kern h1) fd AND O_NONBLOCK = O_NONBLOCK \<and> fdFlags (kern h2) fd AND O_NONBLOCK = O_NONBLOCK"
proof -
  from hookedSocket_fresh[OF assms] obtain h1 c where
    h1: "hookedSocket fd k h = Inr (fd, h1)" "ctxAt h1 fd c" "sysNonblock c" "\<not> userNonblock c" "\<not> isClosed c"
      "fdSocket (kern h1) fd = Some True" "kernel_ok (kern h1)" "fdFlags (kern h1) fd AND O_NONBLOCK = O_NONBLOCK" by blast
  from fcntl_set_get[OF h1(2-5) _ h1(7), of arg] h1(6) obtain h2 v where
    "hookedFcntl fd (F_SETFL arg) h1 = Inr (0, h2)" "hookedFcntl fd F_GETFL h2 = Inr (v, h2)"
    "v AND O_NONBLOCK = arg AND O_NONBLOCK" "fdFlags (kern h2) fd AND O_NONBLOCK = O_NONBLOCK" by auto
  with h1(1,8) show ?thesis by blast
qed

definition sampleKernel :: kernel where
  "sampleKernel = \<lparr>fdSocket = [9 \<mapsto> True], fdFlags = (\<lambda>_. 2), setfl = (\<lambda>old arg. arg)\<rparr>"

definition sampleHook :: "hookCb ioManager option \<Rightarrow> hook" where
  "sampleHook m = \<lparr>hookEnabled = True, fdMgr = newFdManager, kern = sampleKernel, iomOf = m, timerInfos = Map.empty,
     nextInfo = 0, errnoOf = 0\<rparr>"

definition sampleCtx :: fdCtx where
  "sampleCtx = \<lparr>isInit = True, isSocket = True, sysNonblock = True, userNonblock = False, isClosed = False,
    ctxFd = 9, recvTimeout = 3000, sendTimeout = 0\<rparr>"

definition sampleIom :: "hookCb ioManager" where
  "sampleIom = newIoManager 0 \<lparr>tasks = [], threadPool = [], threadIds = [], isStopped = False,
    threadCnt = 1, activeThreadCnt = 0, idleThreadCnt = 0, isUserCaller = False, rootThreadId = -1\<rparr>"

definition sampleIo :: hook where
  "sampleIo = (sampleHook (Some sampleIom))\<lparr>fdMgr := newFdManager[9 := Some sampleCtx]\<rparr>"

lemma sampleSocket:
  "hookEnabled sampleIo" "ctxAt sampleIo 9 sampleCtx" "isSocket sampleCtx" "\<not> userNonblock sampleCtx"
  "\<not> isClosed sampleCtx" "iomOf sampleIo = Some sampleIom" "iom_wf sampleIom" "9 < int (length (fdContexts sampleIom))"
  "ctxStore sampleIom (fdContexts sampleIom ! nat 9) = Some (newFdContext 9)"
  "callEvent call \<notin> fcEvents (newFdContext 9 :: hookCb fdContext)" "timers (iomTimers sampleIom) = []"
  "sendTimeout sampleCtx \<noteq> - 1"
proof -
  show "hookEnabled sampleIo" "ctxAt sampleIo 9 sampleCtx" "iomOf sampleIo = Some sampleIom"
    by (simp_all add: sampleIo_def sampleHook_def ctxAt_def newFdManager_def)
  show "isSocket sampleCtx" "\<not> userNonblock sampleCtx" "\<not> isClosed sampleCtx" "sendTimeout sampleCtx \<noteq> - 1"
    by (simp_all add: sampleCtx_def)
  show "iom_wf sampleIom" unfolding sampleIom_def by (rule newIoManager_inv[unfolded iom_inv_def, THEN conjunct1])
  show "9 < int (length (fdContexts sampleIom))" "ctxStore sampleIom (fdContexts sampleIom ! nat 9) = Some (newFdContext 9)"
    "timers (iomTimers sampleIom) = []"
    by (simp_all add: sampleIom_def newIoManager_fields newTimerManager_def del: upt_rec_numeral)
  show "callEvent call \<notin> fcEvents (newFdContext 9 :: hookCb fdContext)" by (simp add: newFdContext_def)
qed

theorem user_flags_round_trip_witness:
  "\<exists>h1 h2 v. hookedSocket 9 sampleKernel (sampleHook None) = Inr (9, h1) \<and>
     hookedFcntl 9 (F_SETFL 2) h1 = Inr (0, h2) \<and> hookedFcntl 9 F_GETFL h2 = Inr (v, h2) \<and> v AND O_NONBLOCK = 0 \<and>
     fdFlags (kern h2) 9 AND O_NONBLOCK = O_NONBLOCK"
proof -
  have "(2 :: 32 word) AND O_NONBLOCK = 0" by (simp add: O_NONBLOCK_def)
  moreover have "kernel_ok sampleKernel" by (simp add: kernel_ok_def sampleKernel_def)
  ultimately show ?thesis
    using user_flags_round_trip[of "sampleHook None" 9 sampleKernel 2]
    by (simp add: sampleHook_def newFdManager_def) (auto simp: sampleKernel_def)
qed



section \<open>Sleeping\<close>

text \<open>The conversions keep a duration up to where their types end: \<open>sleep\<close> multiplies 32 bit words, so 4294968
  seconds become 704 milliseconds, and \<open>usleep\<close> drops what is below a millisecond.\<close>

lemma sleepMs_exact: "uint seconds * 1000 < 2 ^ 32 \<Longrightarrow> uint (sleepMs seconds) = uint seconds * 1000"
proof -
  assume a: "uint seconds * 1000 < 2 ^ 32"
  have "uint (seconds * 1000) = uint seconds * 1000"
    using a unsigned_greater_eq[of seconds, where 'a = int] by (simp add: uint_word_ariths(3) mod_pos_pos_trivial)
  then show ?thesis using a by (simp add: sleepMs_def unsigned_ucast_eq take_bit_int_eq_self)
qed

lemma sleepMs_wraps: "sleepMs 4294968 = 704"
  by (simp add: sleepMs_def)

lemma usleepMs_drops: "usec < 1000 \<Longrightarrow> usleepMs usec = 0"
  by (simp add: usleepMs_def div_word_less)

text \<open>A sleeping fiber is put back by its timer and by nothing else: the timer carries the fiber.\<close>

lemma sleepFor_timer:
  assumes "iomOf h = Some m"
  shows "\<exists>h1 m1. sleepFor ms self now p h = Inr h1 \<and> iomOf h1 = Some m1 \<and> p \<in> set (timers (iomTimers m1)) \<and>
    timerObjs (iomTimers m1) p = Some \<lparr>isRepeat = False, periodMs = ms, nextRun = now + ms, timerCb = Some (WakeFiber (fst self))\<rparr>"
  using assms iomAddTimer_timers(2)[of p now ms "WakeFiber (fst self)" False m]
  by (simp add: sleepFor_def iomAddTimer_def addTimer_def insertTimer_def trickle_def Let_def setInsert_facts(2)
      split: prod.split)

end
