(* ===== verification/HookReady.thy ===== *)
theory HookReady
  imports HookTheorems
begin

text \<open>
  The good end of a hooked call that waits: the event comes before the timer, the fiber is put back, the timer
  is taken out again and the call returns what the original function returns then.
\<close>

lemma triggerIf_timers: "triggerIf c p e m = Inr m' \<Longrightarrow> iomTimers m' = iomTimers m"
  by (auto simp: triggerIf_def triggerEvent_def andThen_eq_Inr Let_def split: if_splits)

lemma handleReport_timers: "handleReport ok p rp m = Inr m' \<Longrightarrow> iomTimers m' = iomTimers m"
  by (auto simp: handleReport_def andThen_eq_Inr Let_def dest!: triggerIf_timers split: if_splits option.splits)

lemma report_wakes:
  assumes "iom_wf m" "0 \<le> fd" "fd < int (length (fdContexts m))" "ctxStore m (fdContexts m ! nat fd) = Some fc" "e \<in> fcEvents fc"
  shows "\<exists>m'. handleReport True (fdContexts m ! nat fd) \<lparr>rpEvents = {e}, rpError = False\<rparr> m = Inr m' \<and> iom_wf m' \<and>
    tasks (iomSched m') = tasks (iomSched m) @ [wakeTask e fc] \<and> iomTimers m' = iomTimers m"
proof -
  let ?rp = "\<lparr>rpEvents = {e}, rpError = False\<rparr>"
  have "current ?rp fc" "reported ?rp fc = {e}" using assms(5) by (simp_all add: current_def reported_def)
  with handleReport_current(2)[OF assms(1-3) refl assms(4)] obtain m' where
    "handleReport True (fdContexts m ! nat fd) ?rp m = Inr m'" "iom_wf m'"
    "tasks (iomSched m') = tasks (iomSched m) @ (if READ \<in> {e} then [wakeTask READ fc] else []) @
        (if WRITE \<in> {e} then [wakeTask WRITE fc] else [])" by metis
  then show ?thesis by (cases e) (auto dest: handleReport_timers)
qed

lemma cancel_armed:
  assumes "timers (iomTimers m) = [p]" and "timerObjs (iomTimers m) p = Some t" and "timerCb t \<noteq> None"
  shows "\<exists>m'. cancelTimerOf (Some p) m = Inr m' \<and> timers (iomTimers m') = [] \<and> iomSched m' = iomSched m"
  using assms by (simp add: cancelTimerOf_def timerCancel_def setFind_iff Let_def)

lemma late_timeout_ignored: "timerInfos h q = None \<Longrightarrow> runHookCb ok (TimeoutCb q fd e) h = Inr h"
  by (simp add: runHookCb_def onTimer_def)

lemma resume_ready:
  assumes "iomOf h = Some m" and "timerInfos h q = Some 0" and "timers (iomTimers m) = [p]"
    and "timerObjs (iomTimers m) p = Some t" and "timerCb t \<noteq> None"
    and "callRaw raw = Inr (n, err)" and "n \<noteq> -1 \<or> err \<noteq> EAGAIN"
  shows "\<exists>h' m'. doIoResume ok self now p' raw fd e \<lparr>frInfo = q, frTimer = Some p, frTimeout = ms\<rparr> h = Inr (IoDone n h') \<and>
    errnoOf h' = err \<and> iomOf h' = Some m' \<and> timers (iomTimers m') = [] \<and> iomSched m' = iomSched m \<and>
    timerInfos h' q = None"
proof -
  from cancel_armed[OF assms(3-5)] obtain m' where
    "cancelTimerOf (Some p) m = Inr m'" "timers (iomTimers m') = []" "iomSched m' = iomSched m" by blast
  with assms(1,2,6,7) show ?thesis by (simp add: doIoResume_def doIoRound_def leaveIo_def Let_def)
qed

section \<open>Property\<close>



end
