(* ===== verification/Shutdown.thy ===== *)
theory Shutdown
  imports IoTheorems
begin

text \<open>
  The destructors of \<^verbatim>\<open>src/fiber/scheduler.cpp\<close> and \<^verbatim>\<open>src/fiber/io_manager.cpp\<close>, behind the call of \<open>stop\<close> they
  begin with: a scheduler must have been stopped, and an event manager gives back its descriptors and contexts.
\<close>

text \<open>\<open>cur\<close> says whether this is the scheduler of the thread; the result says whether it still is the thread's.\<close>

definition schedulerDestroy :: "bool \<Rightarrow> 'c scheduler \<Rightarrow> bool res" where
  "schedulerDestroy cur s = andThen (myAssert (isStopped s)) (\<lambda>_. Inr (if cur then False else cur))"

text \<open>Deleting a context; a second deletion of one is an error.\<close>

definition deleteContext :: "nat \<Rightarrow> 'c ioManager \<Rightarrow> 'c ioManager res" where
  "deleteContext p m = andThen (derefOpt (ctxStore m p)) (\<lambda>_. Inr (m\<lparr>ctxStore := (ctxStore m)(p := None)\<rparr>))"

definition iomDestroy :: "bool \<Rightarrow> 'c ioManager \<Rightarrow> (bool \<times> 'c ioManager) res" where
  \<comment> \<open>closing the epoll descriptor drops what is registered, closing the pipe what is in it\<close>
  "iomDestroy cur m =
     andThen (foldR deleteContext (fdContexts m) (m\<lparr>epollReg := Map.empty, pipeBytes := 0\<rparr>)) (\<lambda>m1.
     andThen (schedulerDestroy cur (iomSched m1)) (\<lambda>cur1. Inr (cur1, m1)))"

lemma stop_marks: "schedulerStop mine s = Inr (wakes, root, s') \<Longrightarrow> isStopped s'"
  by (auto simp: schedulerStop_def schedulerStopping_def andThen_eq_Inr Let_def split: if_splits)

text \<open>After \<open>stop\<close> returned, the destructor's check holds.\<close>

lemma stop_then_destroy:
  "schedulerStop mine s = Inr (wakes, root, s') \<Longrightarrow> schedulerDestroy cur s' = Inr False"
  by (simp add: schedulerDestroy_def stop_marks)

lemma deleteContexts:
  assumes "distinct ps" and "\<forall>p\<in>set ps. ctxStore m p \<noteq> None"
  shows "\<exists>m'. foldR deleteContext ps m = Inr m' \<and> iomSched m' = iomSched m \<and>
    ctxStore m' = (\<lambda>p. if p \<in> set ps then None else ctxStore m p)"
  using assms
proof (induction ps arbitrary: m)
  case (Cons p ps)
  let ?m = "m\<lparr>ctxStore := (ctxStore m)(p := None)\<rparr>"
  have d: "deleteContext p m = Inr ?m" using Cons.prems(2) by (auto simp: deleteContext_def)
  have "distinct ps" "\<forall>q\<in>set ps. ctxStore ?m q \<noteq> None" using Cons.prems by (auto split: if_splits)
  from Cons.IH[OF this] obtain m' where
    "foldR deleteContext ps ?m = Inr m'" "iomSched m' = iomSched m"
    "ctxStore m' = (\<lambda>q. if q \<in> set ps then None else ctxStore ?m q)" by fastforce
  then show ?case using d by (intro exI[of _ m']) auto
qed simp

text \<open>The destructor of a stopped manager frees every context once and does not fail.\<close>

lemma iomDestroy_frees:
  assumes "iom_wf m" and "isStopped (iomSched m)"
  shows "\<exists>m'. iomDestroy cur m = Inr (False, m') \<and> (\<forall>p\<in>set (fdContexts m). ctxStore m' p = None)"
proof -
  let ?m = "m\<lparr>epollReg := Map.empty, pipeBytes := 0\<rparr>"
  have "ctxStore ?m p \<noteq> None" if "p \<in> set (fdContexts m)" for p
  proof -
    from that obtain i where "i < length (fdContexts m)" "p = fdContexts m ! i" by (auto simp: in_set_conv_nth)
    with iom_wfD(4)[OF assms(1)] show ?thesis by (auto simp: slot_ok_def)
  qed
  with deleteContexts[of "fdContexts m" ?m] iom_wfD(1)[OF assms(1)] obtain m' where
    "foldR deleteContext (fdContexts m) ?m = Inr m'" "iomSched m' = iomSched ?m"
    "ctxStore m' = (\<lambda>p. if p \<in> set (fdContexts m) then None else ctxStore ?m p)" by auto
  then show ?thesis using assms(2) by (simp add: iomDestroy_def schedulerDestroy_def)
qed

end
