(* ===== verification/RpcTheorems.thy ===== *)
theory RpcTheorems
  imports RpcChannel
begin

text \<open>
  A call reaches the method it names with the arguments it was made with, and its response comes back; and
  the sizes and splits of the byte stream for which that fails.
\<close>

section \<open>Registered services\<close>

lemma registerMethods_simps [simp]:
  "registerMethods [] m = m" "registerMethods (mt # mts) m = registerMethods mts (insertNew (methodName mt) mt m)"
  by (simp_all add: registerMethods_def)

lemma registerMethods_keep: "m k = Some mt \<Longrightarrow> registerMethods mts m k = Some mt"
proof (induction mts arbitrary: m)
  case (Cons a mts)
  then have "insertNew (methodName a) a m k = Some mt" by (auto simp: insertNew_def)
  from Cons.IH[of "insertNew (methodName a) a m", OF this] show ?case by simp
qed simp

lemma registerMethods_other: "k \<notin> methodName ` set mts \<Longrightarrow> registerMethods mts m k = m k"
  by (induction mts arbitrary: m) (auto simp: insertNew_def)

text \<open>Of methods with one name the first is registered, and so is the first of services with one name.\<close>

lemma notifyService_finds:
  assumes "sm (svcName s) = None" and "svcMethods s = as @ mt # bs" and "methodName mt \<notin> methodName ` set as"
  shows "\<exists>methods. notifyService s sm (svcName s) = Some methods \<and> methods (methodName mt) = Some mt"
proof -
  let ?m = "insertNew (methodName mt) mt (registerMethods as Map.empty)"
  have "?m (methodName mt) = Some mt"
    using registerMethods_other[OF assms(3), of Map.empty] by (simp add: insertNew_def)
  then have "registerMethods bs ?m (methodName mt) = Some mt" by (rule registerMethods_keep)
  moreover have "registerMethods (svcMethods s) Map.empty = registerMethods bs ?m"
    by (simp add: registerMethods_def assms(2))
  ultimately show ?thesis using assms(1) by (simp add: notifyService_def insertNew_def)
qed

lemma notifyService_keeps: "sm n = Some methods \<Longrightarrow> notifyService s sm n = Some methods"
  by (auto simp: notifyService_def insertNew_def)

section \<open>Frames\<close>

text \<open>The header of a call, and when a call can be framed at all.\<close>

definition headerOf :: "string \<Rightarrow> string \<Rightarrow> string \<Rightarrow> rpcHeader" where
  "headerOf service method args = \<lparr>service_name = service, method_name = method, args_size = length args mod 2 ^ 32\<rparr>"

definition sized :: "wire \<Rightarrow> string \<Rightarrow> string \<Rightarrow> string \<Rightarrow> bool" where
  "sized w service method args \<longleftrightarrow> length args < 2 ^ 32 \<and>
     (\<exists>hs. encHeader w (headerOf service method args) = Some hs \<and> length hs < 2 ^ 32)"

lemma frame_header:
  assumes "wire_ok w" and "sized w service method args"
  obtains hs frame where "buildFrame w service method args = Some frame" "frame = writeVarint32 w (length hs) @ hs @ args"
    "\<And>s. readVarint32 w (writeVarint32 w (length hs) @ s) = (length hs, s)"
    "decHeader w hs = Some \<lparr>service_name = service, method_name = method, args_size = length args\<rparr>"
proof -
  from assms(2) obtain hs where hs: "encHeader w (headerOf service method args) = Some hs" "length hs < 2 ^ 32" "length args < 2 ^ 32"
    by (auto simp: sized_def)
  show thesis
  proof (rule that)
    show "buildFrame w service method args = Some (writeVarint32 w (length hs) @ hs @ args)"
      using hs by (simp add: buildFrame_def headerOf_def)
    show "writeVarint32 w (length hs) @ hs @ args = writeVarint32 w (length hs) @ hs @ args" ..
    show "\<And>s. readVarint32 w (writeVarint32 w (length hs) @ s) = (length hs, s)" using assms(1) hs(2) by (simp add: wire_ok_def)
    have "decHeader w hs = Some (headerOf service method args)" using assms(1) hs(1) by (simp add: wire_ok_def)
    then show "decHeader w hs = Some \<lparr>service_name = service, method_name = method, args_size = length args\<rparr>"
      using hs(3) by (simp add: headerOf_def)
  qed
qed

text \<open>A buffer that holds a whole call, and possibly more: the call is dispatched, the rest is gone.\<close>

lemma onMessage_frame:
  assumes "wire_ok w" and "sized w service method args" and "buildFrame w service method args = Some frame"
    and "sm service = Some methods" and "methods method = Some mt" and "parseReq mt args = Some req"
  shows "onMessage w sm (frame @ behind) = Some (mt, req)"
proof -
  from frame_header[OF assms(1,2)] assms(3) obtain hs where f: "frame = writeVarint32 w (length hs) @ hs @ args"
    "\<And>s. readVarint32 w (writeVarint32 w (length hs) @ s) = (length hs, s)"
    "decHeader w hs = Some \<lparr>service_name = service, method_name = method, args_size = length args\<rparr>" by (metis option.inject)
  show ?thesis using assms(4-6) f(2)[of "hs @ args @ behind"] f(3) by (simp add: onMessage_def f(1) readString_def)
qed

text \<open>A buffer in which the end of a call is missing: nothing is done, and what was there is gone.\<close>

lemma onMessage_partial:
  assumes "wire_ok w" and "sized w service method args" and "buildFrame w service method args = Some frame"
    and "frame = got @ late" and "0 < length late" and "length late \<le> length args"
  shows "onMessage w sm got = None"
proof -
  from frame_header[OF assms(1,2)] assms(3) obtain hs where f: "frame = writeVarint32 w (length hs) @ hs @ args"
    "\<And>s. readVarint32 w (writeVarint32 w (length hs) @ s) = (length hs, s)"
    "decHeader w hs = Some \<lparr>service_name = service, method_name = method, args_size = length args\<rparr>" by (metis option.inject)
  let ?pre = "writeVarint32 w (length hs) @ hs" and ?k = "length args - length late"
  have "got = take (length got) frame" using assms(4) by simp
  also have "length got = length ?pre + ?k" using arg_cong[OF assms(4), of length] f(1) assms(6) by simp
  also have "take (length ?pre + ?k) frame = ?pre @ take ?k args" by (simp add: f(1))
  finally have got: "got = writeVarint32 w (length hs) @ hs @ take ?k args" by simp
  have short: "\<not> length args \<le> ?k" using assms(5,6) by linarith
  show ?thesis
    using f(2)[of "hs @ take ?k args"] f(3) assms(5,6) short by (simp add: onMessage_def got readString_def)
qed

section \<open>Responses\<close>

lemma callMethod_connected:
  assumes "0 \<le> sockfd ch" and "buildFrame w service method args = Some frame" and "sends net = (n, a) # ss" and "0 \<le> n"
    and "received net = Some avail"
  shows "callMethod w service method (Some args) parse net c ch =
    Inr (case parse (take 1024 avail) of None \<Rightarrow> (None, frame, setFailed ''parse response error'' c, ch)
         | Some resp \<Rightarrow> (Some resp, frame, c, ch))"
  using assms by (simp add: callMethod_def split: option.split)

text \<open>Only the first 1024 bytes of a response are read.\<close>

lemma long_response_cut:
  assumes "0 \<le> sockfd ch" and "buildFrame w service method args = Some frame" and "sends net = (n, a) # ss" and "0 \<le> n"
    and "received net = Some out" and "1024 < length out" and "parse (take 1024 out) = None"
  shows "utilCall w service method (Some args) parse net ch = Inr (False, None, frame, ch)"
  using assms by (simp add: utilCall_def callMethod_connected newController_def setFailed_def)

text \<open>A peer that closed the connection (\<^verbatim>\<open>recv\<close> gives no byte) counts as a response when the empty string
  parses, which it does for every message of the third version of the language: its fields are optional.\<close>

lemma closed_peer_succeeds:
  assumes "0 \<le> sockfd ch" and "buildFrame w service method args = Some frame" and "sends net = (n, a) # ss" and "0 \<le> n"
    and "received net = Some []" and "parse [] = Some dflt"
  shows "utilCall w service method (Some args) parse net ch = Inr (True, Some dflt, frame, ch)"
  using assms by (simp add: utilCall_def callMethod_connected newController_def)

text \<open>A call over a broken connection: reconnecting is tried, and a failure is an answer, not an exception.\<close>

lemma sendLoop_returns:
  assumes "snds = ss @ (n, a) # behind" and "0 \<le> n \<or> fst a < 0 \<or> fst (snd a) < 0" and "\<forall>(k, b)\<in>set ss. k < 0"
  shows "returns (sendLoop snds ch)"
  using assms
proof (induction ss arbitrary: snds ch)
  case Nil
  then show ?case by (auto simp: newConnect_def split: prod.splits)
next
  case (Cons x ss)
  obtain k b where x: "x = (k, b)" by (cases x) blast
  show ?case using Cons.prems Cons.IH[of "ss @ (n, a) # behind"] by (auto simp: x split: prod.splits)
qed

section \<open>Property\<close>

text \<open>C16: A remote call is faithful: the bytes a connected client sends for a method of a registered service make
  the server call exactly that method with exactly those arguments, and if its response fits
  the client's buffer, the client's wrapper answers true with exactly that response.
  (\<open>onMessage_partial\<close>, \<open>long_response_cut\<close> and \<open>closed_peer_succeeds\<close> are what happens otherwise.)
\<close>

theorem rpc_round_trip:
  assumes "wire_ok w" and "sized w (svcName s) (methodName mt) args"
    and "sm (svcName s) = None" and "svcMethods s = as @ mt # bs" and "methodName mt \<notin> methodName ` set as"
    and "parseReq mt args = Some req" and "serResp mt (handle mt req) = Some out" and "parse out = Some resp"
    and "length out \<le> 1024" and "0 \<le> sockfd ch"
  shows "\<exists>frame. buildFrame w (svcName s) (methodName mt) args = Some frame \<and>
    onMessage w (notifyService s sm) frame = Some (mt, req) \<and>
    (\<forall>n a. 0 \<le> n \<longrightarrow> utilCall w (svcName s) (methodName mt) (Some args) parse
      \<lparr>firstConnect = a, sends = [(n, a)], received = Some (serve w (notifyService s sm) frame), recvError = ''''\<rparr> ch
      = Inr (True, Some resp, frame, ch))"
proof -
  from frame_header[OF assms(1,2)] obtain frame where f: "buildFrame w (svcName s) (methodName mt) args = Some frame" by blast
  from notifyService_finds[of sm s as mt bs, OF assms(3-5)] obtain methods where
    m: "notifyService s sm (svcName s) = Some methods" "methods (methodName mt) = Some mt" by blast
  have on: "onMessage w (notifyService s sm) frame = Some (mt, req)"
    using onMessage_frame[where behind="[]", OF assms(1,2) f, of "notifyService s sm" methods mt req] m assms(6) by simp
  then have "serve w (notifyService s sm) frame = out" using assms(7) by (simp add: serve_def sendRpcResponse_def)
  with f on assms(8-10) show ?thesis
    by (auto simp: utilCall_def callMethod_connected newController_def)
qed

text \<open>A library for the witness: numbers as unary prefixes, the header with its fields separated.\<close>

definition sampleWire :: wire where
  "sampleWire = \<lparr>writeVarint32 = (\<lambda>n. replicate n CHR ''x'' @ '';''),
     readVarint32 = (\<lambda>s. (length (takeWhile (\<lambda>c. c \<noteq> CHR '';'') s), tl (dropWhile (\<lambda>c. c \<noteq> CHR '';'') s))),
     encHeader = (\<lambda>h. if h = \<lparr>service_name = ''Kv'', method_name = ''Get'', args_size = 2\<rparr> then Some ''KvGet2'' else None),
     decHeader = (\<lambda>s. if s = ''KvGet2'' then Some \<lparr>service_name = ''Kv'', method_name = ''Get'', args_size = 2\<rparr> else None)\<rparr>"

definition sampleMethod :: "(string, string) rpcMethod" where
  "sampleMethod = \<lparr>methodName = ''Get'', parseReq = Some, serResp = Some, handle = rev\<rparr>"

lemma sampleWire_ok: "wire_ok sampleWire"
proof -
  have "takeWhile (\<lambda>c. c \<noteq> CHR '';'') (replicate n CHR ''x'' @ '';'' @ s) = replicate n CHR ''x''"
    "dropWhile (\<lambda>c. c \<noteq> CHR '';'') (replicate n CHR ''x'' @ '';'' @ s) = '';'' @ s" for n s
    by (induction n) simp_all
  then show ?thesis by (simp add: wire_ok_def sampleWire_def)
qed

theorem rpc_round_trip_witness:
  "buildFrame sampleWire ''Kv'' ''Get'' ''ab'' = Some ''xxxxxx;KvGet2ab'' \<and>
   utilCall sampleWire ''Kv'' ''Get'' (Some ''ab'') Some
     \<lparr>firstConnect = (0, 0, ''''), sends = [(15, (0, 0, ''''))], received = Some ''ba'', recvError = ''''\<rparr>
     \<lparr>sockfd = 3, peerIp = ''h'', peerPort = 80\<rparr> = Inr (True, Some ''ba'', ''xxxxxx;KvGet2ab'', \<lparr>sockfd = 3, peerIp = ''h'', peerPort = 80\<rparr>)"
proof -
  let ?s = "\<lparr>svcName = ''Kv'', svcMethods = [sampleMethod]\<rparr>"
  have hd: "headerOf ''Kv'' ''Get'' ''ab'' = \<lparr>service_name = ''Kv'', method_name = ''Get'', args_size = 2\<rparr>"
    by (simp add: headerOf_def)
  then have sz: "sized sampleWire (svcName ?s) (methodName sampleMethod) ''ab''"
    by (simp add: sized_def sampleWire_def sampleMethod_def)
  have six: "replicate 6 CHR ''x'' = ''xxxxxx''" by (simp add: eval_nat_numeral)
  have f: "buildFrame sampleWire ''Kv'' ''Get'' ''ab'' = Some ''xxxxxx;KvGet2ab''"
    by (simp add: buildFrame_def sampleWire_def six)
  have on: "serve sampleWire (notifyService ?s Map.empty) ''xxxxxx;KvGet2ab'' = ''ba''"
    by (simp add: serve_def onMessage_def readString_def sampleWire_def notifyService_def insertNew_def
        sampleMethod_def sendRpcResponse_def)
  from rpc_round_trip[OF sampleWire_ok sz, of Map.empty "[]" "[]" "''ab''" "''ba''" Some "''ba''"
      "\<lparr>sockfd = 3, peerIp = ''h'', peerPort = 80\<rparr>"] f on
  show ?thesis by (simp add: sampleMethod_def)
qed

end
