(* ===== verification/Clerk.thy ===== *)
theory Clerk
  imports KvServer RpcConfig
begin

unbundle bit_operations_syntax

text \<open>
  The client of \<^verbatim>\<open>src/raftClerk/clerk.cpp\<close>.  What a server answers to an attempt is an argument: \<open>ask k srv args\<close>
  says whether the \<open>k\<close>-th attempt of a call, sent to \<open>srv\<close>, came back, and with which reply.  The loops that
  try the servers in turn have no bound in the code; here they have fuel, and running out of it is an
  error.
\<close>

section \<open>State\<close>

record clerk =
  servers :: "(string \<times> 16 word) list"
  clientId :: string
  requestId :: int
  recentLeaderId :: int

text \<open>\<open>Uuid\<close>: two random words in hexadecimal, each filled up with zeros to 16 digits.\<close>

definition hexDigit :: "nat \<Rightarrow> char" where
  "hexDigit d = (if d < 10 then char_of (48 + d) else char_of (87 + d))"

definition hex16 :: "64 word \<Rightarrow> string" where
  "hex16 w = map (\<lambda>i. hexDigit (unat (take_bit 4 (drop_bit (4 * (15 - i)) w)))) [0..<16]"

definition Uuid :: "64 word \<Rightarrow> 64 word \<Rightarrow> string" where
  "Uuid a b = hex16 a @ hex16 b"

definition newClerk :: "64 word \<Rightarrow> 64 word \<Rightarrow> clerk" where
  "newClerk a b = \<lparr>servers = [], clientId = Uuid a b, requestId = 0, recentLeaderId = 0\<rparr>"

definition clerkInit :: "string option \<Rightarrow> clerk \<Rightarrow> clerk res" where
  \<comment> \<open>the argument: the content of the configuration file\<close>
  "clerkInit configFile c =
     andThen (nodeAddrs 0 (LoadConfigFile configFile Map.empty)) (\<lambda>serversAddrs.
       Inr (c\<lparr>servers := servers c @ serversAddrs\<rparr>))"

section \<open>Calls\<close>

definition nextLeader :: "int \<Rightarrow> 'srv list \<Rightarrow> int" where
  "nextLeader leaderId srvs = (leaderId + 1) mod int (length srvs)"

fun getLoop :: "(nat \<Rightarrow> 'srv \<Rightarrow> getArgs \<Rightarrow> bool \<times> reply) \<Rightarrow> getArgs \<Rightarrow> 'srv list \<Rightarrow> nat \<Rightarrow> nat \<Rightarrow> int
    \<Rightarrow> (string \<times> int option) res" where
  "getLoop ask args srvs 0 k leaderId = Inl NoReturn"
| "getLoop ask args srvs (Suc n) k leaderId =
     andThen (vecGet srvs leaderId) (\<lambda>srv.
       case ask k srv args of (isOk, err, val) \<Rightarrow>
         if \<not> isOk \<or> err = ErrWrongLeader then getLoop ask args srvs n (Suc k) (nextLeader leaderId srvs)
         else if err = ErrNoKey then Inr ('''', None)
         else if err = OK then Inr (val, Some leaderId)
         else getLoop ask args srvs n (Suc k) leaderId)"

definition clerkGet :: "(nat \<Rightarrow> string \<times> 16 word \<Rightarrow> getArgs \<Rightarrow> bool \<times> reply) \<Rightarrow> nat \<Rightarrow> string \<Rightarrow> clerk \<Rightarrow> (string \<times> clerk) res" where
  "clerkGet ask n key c =
     (let c1 = c\<lparr>requestId := requestId c + 1\<rparr>;
          args = \<lparr>ga_key = key, ga_clientid = clientId c1, ga_requestid = requestId c1\<rparr>
      in andThen (getLoop ask args (servers c1) n 0 (recentLeaderId c1)) (\<lambda>(val, leader).
           Inr (val, case leader of None \<Rightarrow> c1 | Some l \<Rightarrow> c1\<lparr>recentLeaderId := l\<rparr>)))"

fun putAppendLoop :: "(nat \<Rightarrow> 'srv \<Rightarrow> putAppendArgs \<Rightarrow> bool \<times> reply) \<Rightarrow> putAppendArgs \<Rightarrow> 'srv list \<Rightarrow> nat \<Rightarrow> nat \<Rightarrow> int
    \<Rightarrow> int res" where
  "putAppendLoop ask args srvs 0 k leaderId = Inl NoReturn"
| "putAppendLoop ask args srvs (Suc n) k leaderId =
     andThen (vecGet srvs leaderId) (\<lambda>srv.
       case ask k srv args of (isOk, err, _) \<Rightarrow>
         if \<not> isOk \<or> err = ErrWrongLeader then putAppendLoop ask args srvs n (Suc k) (nextLeader leaderId srvs)
         else if err = OK then Inr leaderId
         else putAppendLoop ask args srvs n (Suc k) leaderId)"

definition callArgs :: "string \<Rightarrow> string \<Rightarrow> string \<Rightarrow> clerk \<Rightarrow> putAppendArgs" where
  "callArgs key val op c = \<lparr>pa_key = key, pa_value = val, pa_op = op, pa_clientid = clientId c, pa_requestid = requestId c\<rparr>"

definition clerkPutAppend :: "(nat \<Rightarrow> string \<times> 16 word \<Rightarrow> putAppendArgs \<Rightarrow> bool \<times> reply) \<Rightarrow> nat \<Rightarrow> string \<Rightarrow> string \<Rightarrow> string
    \<Rightarrow> clerk \<Rightarrow> clerk res" where
  "clerkPutAppend ask n key val op c =
     (let c1 = c\<lparr>requestId := requestId c + 1\<rparr>;
          args = callArgs key val op c1
      in andThen (putAppendLoop ask args (servers c1) n 0 (recentLeaderId c1)) (\<lambda>leaderId.
           Inr (c1\<lparr>recentLeaderId := leaderId\<rparr>)))"

definition clerkPut :: "(nat \<Rightarrow> string \<times> 16 word \<Rightarrow> putAppendArgs \<Rightarrow> bool \<times> reply) \<Rightarrow> nat \<Rightarrow> string \<Rightarrow> string \<Rightarrow> clerk \<Rightarrow> clerk res" where
  "clerkPut ask n key val c = clerkPutAppend ask n key val ''Put'' c"

definition clerkAppend :: "(nat \<Rightarrow> string \<times> 16 word \<Rightarrow> putAppendArgs \<Rightarrow> bool \<times> reply) \<Rightarrow> nat \<Rightarrow> string \<Rightarrow> string \<Rightarrow> clerk \<Rightarrow> clerk res" where
  "clerkAppend ask n key val c = clerkPutAppend ask n key val ''Append'' c"

section \<open>The search for the leader\<close>

lemma putAppendLoop_step:
  assumes "vecGet srvs l = Inr srv"
  shows "putAppendLoop ask args srvs (Suc n) k l =
    (if \<not> fst (ask k srv args) \<or> fst (snd (ask k srv args)) = ErrWrongLeader
     then putAppendLoop ask args srvs n (Suc k) (nextLeader l srvs)
     else if fst (snd (ask k srv args)) = OK then Inr l else putAppendLoop ask args srvs n (Suc k) l)"
  by (cases "ask k srv args") (simp add: assms)

lemma vecGet_nat: "i < length xs \<Longrightarrow> vecGet xs (int i) = Inr (xs ! i)"
  by (simp add: vecGet_def)

text \<open>From any start, as long as the others refuse, a server that answers is reached in one turn.\<close>

lemma putAppendLoop_finds:
  assumes "j < length srvs" and "\<And>k. fst (ask k (srvs ! j) args) \<and> fst (snd (ask k (srvs ! j) args)) = OK"
    and "\<And>i k. i < length srvs \<Longrightarrow> i \<noteq> j \<Longrightarrow> \<not> fst (ask k (srvs ! i) args) \<or> fst (snd (ask k (srvs ! i) args)) = ErrWrongLeader"
    and "l < length srvs" and "(l + d) mod length srvs = j" and "d < n"
  shows "putAppendLoop ask args srvs n k (int l) = Inr (int j)"
  using assms(4-6)
proof (induction d arbitrary: l k n)
  case 0
  then obtain n' where n: "n = Suc n'" by (cases n) auto
  have l: "l = j" using 0 by simp
  then show ?case using assms(2)[of k] putAppendLoop_step[OF vecGet_nat[OF 0(1)]] by (simp add: n)
next
  case (Suc d)
  then obtain n' where n: "n = Suc n'" by (cases n) auto
  show ?case
  proof (cases "l = j")
    case True
    then show ?thesis using assms(2)[of k] putAppendLoop_step[OF vecGet_nat[OF Suc.prems(1)]] by (simp add: n)
  next
    case False
    let ?l = "(l + 1) mod length srvs"
    have next_l: "nextLeader (int l) srvs = int ?l" by (simp add: nextLeader_def zmod_int add.commute)
    have "?l < length srvs" using Suc.prems(1) by (intro mod_less_divisor) linarith
    moreover have "(?l + d) mod length srvs = j" using Suc.prems(2) by (simp add: mod_simps)
    ultimately have "putAppendLoop ask args srvs n' (Suc k) (int ?l) = Inr (int j)"
      using Suc.IH[of ?l n' "Suc k"] Suc.prems(3) n by simp
    then show ?thesis
      using assms(3)[OF Suc.prems(1) False, of k] next_l putAppendLoop_step[OF vecGet_nat[OF Suc.prems(1)]] by (simp add: n)
  qed
qed

lemma round_trip_distance:
  assumes "l < (n :: nat)" and "j < n"
  shows "\<exists>d<n. (l + d) mod n = j"
proof (cases "l \<le> j")
  case True
  with assms show ?thesis by (intro exI[of _ "j - l"]) simp
next
  case False
  with assms show ?thesis by (intro exI[of _ "n + j - l"]) auto
qed

text \<open>An answer that is none of the three, such as the empty one of a reply nobody filled in, is asked for
  again at the same server, without end.\<close>

lemma unknown_error_loops:
  assumes "vecGet srvs leaderId = Inr srv"
    and "\<And>k. fst (ask k srv args) \<and> fst (snd (ask k srv args)) \<notin> {OK, ErrNoKey, ErrWrongLeader}"
  shows "putAppendLoop ask args srvs n k leaderId = Inl NoReturn"
proof (induction n arbitrary: k)
  case (Suc n)
  then show ?case using putAppendLoop_step[OF assms(1)] assms(2)[of k] by simp
qed simp

lemma vecGet_Nil: "vecGet [] i = Inl BadAccess"
  by (simp add: vecGet_def)

lemma no_servers: "putAppendLoop ask args [] (Suc n) k leaderId = Inl BadAccess"
  by (simp add: vecGet_Nil)

section \<open>Client names\<close>

lemma hexDigit_inj:
  assumes "d < 16" "e < 16" "hexDigit d = hexDigit e"
  shows "d = e"
proof -
  have val: "(of_char (hexDigit x) :: nat) = (if x < 10 then 48 + x else 87 + x)" if "x < 16" for x
    using that by (simp add: hexDigit_def)
  from arg_cong[OF assms(3), of "of_char :: char \<Rightarrow> nat"] show ?thesis
    using assms(1,2) by (auto simp: val split: if_splits)
qed

lemma hex16_inject:
  assumes "hex16 a = hex16 b"
  shows "a = b"
proof (rule bit_word_eqI)
  fix n assume "n < LENGTH(64)"
  then have n: "n < 64" by simp
  let ?i = "15 - n div 4"
  have i: "?i < 16" "15 - ?i = n div 4" using n by auto
  have small: "unat (take_bit 4 (drop_bit k w :: 64 word)) < 16" for k w
    using take_bit_nat_less_exp[of 4 "unat (drop_bit k w)"] by (simp add: unsigned_take_bit_eq)
  from arg_cong[OF assms, of "\<lambda>xs. xs ! ?i"] i
  have "hexDigit (unat (take_bit 4 (drop_bit (4 * (n div 4)) a))) = hexDigit (unat (take_bit 4 (drop_bit (4 * (n div 4)) b)))"
    by (simp add: hex16_def del: upt_rec_numeral)
  then have "take_bit 4 (drop_bit (4 * (n div 4)) a) = take_bit 4 (drop_bit (4 * (n div 4)) b)"
    by (metis hexDigit_inj small unsigned_word_eqI)
  from arg_cong[OF this, of "\<lambda>w. bit w (n mod 4)"] show "bit a n = bit b n"
    by (simp add: bit_take_bit_iff bit_drop_bit_eq)
qed

lemma Uuid_inject: "Uuid a b = Uuid c d \<longleftrightarrow> a = c \<and> b = d"
proof -
  have "length (hex16 w) = 16" for w by (simp add: hex16_def del: upt_rec_numeral)
  then show ?thesis by (auto simp: Uuid_def dest: hex16_inject)
qed

section \<open>Property\<close>


definition sampleAsk :: "nat \<Rightarrow> string \<times> 16 word \<Rightarrow> putAppendArgs \<Rightarrow> bool \<times> reply" where
  "sampleAsk k srv args = (if snd srv = 1 then (False, '''', '''') else if snd srv = 2 then (True, ErrWrongLeader, '''')
     else (True, OK, ''''))"


end
