(* ===== verification/ExactlyOnce.thy ===== *)
theory ExactlyOnce
  imports KvTheorems Clerk
begin

text \<open>
  A client and the servers together: the commands a client's calls put into the log, possibly several times
  because every attempt at a leader may add one, and what the apply loop makes of them.
\<close>

section \<open>The commands of a client\<close>

text \<open>The operations a server builds from the calls \<open>(operation, key, value)\<close> a client makes one after the
  other; the attempts of one call all send the same arguments.\<close>

fun clientOps :: "clerk \<Rightarrow> (string \<times> string \<times> string) list \<Rightarrow> op list" where
  "clientOps c [] = []"
| "clientOps c ((operation, key, val) # ws) =
     (let c1 = c\<lparr>requestId := requestId c + 1\<rparr> in putAppendOp (callArgs key val operation c1) # clientOps c1 ws)"

text \<open>A log with repetitions: \<open>ys\<close> has each command of client \<open>cid\<close> once, in \<open>xs\<close> they may come again at any time
  after the first; the commands of others stand as they are.\<close>

inductive repeated :: "string \<Rightarrow> op list \<Rightarrow> op list \<Rightarrow> bool" for cid where
  repeated_none: "repeated cid [] []"
| repeated_next: "repeated cid ys xs \<Longrightarrow> repeated cid (ys @ [p]) (xs @ [p])"
| repeated_again: "repeated cid ys xs \<Longrightarrow> p \<in> set ys \<Longrightarrow> ClientId p = cid \<Longrightarrow> repeated cid ys (xs @ [p])"

text \<open>A command of the client executed without looking at the request table.\<close>

definition execute :: "string \<Rightarrow> op \<Rightarrow> kvState \<Rightarrow> kvState" where
  "execute cid p st = (if ClientId p = cid
     then (case st of (m, ids) \<Rightarrow> (m(Key p \<mapsto> absValue p m), ids(ClientId p \<mapsto> RequestId p))) else absApply p st)"

section \<open>Request numbers go up\<close>

abbreviation ownLater :: "clerk \<Rightarrow> op \<Rightarrow> bool" where
  "ownLater c p \<equiv> requestId c < RequestId p \<and> ClientId p = clientId c \<and> isWrite p"

lemma clientOps_all:
  assumes "\<forall>(operation, key, val)\<in>set ws. operation = ''Put'' \<or> operation = ''Append''"
  shows "sorted_wrt (<) (map RequestId (clientOps c ws)) \<and> (\<forall>p\<in>set (clientOps c ws). ownLater c p)"
  using assms
proof (induction ws arbitrary: c)
  case (Cons w ws)
  obtain operation key val where w: "w = (operation, key, val)" by (cases w)
  let ?c = "c\<lparr>requestId := requestId c + 1\<rparr>"
  let ?p = "putAppendOp (callArgs key val operation ?c)"
  have ops: "clientOps c (w # ws) = ?p # clientOps ?c ws" by (simp add: w Let_def)
  have p: "RequestId ?p = requestId c + 1" "ownLater c ?p"
    using Cons.prems by (auto simp: w putAppendOp_def callArgs_def isWrite_def)
  have IH: "sorted_wrt (<) (map RequestId (clientOps ?c ws))" "\<forall>q\<in>set (clientOps ?c ws). ownLater ?c q"
    using Cons.IH[of ?c] Cons.prems by simp_all
  then have "\<forall>q\<in>set (clientOps ?c ws). requestId c + 1 < RequestId q \<and> ownLater c q" by auto
  with IH(1) p show ?case by (simp add: ops)
qed simp

lemmas clientOps_sorted = clientOps_all[THEN conjunct1]
lemmas clientOps_own = clientOps_all[THEN conjunct2, THEN bspec]

section \<open>Repetitions are skipped\<close>

lemma absApply_seen: "seen p (snd st) \<Longrightarrow> absApply p st = st"
  by (cases st) (simp add: absApply_def)

lemma absApply_ids: "ClientId p \<noteq> cid \<Longrightarrow> snd (absApply p st) cid = snd st cid"
  by (cases st) (simp add: absApply_def)

lemma repeated_executes_once:
  assumes "repeated cid ys xs"
    and "sorted_wrt (<) (map RequestId (filter (\<lambda>p. ClientId p = cid) ys))"
    and "\<forall>p\<in>set ys. ClientId p = cid \<longrightarrow> isWrite p \<and> \<not> seen p (snd st)"
  shows "fold absApply xs st = fold (execute cid) ys st \<and>
    snd (fold (execute cid) ys st) cid = (if filter (\<lambda>p. ClientId p = cid) ys = [] then snd st cid
      else Some (RequestId (last (filter (\<lambda>p. ClientId p = cid) ys))))"
  using assms
proof (induction rule: repeated.induct)
  case (repeated_next ys xs p)
  let ?own = "filter (\<lambda>p. ClientId p = cid)"
  have IH: "fold absApply xs st = fold (execute cid) ys st"
    "snd (fold (execute cid) ys st) cid = (if ?own ys = [] then snd st cid else Some (RequestId (last (?own ys))))"
    using repeated_next.IH repeated_next.prems by (simp_all add: sorted_wrt_append split: if_splits)
  obtain m ids where st: "fold (execute cid) ys st = (m, ids)" by fastforce
  show ?case
  proof (cases "ClientId p = cid")
    case True
    have "isWrite p" "\<not> seen p (snd st)" using repeated_next.prems(2) True by simp_all
    moreover have "RequestId (last (?own ys)) < RequestId p" if "?own ys \<noteq> []"
      using repeated_next.prems(1) True last_in_set[OF that] by (simp add: sorted_wrt_append)
    ultimately have "isWrite p" "\<not> seen p ids"
      using IH(2) True by (auto simp: seen_def st split: if_splits)
    then have "absApply p (m, ids) = execute cid p (m, ids)" by (simp add: absApply_def execute_def True)
    then have "fold absApply (xs @ [p]) st = fold (execute cid) (ys @ [p]) st" using IH(1) st by simp
    moreover have "snd (execute cid p (m, ids)) cid = Some (RequestId p)" by (simp add: execute_def True)
    ultimately show ?thesis using True st by simp
  next
    case False
    then have p: "execute cid p (m, ids) = absApply p (m, ids)" by (simp add: execute_def)
    then have "fold absApply (xs @ [p]) st = fold (execute cid) (ys @ [p]) st" using IH(1) st by simp
    moreover have "snd (execute cid p (m, ids)) cid = ids cid" using absApply_ids[OF False, of "(m, ids)"] p by simp
    ultimately show ?thesis using False IH(2) st by simp
  qed
next
  case (repeated_again ys xs p)
  let ?own = "filter (\<lambda>p. ClientId p = cid)"
  note IH = repeated_again.IH[OF repeated_again.prems]
  have p: "p \<in> set (?own ys)" using repeated_again.hyps by simp
  then have "?own ys \<noteq> []" by (cases "?own ys") simp_all
  then obtain qs q where q: "?own ys = qs @ [q]" by (metis rev_exhaust)
  have "RequestId p \<le> RequestId q"
    using p repeated_again.prems(1) by (auto simp: q sorted_wrt_append less_imp_le)
  then have "seen p (snd (fold (execute cid) ys st))"
    using IH repeated_again.hyps(3) by (simp add: seen_def q)
  then show ?case using IH absApply_seen by simp
qed simp

section \<open>Property\<close>


abbreviation twoCalls :: "(string \<times> string \<times> string) list" where
  "twoCalls \<equiv> [(''Put'', ''k'', ''a''), (''Append'', ''k'', ''b'')]"

abbreviation sampleClerk :: clerk where
  "sampleClerk \<equiv> (newClerk 0 0)\<lparr>clientId := ''c''\<rparr>"

abbreviation append2 :: op where
  "append2 \<equiv> \<lparr>Operation = ''Append'', Key = ''k'', Value = ''b'', ClientId = ''c'', RequestId = 2\<rparr>"

lemma sampleClerk_ops: "clientOps sampleClerk twoCalls = [putA, append2]"
  by (simp add: putAppendOp_def callArgs_def newClerk_def)

lemma sample_repeated: "repeated ''c'' [putA, append2] [putA, append2, putA, append2]"
proof -
  have r: "repeated ''c'' [putA, append2] [putA, append2]"
    using repeated_next[OF repeated_next[OF repeated_none]] by simp
  from repeated_again[OF repeated_again[OF r, of putA], of append2] show ?thesis by simp
qed


end
