(* ===== verification/Locks.thy ===== *)
theory Locks
  imports Prelude Transitions "HOL-Library.Multiset"
begin

text \<open>
  The locks of \<^verbatim>\<open>src/fiber/include/mutex.hpp\<close>, the guards that hold them for a scope, and the thread objects of
  \<^verbatim>\<open>src/fiber/thread.cpp\<close>.  The pthread calls are rendered from their manual pages: a call takes the lock,
  refuses with \<^verbatim>\<open>EDEADLK\<close>, or leaves the caller waiting.  Threads are numbers.
\<close>

section \<open>pthread locks\<close>

datatype 'l acquired = Taken 'l | Refused | Waits

text \<open>A mutex with default attributes: the thread that holds it.  Its owner waits for itself when it locks it
  again, and unlocking a mutex the caller does not hold is undefined.\<close>

type_synonym mutex = "nat option"

definition pthreadMutexLock :: "nat \<Rightarrow> mutex \<Rightarrow> mutex acquired" where
  "pthreadMutexLock t l = (case l of None \<Rightarrow> Taken (Some t) | Some _ \<Rightarrow> Waits)"

definition pthreadMutexUnlock :: "nat \<Rightarrow> mutex \<Rightarrow> mutex res" where
  "pthreadMutexUnlock t l = (if l = Some t then Inr None else Inl BadAccess)"

text \<open>A read-write lock: the threads that read, once per call, and the one that writes.  The writer itself
  is refused, anybody else waits.\<close>

record rwlock =
  readers :: "nat multiset"
  writer :: "nat option"

definition pthreadRdlock :: "nat \<Rightarrow> rwlock \<Rightarrow> rwlock acquired" where
  "pthreadRdlock t l = (case writer l of
     None \<Rightarrow> Taken (l\<lparr>readers := add_mset t (readers l)\<rparr>)
   | Some w \<Rightarrow> if w = t then Refused else Waits)"

definition pthreadWrlock :: "nat \<Rightarrow> rwlock \<Rightarrow> rwlock acquired" where
  "pthreadWrlock t l = (case writer l of
     None \<Rightarrow> if readers l = {#} then Taken (l\<lparr>writer := Some t\<rparr>) else Waits
   | Some w \<Rightarrow> if w = t then Refused else Waits)"

definition pthreadRwUnlock :: "nat \<Rightarrow> rwlock \<Rightarrow> rwlock res" where
  "pthreadRwUnlock t l =
     (if writer l = Some t then Inr (l\<lparr>writer := None\<rparr>)
      else if t \<in># readers l then Inr (l\<lparr>readers := readers l - {#t#}\<rparr>)
      else Inl BadAccess)"

section \<open>Mutex and RWMutex\<close>

text \<open>The outcome \<open>None\<close> of an operation is a caller that waits.  \<^verbatim>\<open>Mutex\<close> checks what pthread answers,
  \<^verbatim>\<open>RWMutex\<close> does not.\<close>

definition mutexLock :: "nat \<Rightarrow> mutex \<Rightarrow> mutex res option" where
  "mutexLock t l = (case pthreadMutexLock t l of
     Taken l' \<Rightarrow> Some (Inr l') | Refused \<Rightarrow> Some (Inl AssertFail) | Waits \<Rightarrow> None)"

definition mutexUnlock :: "nat \<Rightarrow> mutex \<Rightarrow> mutex res" where
  "mutexUnlock t l = pthreadMutexUnlock t l"

definition mutexDestroy :: "mutex \<Rightarrow> unit res" where
  \<comment> \<open>\<^verbatim>\<open>pthread_mutex_destroy\<close> answers \<^verbatim>\<open>EBUSY\<close> for a mutex that is held\<close>
  "mutexDestroy l = myAssert (l = None)"

definition rdlock :: "nat \<Rightarrow> rwlock \<Rightarrow> rwlock res option" where
  "rdlock t l = (case pthreadRdlock t l of Taken l' \<Rightarrow> Some (Inr l') | Refused \<Rightarrow> Some (Inr l) | Waits \<Rightarrow> None)"

definition wrlock :: "nat \<Rightarrow> rwlock \<Rightarrow> rwlock res option" where
  "wrlock t l = (case pthreadWrlock t l of Taken l' \<Rightarrow> Some (Inr l') | Refused \<Rightarrow> Some (Inr l) | Waits \<Rightarrow> None)"

definition rwUnlock :: "nat \<Rightarrow> rwlock \<Rightarrow> rwlock res" where
  "rwUnlock t l = pthreadRwUnlock t l"

definition newRWMutex :: rwlock where
  "newRWMutex = \<lparr>readers = {#}, writer = None\<rparr>"

section \<open>Guards\<close>

text \<open>The three class templates for guards differ in the call that takes the lock, which is their first
  argument here.  A guard belongs to the thread in whose scope it stands.\<close>

record guard =
  gowner :: nat
  isLocked :: bool

definition scopedMake :: "(nat \<Rightarrow> 'l \<Rightarrow> 'l res option) \<Rightarrow> nat \<Rightarrow> 'l \<Rightarrow> (guard \<times> 'l) res option" where
  "scopedMake acq t l =
     map_option (\<lambda>r. andThen r (\<lambda>l'. Inr (\<lparr>gowner = t, isLocked = True\<rparr>, l'))) (acq t l)"

definition scopedLock :: "(nat \<Rightarrow> 'l \<Rightarrow> 'l res option) \<Rightarrow> guard \<Rightarrow> 'l \<Rightarrow> (guard \<times> 'l) res option" where
  "scopedLock acq g l =
     (if \<not> isLocked g
      then map_option (\<lambda>r. andThen r (\<lambda>l'. Inr (g\<lparr>isLocked := True\<rparr>, l'))) (acq (gowner g) l)
      else Some (Inr (g, l)))"

definition scopedUnlock :: "(nat \<Rightarrow> 'l \<Rightarrow> 'l res) \<Rightarrow> guard \<Rightarrow> 'l \<Rightarrow> (guard \<times> 'l) res" where
  "scopedUnlock rel g l =
     (if isLocked g then andThen (rel (gowner g) l) (\<lambda>l'. Inr (g\<lparr>isLocked := False\<rparr>, l')) else Inr (g, l))"

definition scopedDestroy :: "(nat \<Rightarrow> 'l \<Rightarrow> 'l res) \<Rightarrow> guard \<Rightarrow> 'l \<Rightarrow> 'l res" where
  "scopedDestroy rel g l = andThen (scopedUnlock rel g l) (\<lambda>(g', l'). Inr l')"

section \<open>One lock and its guards\<close>

text \<open>\<open>'m\<close> is the kind of a guard.  A thread that has locked an exclusive guard takes no other on the same
  lock; the code keeps to this, and the last section shows what happens otherwise.\<close>

record ('m, 'l) lockSys =
  lock :: 'l
  guards :: "('m \<times> guard) multiset"

definition lockedGuards :: "('m \<times> guard) multiset \<Rightarrow> ('m \<times> guard) multiset" where
  "lockedGuards gs = filter_mset (\<lambda>(m, g). isLocked g) gs"

definition holders :: "('m \<times> guard) multiset \<Rightarrow> ('m \<times> nat) multiset" where
  "holders gs = image_mset (\<lambda>(m, g). (m, gowner g)) (lockedGuards gs)"

definition mayTake :: "('m \<Rightarrow> bool) \<Rightarrow> nat \<Rightarrow> ('m, 'l) lockSys \<Rightarrow> bool" where
  "mayTake excl t s = (\<forall>(m, u)\<in>#holders (guards s). u = t \<longrightarrow> \<not> excl m)"

inductive lockStep :: "('m \<Rightarrow> nat \<Rightarrow> 'l \<Rightarrow> 'l res option) \<Rightarrow> (nat \<Rightarrow> 'l \<Rightarrow> 'l res) \<Rightarrow> ('m \<Rightarrow> bool)
    \<Rightarrow> ('m, 'l) lockSys \<Rightarrow> ('m, 'l) lockSys \<Rightarrow> bool" for acq rel excl where
  make: "mayTake excl t s \<Longrightarrow> scopedMake (acq m) t (lock s) = Some (Inr (g, l)) \<Longrightarrow>
    lockStep acq rel excl s \<lparr>lock = l, guards = add_mset (m, g) (guards s)\<rparr>"
| again: "(m, g) \<in># guards s \<Longrightarrow> isLocked g \<or> mayTake excl (gowner g) s \<Longrightarrow>
    scopedLock (acq m) g (lock s) = Some (Inr (g', l)) \<Longrightarrow>
    lockStep acq rel excl s \<lparr>lock = l, guards = add_mset (m, g') (guards s - {#(m, g)#})\<rparr>"
| unlock: "(m, g) \<in># guards s \<Longrightarrow> scopedUnlock rel g (lock s) = Inr (g', l) \<Longrightarrow>
    lockStep acq rel excl s \<lparr>lock = l, guards = add_mset (m, g') (guards s - {#(m, g)#})\<rparr>"
| destroy: "(m, g) \<in># guards s \<Longrightarrow> scopedDestroy rel g (lock s) = Inr l \<Longrightarrow>
    lockStep acq rel excl s \<lparr>lock = l, guards = guards s - {#(m, g)#}\<rparr>"

definition alone :: "('m \<Rightarrow> bool) \<Rightarrow> ('m \<times> nat) multiset \<Rightarrow> bool" where
  "alone excl M = (\<forall>(m, t)\<in>#M. excl m \<longrightarrow> M = {#(m, t)#})"

definition lock_inv :: "('l \<Rightarrow> ('m \<times> nat) multiset) \<Rightarrow> ('m \<Rightarrow> bool) \<Rightarrow> ('m, 'l) lockSys \<Rightarrow> bool" where
  "lock_inv held excl s = (held (lock s) = holders (guards s) \<and> alone excl (held (lock s)))"

lemmas make_to = back_subst[where P = "lockStep acq rel excl s" for acq rel excl s, OF lockStep.make]
lemmas unlock_to = back_subst[where P = "lockStep acq rel excl s" for acq rel excl s, OF lockStep.unlock]

subsection \<open>What guards do, for every lock that keeps its contract\<close>

lemma holders_add: "holders (add_mset (m, g) gs) = (if isLocked g then add_mset (m, gowner g) (holders gs) else holders gs)"
  by (simp add: holders_def lockedGuards_def)

lemma holders_remove:
  assumes "(m, g) \<in># gs"
  shows "holders (gs - {#(m, g)#}) = (if isLocked g then holders gs - {#(m, gowner g)#} else holders gs)"
proof -
  obtain hs where "gs = add_mset (m, g) hs" using assms by (meson multi_member_split)
  then show ?thesis by (simp add: holders_add)
qed

lemma holders_mem: "(m, g) \<in># gs \<Longrightarrow> isLocked g \<Longrightarrow> (m, gowner g) \<in># holders gs"
  by (force simp: holders_def lockedGuards_def)

lemma alone_remove:
  assumes "alone excl M"
  shows "alone excl (M - {#x#})"
proof -
  have "M - {#x#} = {#y#}" if "y \<in># M - {#x#}" "excl (fst y)" for y
  proof -
    have "M = {#y#}" using assms in_diffD[OF that(1)] that(2) by (cases y) (auto simp: alone_def)
    with that(1) show ?thesis by (cases "x = y") auto
  qed
  then show ?thesis by (force simp: alone_def)
qed

lemma lock_invD:
  assumes "lock_inv held excl s"
  shows "held (lock s) = holders (guards s)" and "alone excl (holders (guards s))"
  using assms by (metis lock_inv_def)+

locale lock_contract =
  fixes acq :: "'m \<Rightarrow> nat \<Rightarrow> 'l \<Rightarrow> 'l res option" and rel :: "nat \<Rightarrow> 'l \<Rightarrow> 'l res" and excl :: "'m \<Rightarrow> bool"
    and held :: "'l \<Rightarrow> ('m \<times> nat) multiset" and free :: 'l
  assumes held_free: "held l = {#} \<longleftrightarrow> l = free"
    and acq_held: "alone excl (held l) \<Longrightarrow> \<forall>m'. excl m' \<longrightarrow> (m', t) \<notin># held l \<Longrightarrow> acq m t l = Some r \<Longrightarrow>
      \<exists>l'. r = Inr l' \<and> held l' = add_mset (m, t) (held l) \<and> alone excl (held l')"
    and rel_held: "alone excl (held l) \<Longrightarrow> (m, t) \<in># held l \<Longrightarrow> \<exists>l'. rel t l = Inr l' \<and> held l' = held l - {#(m, t)#}"
begin

lemma unlock_ok:
  assumes "lock_inv held excl s" and "(m, g) \<in># guards s"
  shows "\<exists>l. scopedUnlock rel g (lock s) = Inr (g\<lparr>isLocked := False\<rparr>, l) \<and>
    held l = holders (guards s - {#(m, g)#}) \<and> alone excl (held l)"
proof (cases "isLocked g")
  case True
  have "(m, gowner g) \<in># held (lock s)" using assms holders_mem[OF assms(2) True] by (simp add: lock_inv_def)
  from rel_held[OF _ this] assms(1) obtain l where
    "rel (gowner g) (lock s) = Inr l" "held l = held (lock s) - {#(m, gowner g)#}" by (auto simp: lock_inv_def)
  then show ?thesis
    using True alone_remove[OF lock_invD(2)[OF assms(1)]] by (simp add: scopedUnlock_def lock_invD[OF assms(1)] holders_remove[OF assms(2)])
next
  case False
  then show ?thesis
    using lock_invD(2)[OF assms(1)] by (simp add: scopedUnlock_def lock_invD[OF assms(1)] holders_remove[OF assms(2)])
qed

lemma take_ok:
  assumes "lock_inv held excl s" and "mayTake excl t s" and "acq m t (lock s) = Some r"
  shows "\<exists>l. r = Inr l \<and> held l = add_mset (m, t) (holders (guards s)) \<and> alone excl (held l)"
proof -
  have "\<forall>m'. excl m' \<longrightarrow> (m', t) \<notin># held (lock s)" using assms(2) by (auto simp: lock_invD[OF assms(1)] mayTake_def)
  from acq_held[OF _ this assms(3)] show ?thesis by (simp add: lock_invD[OF assms(1)])
qed

lemma step_inv:
  assumes "lockStep acq rel excl s s'" and "lock_inv held excl s"
  shows "lock_inv held excl s'"
  using assms
proof cases
  case (make t m g l)
  then obtain r where r: "acq m t (lock s) = Some r" by (auto simp: scopedMake_def)
  show ?thesis using make take_ok[OF assms(2) _ r] r by (auto simp: scopedMake_def lock_inv_def holders_add)
next
  case (again m g g' l)
  show ?thesis
  proof (cases "isLocked g")
    case True
    then show ?thesis using again assms(2) by (auto simp: scopedLock_def lock_inv_def)
  next
    case False
    then obtain r where r: "acq m (gowner g) (lock s) = Some r" using again by (auto simp: scopedLock_def)
    show ?thesis using again take_ok[OF assms(2) _ r] r False
      by (auto simp: scopedLock_def lock_inv_def holders_add holders_remove)
  qed
next
  case (unlock m g g' l)
  then show ?thesis using unlock_ok[OF assms(2)] by (fastforce simp: lock_inv_def holders_add)
next
  case (destroy m g l)
  then show ?thesis using unlock_ok[OF assms(2)] by (fastforce simp: scopedDestroy_def lock_inv_def)
qed

lemma run_inv:
  assumes "reach (\<lambda>s. s = \<lparr>lock = free, guards = {#}\<rparr>) (lockStep acq rel excl) s"
  shows "lock_inv held excl s"
  using assms
proof (induction rule: reach.induct)
  case (reach_init s)
  moreover have "held free = {#}" using held_free by simp
  ultimately show ?case by (simp add: lock_inv_def holders_def lockedGuards_def alone_def)
qed (rule step_inv)

lemma guards_hold:
  assumes "reach (\<lambda>s. s = \<lparr>lock = free, guards = {#}\<rparr>) (lockStep acq rel excl) s"
  shows "(\<forall>(m, g)\<in>#lockedGuards (guards s). excl m \<longrightarrow> lockedGuards (guards s) = {#(m, g)#}) \<and>
    (\<forall>(m, g)\<in>#guards s. returns (scopedUnlock rel g (lock s)) \<and> returns (scopedDestroy rel g (lock s))) \<and>
    (lock s = free \<longleftrightarrow> lockedGuards (guards s) = {#})"
proof -
  note inv = run_inv[OF assms]
  have one: "lockedGuards (guards s) = {#(m, g)#}" if g: "(m, g) \<in># lockedGuards (guards s)" "excl m" for m g
  proof -
    have "(m, gowner g) \<in># held (lock s)" using g(1) inv by (force simp: lock_inv_def holders_def)
    then have "holders (guards s) = {#(m, gowner g)#}" using inv g(2) by (auto simp: lock_inv_def alone_def)
    then have "size (lockedGuards (guards s)) = 1" by (metis holders_def size_image_mset size_single)
    with g(1) show ?thesis by (metis size_1_singleton_mset singletonD set_mset_single)
  qed
  have "returns (scopedUnlock rel g (lock s)) \<and> returns (scopedDestroy rel g (lock s))" if "(m, g) \<in># guards s" for m g
    using unlock_ok[OF inv that] by (auto simp: scopedDestroy_def)
  moreover have "lock s = free \<longleftrightarrow> lockedGuards (guards s) = {#}"
    using inv held_free[of "lock s"] by (simp add: lock_inv_def holders_def)
  ultimately show ?thesis using one by blast
qed

end
subsection \<open>Mutex and RWMutex keep the contract\<close>

datatype mode = Rd | Wr

definition rwAcquire :: "mode \<Rightarrow> nat \<Rightarrow> rwlock \<Rightarrow> rwlock res option" where
  \<comment> \<open>\<^verbatim>\<open>ReadScopedLockImpl\<close> and \<^verbatim>\<open>WriteScopedLockImpl\<close>\<close>
  "rwAcquire m = (case m of Rd \<Rightarrow> rdlock | Wr \<Rightarrow> wrlock)"

definition rwHeld :: "rwlock \<Rightarrow> (mode \<times> nat) multiset" where
  "rwHeld l = image_mset (Pair Rd) (readers l) + (case writer l of None \<Rightarrow> {#} | Some t \<Rightarrow> {#(Wr, t)#})"

definition mutexHeld :: "mutex \<Rightarrow> (unit \<times> nat) multiset" where
  "mutexHeld l = (case l of None \<Rightarrow> {#} | Some t \<Rightarrow> {#((), t)#})"

lemma rwHeld_Wr: "(Wr, t) \<in># rwHeld l \<longleftrightarrow> writer l = Some t"
  by (auto simp: rwHeld_def split: option.splits)

lemma rwHeld_Rd: "(Rd, t) \<in># rwHeld l \<longleftrightarrow> t \<in># readers l"
  by (auto simp: rwHeld_def split: option.splits)

lemma rw_alone: "alone (\<lambda>m. m = Wr) (rwHeld l) \<longleftrightarrow> writer l = None \<or> readers l = {#}"
  by (cases "writer l") (auto simp: alone_def rwHeld_def)

interpretation rw: lock_contract rwAcquire rwUnlock "\<lambda>m. m = Wr" rwHeld newRWMutex
proof
  fix l :: rwlock and t m r
  show "rwHeld l = {#} \<longleftrightarrow> l = newRWMutex"
    by (cases l) (auto simp: rwHeld_def newRWMutex_def split: option.splits)
  assume al: "alone (\<lambda>m. m = Wr) (rwHeld l)"
  show "\<exists>l'. r = Inr l' \<and> rwHeld l' = add_mset (m, t) (rwHeld l) \<and> alone (\<lambda>m. m = Wr) (rwHeld l')"
    if "\<forall>m'. m' = Wr \<longrightarrow> (m', t) \<notin># rwHeld l" "rwAcquire m t l = Some r"
    using that al unfolding rwHeld_Wr rw_alone
    by (auto simp: rwAcquire_def rdlock_def wrlock_def pthreadRdlock_def pthreadWrlock_def rwHeld_def
        split: mode.splits option.splits if_splits)
  show "\<exists>l'. rwUnlock t l = Inr l' \<and> rwHeld l' = rwHeld l - {#(m, t)#}" if "(m, t) \<in># rwHeld l"
  proof (cases m)
    case Rd
    then have "t \<in># readers l" using that by (simp add: rwHeld_Rd)
    moreover from this have "writer l = None" using al by (auto simp: rw_alone)
    ultimately show ?thesis by (simp add: Rd rwUnlock_def pthreadRwUnlock_def rwHeld_def image_mset_Diff)
  next
    case Wr
    then have "writer l = Some t" using that by (simp add: rwHeld_Wr)
    moreover from this have "readers l = {#}" using al by (auto simp: rw_alone)
    ultimately show ?thesis by (simp add: Wr rwUnlock_def pthreadRwUnlock_def rwHeld_def)
  qed
qed

interpretation mx: lock_contract "\<lambda>_. mutexLock" mutexUnlock "\<lambda>_. True" mutexHeld None
  by unfold_locales
    (auto simp: mutexHeld_def mutexLock_def mutexUnlock_def pthreadMutexLock_def pthreadMutexUnlock_def alone_def
      split: option.splits if_splits)

section \<open>Properties\<close>

abbreviation rwInit :: "(mode, rwlock) lockSys \<Rightarrow> bool" where
  "rwInit s \<equiv> s = \<lparr>lock = newRWMutex, guards = {#}\<rparr>"

abbreviation mutexInit :: "(unit, mutex) lockSys \<Rightarrow> bool" where
  "mutexInit s \<equiv> s = \<lparr>lock = None, guards = {#}\<rparr>"

text \<open>C40: However threads make guards of a \<^verbatim>\<open>RWMutex\<close>, lock and unlock them again and let them go out of scope, as
  long as a thread with a locked write guard takes no second one: a locked write guard is the only locked guard;
  no guard's \<^verbatim>\<open>unlock\<close> or destructor releases a lock its thread does not hold; and the lock is free exactly
  when no guard is locked.\<close>

theorem write_guard_alone:
  assumes "reach rwInit (lockStep rwAcquire rwUnlock (\<lambda>m. m = Wr)) s"
  shows "(\<forall>g. (Wr, g) \<in># lockedGuards (guards s) \<longrightarrow> lockedGuards (guards s) = {#(Wr, g)#}) \<and>
    (\<forall>(m, g)\<in>#guards s. returns (scopedUnlock rwUnlock g (lock s)) \<and> returns (scopedDestroy rwUnlock g (lock s))) \<and>
    (lock s = newRWMutex \<longleftrightarrow> lockedGuards (guards s) = {#})"
  using rw.guards_hold[OF assms] by fast

theorem write_guard_alone_witness:
  "lockedGuards {#(Rd, \<lparr>gowner = 1, isLocked = False\<rparr>), (Wr, \<lparr>gowner = 2, isLocked = True\<rparr>)#}
     = {#(Wr, \<lparr>gowner = 2, isLocked = True\<rparr>)#} \<and>
   returns (scopedDestroy rwUnlock \<lparr>gowner = 2, isLocked = True\<rparr> \<lparr>readers = {#}, writer = Some 2\<rparr>)"
proof -
  let ?r = "\<lambda>b. \<lparr>gowner = 1, isLocked = b\<rparr>" and ?w = "\<lparr>gowner = 2, isLocked = True\<rparr>"
  let ?step = "lockStep rwAcquire rwUnlock (\<lambda>m. m = Wr)"
  let ?s0 = "\<lparr>lock = newRWMutex, guards = {#}\<rparr> :: (mode, rwlock) lockSys"
  let ?s1 = "\<lparr>lock = \<lparr>readers = {#1#}, writer = None\<rparr>, guards = {#(Rd, ?r True)#}\<rparr>"
  let ?s2 = "\<lparr>lock = newRWMutex, guards = {#(Rd, ?r False)#}\<rparr>"
  let ?s3 = "\<lparr>lock = \<lparr>readers = {#}, writer = Some 2\<rparr>, guards = {#(Wr, ?w), (Rd, ?r False)#}\<rparr>"
  note defs = mayTake_def holders_def lockedGuards_def scopedMake_def scopedUnlock_def rwAcquire_def rdlock_def
    wrlock_def rwUnlock_def pthreadRdlock_def pthreadWrlock_def pthreadRwUnlock_def newRWMutex_def
  have 0: "reach rwInit ?step ?s0" by (rule reach_init) simp
  have 1: "?step ?s0 ?s1" by (rule make_to[where t = 1 and m = Rd and g = "?r True" and l = "lock ?s1"]) (simp_all add: defs)
  have 2: "?step ?s1 ?s2" by (rule unlock_to[where m = Rd and g = "?r True" and g' = "?r False" and l = "lock ?s2"]) (simp_all add: defs)
  have 3: "?step ?s2 ?s3" by (rule make_to[where t = 2 and m = Wr and g = ?w and l = "lock ?s3"]) (simp_all add: defs)
  from write_guard_alone[OF reach_step[OF reach_step[OF reach_step[OF 0 1] 2] 3]] show ?thesis by (simp add: lockedGuards_def add_mset_commute)
qed

text \<open>The same for \<^verbatim>\<open>Mutex\<close>, whose guards are all exclusive; the mutex can be destroyed exactly when none is
  locked.\<close>

lemma mutex_guard_alone:
  assumes "reach mutexInit (lockStep (\<lambda>_. mutexLock) mutexUnlock (\<lambda>_. True)) s"
  shows "(\<forall>x\<in>#lockedGuards (guards s). lockedGuards (guards s) = {#x#}) \<and>
    (\<forall>(m, g)\<in>#guards s. returns (scopedDestroy mutexUnlock g (lock s))) \<and>
    (returns (mutexDestroy (lock s)) \<longleftrightarrow> lockedGuards (guards s) = {#})"
  using mx.guards_hold[OF assms] by (fastforce simp: mutexDestroy_def myAssert_def)

section \<open>What RWMutex does not check\<close>

text \<open>\<^verbatim>\<open>RWMutex\<close> drops the answer \<^verbatim>\<open>EDEADLK\<close>: a thread that makes a second write guard goes on as if it had
  taken the lock, the inner guard's destructor releases the lock of the outer one, another thread can write while
  the outer guard says it is locked, and the outer guard's destructor then unlocks what its thread does not hold.\<close>

lemma nested_write_guards:
  assumes "t \<noteq> u"
  shows "\<exists>g1 g2 l1 l2. scopedMake wrlock t newRWMutex = Some (Inr (g1, l1)) \<and> scopedMake wrlock t l1 = Some (Inr (g2, l1)) \<and>
    isLocked g1 \<and> isLocked g2 \<and> scopedDestroy rwUnlock g2 l1 = Inr newRWMutex \<and>
    scopedMake wrlock u newRWMutex = Some (Inr (\<lparr>gowner = u, isLocked = True\<rparr>, l2)) \<and>
    scopedDestroy rwUnlock g1 l2 = Inl BadAccess"
  using assms by (simp add: scopedMake_def scopedDestroy_def scopedUnlock_def wrlock_def rwUnlock_def
      pthreadWrlock_def pthreadRwUnlock_def newRWMutex_def)

section \<open>Threads\<close>

text \<open>\<^verbatim>\<open>Thread\<close>: the handle, 0 when there is none to wait for, and the name.  What pthread answers and the
  handle it gives are arguments; the calls that give a thread's resources back are listed.\<close>

record threadObj =
  threadHandle :: nat
  threadName :: string

datatype reclaim = Joined nat | Detached nat

definition threadCreate :: "string \<Rightarrow> int \<Rightarrow> nat \<Rightarrow> threadObj res" where
  "threadCreate name rt h =
     (let name1 = if name = [] then ''UNKNOW'' else name
      in if rt \<noteq> 0 then Inl Thrown else Inr \<lparr>threadHandle = h, threadName = name1\<rparr>)"

definition threadJoin :: "int \<Rightarrow> threadObj \<Rightarrow> (threadObj \<times> reclaim list) res" where
  "threadJoin rt th =
     (if threadHandle th \<noteq> 0
      then if rt \<noteq> 0 then Inl Thrown else Inr (th\<lparr>threadHandle := 0\<rparr>, [Joined (threadHandle th)])
      else Inr (th, []))"

definition threadDestroy :: "threadObj \<Rightarrow> reclaim list" where
  "threadDestroy th = (if threadHandle th \<noteq> 0 then [Detached (threadHandle th)] else [])"

text \<open>The names: what \<^verbatim>\<open>run\<close> tells the kernel and keeps for the thread, and \<^verbatim>\<open>SetName\<close> on the object of the
  calling thread, if there is one, and the thread's own copy.\<close>

definition threadRunNames :: "threadObj \<Rightarrow> string \<times> string" where
  "threadRunNames th = (take 15 (threadName th), threadName th)"

definition threadSetName :: "string \<Rightarrow> threadObj option \<times> string \<Rightarrow> threadObj option \<times> string" where
  "threadSetName name st =
     (if name = [] then st
      else (case fst st of None \<Rightarrow> None | Some th \<Rightarrow> Some (th\<lparr>threadName := name\<rparr>), name))"

fun threadJoins :: "nat \<Rightarrow> threadObj \<Rightarrow> (threadObj \<times> reclaim list) res" where
  "threadJoins 0 th = Inr (th, [])"
| "threadJoins (Suc n) th =
     andThen (threadJoin 0 th) (\<lambda>(th1, cs). andThen (threadJoins n th1) (\<lambda>(th2, ds). Inr (th2, cs @ ds)))"

lemma threadJoins_none: "threadHandle th = 0 \<Longrightarrow> threadJoins n th = Inr (th, [])"
  by (induction n) (simp_all add: threadJoin_def)

text \<open>A thread's resources are given back exactly once: by the first of any number of joins, or by the
  destructor.\<close>

lemma thread_reclaimed_once:
  assumes "threadCreate name 0 h = Inr th" and "h \<noteq> 0"
  shows "\<exists>th' cs. threadJoins n th = Inr (th', cs) \<and>
    cs @ threadDestroy th' = (if n = 0 then [Detached h] else [Joined h]) \<and> threadName th' \<noteq> []"
proof (cases n)
  case 0
  then show ?thesis using assms by (auto simp: threadCreate_def threadDestroy_def split: if_splits)
next
  case (Suc k)
  then show ?thesis using assms
    by (auto simp: threadCreate_def threadJoin_def threadDestroy_def threadJoins_none split: if_splits)
qed

end
