(* ===== verification/Utils.thy ===== *)
theory Utils
  imports Prelude "HOL-Library.Word"
begin

text \<open>
  The helpers of \<^verbatim>\<open>src/fiber/utils.cpp\<close> and the formatting of \<^verbatim>\<open>src/common/include/util.hpp\<close>: what a failed
  check prints and that it ends the process, names of functions in stack traces, and the clock of the timers.  The
  symbols of a stack, the demangler of the compiler and \<^verbatim>\<open>snprintf\<close> are parameters; a C string is a text without NUL.
\<close>

section \<open>Scanning\<close>

abbreviation NUL :: char where "NUL \<equiv> CHR 0x00"

text \<open>The conversion \<open>%[...]\<close> of \<^verbatim>\<open>sscanf\<close> with a set of characters and a width: the characters read, at least
  one, and the rest.\<close>

definition scanSet :: "(char \<Rightarrow> bool) \<Rightarrow> nat \<Rightarrow> string \<Rightarrow> (string \<times> string) option" where
  "scanSet P width s =
     (let t = takeWhile P (take width s) in if t = [] then None else Some (t, drop (length t) s))"

text \<open>\<^verbatim>\<open>sscanf(str, "%*[^(]%*[^_]%255[^)+]", buf)\<close> and \<^verbatim>\<open>sscanf(str, "%255s", buf)\<close>: what is stored, if it is.\<close>

definition scanSymbol :: "string \<Rightarrow> string option" where
  "scanSymbol str =
     (case scanSet (\<lambda>c. c \<noteq> CHR ''('') (length str) str of None \<Rightarrow> None
      | Some (_, s1) \<Rightarrow> (case scanSet (\<lambda>c. c \<noteq> CHR ''_'') (length s1) s1 of None \<Rightarrow> None
        | Some (_, s2) \<Rightarrow> map_option fst (scanSet (\<lambda>c. c \<noteq> CHR '')'' \<and> c \<noteq> CHR ''+'') 255 s2)))"

definition white :: "char \<Rightarrow> bool" where
  "white c \<longleftrightarrow> (of_char c :: nat) = 32 \<or> 9 \<le> (of_char c :: nat) \<and> (of_char c :: nat) \<le> 13"

definition scanWord :: "string \<Rightarrow> string option" where
  "scanWord str = map_option fst (scanSet (\<lambda>c. \<not> white c) 255 (dropWhile white str))"

text \<open>Storing a C string in the buffer \<open>rt\<close> of 256 characters: its NUL comes behind it, the rest stays.\<close>

definition storeC :: "string \<Rightarrow> string \<Rightarrow> string" where
  "storeC s rt = s @ NUL # drop (Suc (length s)) rt"

definition cText :: "string \<Rightarrow> string" where
  "cText rt = takeWhile (\<lambda>c. c \<noteq> NUL) rt"

section \<open>Stack traces\<close>

definition Demangle :: "(string \<Rightarrow> string option) \<Rightarrow> string \<Rightarrow> string" where
  "Demangle demangler str =
     (let rt = replicate 256 NUL;
          word = (\<lambda>rt. case scanWord str of Some w \<Rightarrow> storeC w rt | None \<Rightarrow> str)
      in case scanSymbol str of
           Some name \<Rightarrow> (case demangler (cText (storeC name rt)) of Some result \<Rightarrow> result | None \<Rightarrow> word (storeC name rt))
         | None \<Rightarrow> word rt)"

text \<open>\<open>Backtrace\<close>: \<open>symbols\<close> are the lines for the frames of the stack, \<open>None\<close> without memory for them; the
  argument \<open>skip\<close> is not used.\<close>

definition Backtrace :: "(string \<Rightarrow> string option) \<Rightarrow> string list option \<Rightarrow> nat \<Rightarrow> nat \<Rightarrow> string list \<Rightarrow> string list" where
  "Backtrace demangler symbols depth skip bt =
     (case symbols of None \<Rightarrow> bt | Some strings \<Rightarrow> bt @ map (Demangle demangler) (take depth strings))"

definition BacktraceToString :: "(string \<Rightarrow> string option) \<Rightarrow> string list option \<Rightarrow> nat \<Rightarrow> nat \<Rightarrow> string \<Rightarrow> string" where
  "BacktraceToString demangler symbols depth skip prefix =
     concat (map (\<lambda>str. prefix @ str @ [CHR 0x0A]) (Backtrace demangler symbols depth skip []))"

definition CondPanic :: "(string \<Rightarrow> string option) \<Rightarrow> string list option \<Rightarrow> string \<Rightarrow> bool \<Rightarrow> string \<Rightarrow> string \<times> unit res" where
  \<comment> \<open>what is printed, and how it ends; \<open>place\<close> is the file and line of the function itself\<close>
  "CondPanic demangler symbols place condition err_str =
     (if \<not> condition
      then (''[assert by] ('' @ place @ ''),err: '' @ err_str @ [CHR 0x0A] @ ''[backtrace]'' @ [CHR 0x0A] @
              BacktraceToString demangler symbols 6 3 '''' @ [CHR 0x0A], Inl AssertFail)
      else ('''', Inr ()))"

section \<open>The clock\<close>

text \<open>\<open>GetElapsedMS\<close> from the two fields of the monotonic clock.\<close>

definition GetElapsedMS :: "int \<Rightarrow> int \<Rightarrow> 64 word" where
  "GetElapsedMS tv_sec tv_nsec = word_of_int tv_sec * 1000 + word_of_int (tv_nsec div 1000000)"

section \<open>Formatting\<close>

text \<open>\<open>format\<close>: \<open>expand\<close> is what \<^verbatim>\<open>snprintf\<close> would print in full, \<open>None\<close> when it reports an error (a negative
  number); a call with a buffer of \<open>n\<close> bytes stores at most \<open>n - 1\<close> characters and a NUL.\<close>

definition snprintfInto :: "nat \<Rightarrow> string \<Rightarrow> string" where
  "snprintfInto n full = take n (take (n - 1) full @ NUL # replicate n NUL)"

definition formatText :: "(string \<Rightarrow> 'a list \<Rightarrow> string option) \<Rightarrow> string \<Rightarrow> 'a list \<Rightarrow> string res" where
  "formatText expand format_str args =
     (if args = [] then Inr format_str
      else
        let len = (case expand format_str args of None \<Rightarrow> -1 | Some full \<Rightarrow> int (length full)) + 1
        in if len \<le> 0 then Inl Thrown
           else let buffer = snprintfInto (nat len) (case expand format_str args of None \<Rightarrow> [] | Some full \<Rightarrow> full)
                in Inr (take (nat len - 1) buffer))"

section \<open>What the helpers promise\<close>

lemma scanSet_part:
  assumes "scanSet P n s = Some (t, r)"
  shows "length t \<le> n" "set t \<subseteq> set s" "set r \<subseteq> set s"
proof -
  have t: "t = takeWhile P (take n s)" "r = drop (length t) s"
    using assms by (auto simp: scanSet_def Let_def split: if_splits)
  have "length (takeWhile P (take n s)) \<le> length (take n s)" by (rule length_takeWhile_le)
  then show "length t \<le> n" by (simp add: t(1))
  show "set t \<subseteq> set s" unfolding t(1) by (meson set_takeWhileD in_set_takeD subsetI)
  show "set r \<subseteq> set s" unfolding t(2) by (rule set_drop_subset)
qed

text \<open>No conversion writes behind the buffer: 255 characters and the NUL fit; and none makes up a NUL.\<close>

lemma scanSymbol_part:
  assumes "scanSymbol str = Some name"
  shows "length name \<le> 255" "set name \<subseteq> set str"
proof -
  from assms obtain t1 s1 t2 s2 s3 where s: "scanSet (\<lambda>c. c \<noteq> CHR ''('') (length str) str = Some (t1, s1)"
    "scanSet (\<lambda>c. c \<noteq> CHR ''_'') (length s1) s1 = Some (t2, s2)"
    "scanSet (\<lambda>c. c \<noteq> CHR '')'' \<and> c \<noteq> CHR ''+'') 255 s2 = Some (name, s3)"
    by (auto simp: scanSymbol_def split: option.splits)
  show "length name \<le> 255" by (rule scanSet_part(1)[OF s(3)])
  show "set name \<subseteq> set str" using scanSet_part(2)[OF s(3)] scanSet_part(3)[OF s(2)] scanSet_part(3)[OF s(1)] by blast
qed

lemma scanWord_part:
  assumes "scanWord str = Some w"
  shows "length w \<le> 255" "set w \<subseteq> set str"
proof -
  from assms obtain r where s: "scanSet (\<lambda>c. \<not> white c) 255 (dropWhile white str) = Some (w, r)"
    by (auto simp: scanWord_def)
  show "length w \<le> 255" by (rule scanSet_part(1)[OF s])
  show "set w \<subseteq> set str" using scanSet_part(2)[OF s] set_dropWhileD by fastforce
qed

lemma storeC_length: "length s < length rt \<Longrightarrow> length (storeC s rt) = length rt"
  by (simp add: storeC_def)

lemma cText_storeC: "NUL \<notin> set s \<Longrightarrow> cText (storeC s rt) = s"
  by (auto simp: cText_def storeC_def takeWhile_append takeWhile_eq_all_conv)

text \<open>A name that cannot be demangled comes back as a string of 256 characters: the first word of the line,
  a NUL, and what was in the buffer.\<close>

lemma Demangle_padded:
  assumes "NUL \<notin> set str" and "scanWord str = Some w"
    and "\<And>name. scanSymbol str = Some name \<Longrightarrow> demangler name = None"
  shows "length (Demangle demangler str) = 256" "cText (Demangle demangler str) = w"
proof -
  have w: "length w \<le> 255" "NUL \<notin> set w" using scanWord_part[OF assms(2)] assms(1) by auto
  have "\<exists>rt. Demangle demangler str = storeC w rt \<and> length rt = 256"
  proof (cases "scanSymbol str")
    case None
    then show ?thesis using assms(2) by (auto simp: Demangle_def intro!: exI[of _ "replicate 256 NUL"])
  next
    case (Some name)
    have n: "length name \<le> 255" "NUL \<notin> set name" using scanSymbol_part[OF Some] assms(1) by auto
    then have "cText (storeC name (replicate 256 NUL)) = name" by (simp add: cText_storeC)
    then show ?thesis using Some assms(2,3) n(1)
      by (intro exI[of _ "storeC name (replicate 256 NUL)"]) (simp add: Demangle_def storeC_length)
  qed
  then obtain rt where "Demangle demangler str = storeC w rt" "length rt = 256" by blast
  then show "length (Demangle demangler str) = 256" "cText (Demangle demangler str) = w"
    using w by (simp_all add: storeC_length cText_storeC)
qed

lemma Backtrace_skips_nothing: "Backtrace demangler symbols depth skip bt = Backtrace demangler symbols depth 0 bt"
  by (simp add: Backtrace_def)

lemma CondPanic_asserts: "snd (CondPanic demangler symbols place condition err_str) = myAssert condition"
  by (simp add: CondPanic_def)

text \<open>The clock does not run back as long as its value fits 64 bits.\<close>

lemma GetElapsedMS_value:
  assumes "0 \<le> s" "0 \<le> n" "s * 1000 + n div 1000000 < 2 ^ 64"
  shows "uint (GetElapsedMS s n) = s * 1000 + n div 1000000"
proof -
  have "GetElapsedMS s n = word_of_int (s * 1000 + n div 1000000)" by (simp add: GetElapsedMS_def)
  moreover have "0 \<le> n div 1000000" using assms(2) by (simp add: pos_imp_zdiv_nonneg_iff)
  ultimately show ?thesis using assms by (simp only: unsigned_of_int take_bit_int_eq_self) (simp add: take_bit_int_eq_self)
qed

lemma GetElapsedMS_mono:
  assumes "0 \<le> s" "0 \<le> n" "n < 1000000000" "s * 1000 + n div 1000000 < 2 ^ 64"
    and "0 \<le> s'" "0 \<le> n'" "n' < 1000000000" "s' * 1000 + n' div 1000000 < 2 ^ 64" and "s < s' \<or> s = s' \<and> n \<le> n'"
  shows "GetElapsedMS s n \<le> GetElapsedMS s' n'"
proof -
  have "s * 1000 + n div 1000000 \<le> s' * 1000 + n' div 1000000"
    using assms zdiv_mono1[of n n' 1000000] by auto
  then show ?thesis using assms by (simp add: word_le_def GetElapsedMS_value)
qed

text \<open>The buffer has room for the whole text and its NUL, so nothing is cut.\<close>

lemma formatText_full:
  "expand format_str args = Some full \<Longrightarrow> args \<noteq> [] \<Longrightarrow> formatText expand format_str args = Inr full"
  by (simp add: formatText_def snprintfInto_def Let_def)

lemma formatText_error:
  "expand format_str args = None \<Longrightarrow> args \<noteq> [] \<Longrightarrow> formatText expand format_str args = Inl Thrown"
  by (simp add: formatText_def)

end
