(* ===== verification/Programs.thy ===== *)
theory Programs
  imports RpcConfigTheorems Clerk
begin

text \<open>
  The programs of \<^verbatim>\<open>example/raftCoreExample/\<close>: the launcher of a cluster (\<^verbatim>\<open>raftKvDB.cpp\<close>), which makes the
  configuration file and one process per node, and the client that writes and reads back (\<^verbatim>\<open>caller.cpp\<close>).  What
  \<^verbatim>\<open>getopt\<close>, \<^verbatim>\<open>fork\<close> and the random number generator give are arguments; files are a map from names to texts.
\<close>

section \<open>The launcher\<close>

type_synonym files = "string \<rightharpoonup> string"

text \<open>\<^verbatim>\<open>atoi\<close>: 0 without digits (out of range it is undefined in C, and 0 here).\<close>

definition atoi :: "string \<Rightarrow> int" where
  "atoi s = (case stoi s of Some v \<Rightarrow> v | None \<Rightarrow> 0)"

text \<open>The loop over the options, with what \<^verbatim>\<open>getopt(argc, argv, "n:f:")\<close> returns: a character and its
  argument.  \<open>None\<close>: the usage is printed and the program ends.\<close>

fun readOptions :: "(char \<times> string) list \<Rightarrow> int \<Rightarrow> string \<Rightarrow> (int \<times> string) option" where
  "readOptions [] nodeNum configFileName = Some (nodeNum, configFileName)"
| "readOptions ((c, optarg) # opts) nodeNum configFileName =
     (if c = CHR ''n'' then readOptions opts (atoi optarg) configFileName
      else if c = CHR ''f'' then readOptions opts nodeNum optarg
      else None)"

text \<open>The loop that forks, from node \<open>i\<close> on, \<open>n\<close> rounds: the nodes started, each with its port, a \<^verbatim>\<open>short\<close>, and
  whether every fork succeeded (\<open>pids i\<close> is what \<^verbatim>\<open>fork\<close> returns to the parent).\<close>

fun launchLoop :: "16 word \<Rightarrow> (nat \<Rightarrow> int) \<Rightarrow> nat \<Rightarrow> nat \<Rightarrow> (nat \<times> 16 word) list \<times> bool" where
  "launchLoop startPort pids i 0 = ([], True)"
| "launchLoop startPort pids i (Suc n) =
     (if pids i < 0 then ([], False)
      else (case launchLoop startPort pids (Suc i) n of (nodes, ok) \<Rightarrow> ((i, startPort + of_nat i) # nodes, ok)))"

definition launcherMain :: "nat \<Rightarrow> (char \<times> string) list \<Rightarrow> (string \<Rightarrow> bool) \<Rightarrow> 16 word \<Rightarrow> (nat \<Rightarrow> int) \<Rightarrow> files
    \<Rightarrow> ((nat \<times> 16 word) list \<times> bool \<times> files) option" where
  \<comment> \<open>\<open>canOpen\<close>: the file can be opened for writing, which empties it\<close>
  "launcherMain argc opts canOpen startPort pids fs =
     (if argc \<noteq> 5 then None
      else (case readOptions opts 0 '''' of None \<Rightarrow> None
        | Some (nodeNum, configFileName) \<Rightarrow>
            if \<not> canOpen configFileName then None
            else (case launchLoop startPort pids 0 (nat nodeNum) of (nodes, ok) \<Rightarrow>
                    Some (nodes, ok, fs(configFileName \<mapsto> '''')))))"

text \<open>A node that runs its provider: it appends to the file whose name is fixed in \<^verbatim>\<open>RpcProvider::Run\<close>.\<close>

definition providerFile :: string where "providerFile = ''test.conf''"

definition registerIn :: "nat \<times> string \<times> 16 word \<Rightarrow> files \<Rightarrow> files" where
  "registerIn r fs = fs(providerFile \<mapsto> registerNode r (case fs providerFile of None \<Rightarrow> '''' | Some text \<Rightarrow> text))"

definition registerAll :: "string \<Rightarrow> (nat \<times> 16 word) list \<Rightarrow> files \<Rightarrow> files" where
  "registerAll ip nodes fs = fold (\<lambda>(i, port). registerIn (i, ip, port)) nodes fs"

lemma launchLoop_all:
  "launchLoop startPort pids i n = (nodes, True) \<Longrightarrow> nodes = map (\<lambda>k. (k, startPort + of_nat k)) [i..<i + n]"
proof (induction n arbitrary: i nodes)
  case (Suc n)
  then obtain rest where rest: "launchLoop startPort pids (Suc i) n = (rest, True)" "nodes = (i, startPort + of_nat i) # rest"
    by (auto split: if_splits prod.splits)
  have "[i..<i + Suc n] = i # [Suc i..<Suc i + n]" by (simp add: upt_conv_Cons del: upt_Suc)
  then show ?case using Suc.IH[OF rest(1)] rest(2) by simp
qed simp

lemma registerAll_other: "f \<noteq> providerFile \<Longrightarrow> registerAll ip nodes fs f = fs f"
  by (induction nodes arbitrary: fs) (auto simp: registerAll_def registerIn_def)

lemma registerAll_provider:
  "fs providerFile = Some t \<Longrightarrow>
   registerAll ip nodes fs providerFile = Some (fold registerNode (map (\<lambda>(i, port). (i, ip, port)) nodes) t)"
proof (induction nodes arbitrary: fs t)
  case (Cons x nodes)
  let ?r = "(fst x, ip, snd x)"
  have "registerIn ?r fs providerFile = Some (registerNode ?r t)" using Cons.prems by (simp add: registerIn_def)
  note IH = Cons.IH[where fs = "registerIn ?r fs" and t = "registerNode ?r t", OF this]
  show ?case using IH by (simp add: registerAll_def split_def)
qed (simp add: registerAll_def)

lemma map_of_nodes: "map_of (map (\<lambda>k. (k, g k)) ks) j = (if j \<in> set ks then Some (g j) else None)"
  by (induction ks) auto

section \<open>The client\<close>

text \<open>The loop of \<^verbatim>\<open>caller.cpp\<close> with \<open>t\<close> rounds to go; \<open>put\<close> and \<open>get\<close> say how the servers answer in a round.\<close>

type_synonym 'a server = "nat \<Rightarrow> nat \<Rightarrow> string \<times> 16 word \<Rightarrow> 'a \<Rightarrow> bool \<times> reply"

fun callerLoop :: "putAppendArgs server \<Rightarrow> getArgs server \<Rightarrow> nat \<Rightarrow> nat \<Rightarrow> clerk \<Rightarrow> (string list \<times> clerk) res" where
  "callerLoop put get fuel 0 c = Inr ([], c)"
| "callerLoop put get fuel (Suc t) c =
     (let key = ''x'' @ showNat t in
      andThen (clerkPut (put t) fuel key (showNat t) c) (\<lambda>c1.
      andThen (clerkGet (get t) fuel key c1) (\<lambda>(getval, c2).
      andThen (callerLoop put get fuel t c2) (\<lambda>(out, c3). Inr ((''Get '' @ key @ '': '' @ getval) # out, c3)))))"

text \<open>A read searches for the leader as a write does, when every server that answers answers with the value.\<close>

lemma getLoop_write:
  assumes "\<And>k srv. fst (ask k srv args) \<Longrightarrow> fst (snd (ask k srv args)) \<noteq> ErrWrongLeader \<Longrightarrow> snd (ask k srv args) = (OK, v)"
  shows "getLoop ask args srvs n k l = andThen (putAppendLoop (\<lambda>k srv _. ask k srv args) pargs srvs n k l) (\<lambda>j. Inr (v, Some j))"
proof (induction n arbitrary: k l)
  case (Suc n)
  show ?case
  proof (cases "vecGet srvs l")
    case (Inr srv)
    obtain isOk err val where a: "ask k srv args = (isOk, err, val)" by (metis prod_cases3)
    have "OK \<noteq> ErrWrongLeader" "OK \<noteq> ErrNoKey" "ErrNoKey \<noteq> ErrWrongLeader"
      by (simp_all add: OK_def ErrWrongLeader_def ErrNoKey_def)
    then show ?thesis using Suc.IH assms[of k srv] by (auto simp: Inr a)
  qed simp
qed simp

lemma loops_find:
  assumes "j < length srvs" "0 \<le> l" "l < int (length srvs)"
    and "\<And>k. fst (ask k (srvs ! j) args) \<and> fst (snd (ask k (srvs ! j) args)) = OK"
    and "\<And>i k. i < length srvs \<Longrightarrow> i \<noteq> j \<Longrightarrow> \<not> fst (ask k (srvs ! i) args) \<or> fst (snd (ask k (srvs ! i) args)) = ErrWrongLeader"
  shows "putAppendLoop ask args srvs (length srvs) k l = Inr (int j)"
proof -
  have l: "nat l < length srvs" "int (nat l) = l" using assms(2,3) by auto
  from round_trip_distance[OF l(1) assms(1)] obtain d where d: "d < length srvs" "(nat l + d) mod length srvs = j" by blast
  from putAppendLoop_finds[where ask = ask, OF assms(1,4,5) l(1) d(2,1)] l(2) show ?thesis by simp
qed

text \<open>The servers as the client sees them in a round: one accepts the write and answers the read with what was
  written, the others are away or do not lead.\<close>

definition refuses :: "bool \<times> reply \<Rightarrow> bool" where
  "refuses a \<longleftrightarrow> \<not> fst a \<or> fst (snd a) = ErrWrongLeader"

definition servedBy :: "nat \<Rightarrow> (string \<times> 16 word) list \<Rightarrow> putAppendArgs server \<Rightarrow> getArgs server \<Rightarrow> nat \<Rightarrow> bool" where
  "servedBy j srvs put get t \<longleftrightarrow> j < length srvs \<and>
     (\<forall>k args. put t k (srvs ! j) args = (True, OK, '''')) \<and>
     (\<forall>k args. get t k (srvs ! j) args = (True, OK, showNat t)) \<and>
     (\<forall>k srv args. srv \<noteq> srvs ! j \<longrightarrow> refuses (put t k srv args)) \<and>
     (\<forall>k srv args. srv \<noteq> srvs ! j \<longrightarrow> refuses (get t k srv args))"

lemma servedByD:
  assumes "servedBy j srvs put get t"
  shows "put t k (srvs ! j) pargs = (True, OK, '''')" "get t k (srvs ! j) gargs = (True, OK, showNat t)"
    "srv \<noteq> srvs ! j \<Longrightarrow> refuses (put t k srv pargs)" "srv \<noteq> srvs ! j \<Longrightarrow> refuses (get t k srv gargs)"
  using assms by (simp_all add: servedBy_def del: split_paired_All)

lemma clerkPut_served:
  assumes "distinct (servers c)" "servedBy j (servers c) put get t" "0 \<le> recentLeaderId c" "recentLeaderId c < int (length (servers c))"
  shows "clerkPut (put t) (length (servers c)) key val c = Inr (c\<lparr>requestId := requestId c + 1, recentLeaderId := int j\<rparr>)"
proof -
  let ?c = "c\<lparr>requestId := requestId c + 1\<rparr>"
  have j: "j < length (servers c)" using assms(2) by (simp add: servedBy_def)
  have other: "servers c ! i \<noteq> servers c ! j" if "i < length (servers c)" "i \<noteq> j" for i
    using assms(1) j that by (simp add: nth_eq_iff_index_eq)
  have "putAppendLoop (put t) (callArgs key val ''Put'' ?c) (servers c) (length (servers c)) 0 (recentLeaderId c) = Inr (int j)"
    by (rule loops_find[OF j assms(3,4)])
      (simp add: servedByD(1)[OF assms(2)], rule servedByD(3)[OF assms(2) other, unfolded refuses_def])
  then show ?thesis by (simp add: clerkPut_def clerkPutAppend_def Let_def)
qed

lemma clerkGet_served:
  assumes "distinct (servers c)" "servedBy j (servers c) put get t" "0 \<le> recentLeaderId c" "recentLeaderId c < int (length (servers c))"
  shows "clerkGet (get t) (length (servers c)) key c = Inr (showNat t, c\<lparr>requestId := requestId c + 1, recentLeaderId := int j\<rparr>)"
proof -
  let ?args = "\<lparr>ga_key = key, ga_clientid = clientId c, ga_requestid = requestId c + 1\<rparr>"
  let ?pargs = "callArgs key '''' ''Put'' c" and ?ask = "\<lambda>k srv _. get t k srv ?args"
  have j: "j < length (servers c)" using assms(2) by (simp add: servedBy_def)
  have other: "servers c ! i \<noteq> servers c ! j" if "i < length (servers c)" "i \<noteq> j" for i
    using assms(1) j that by (simp add: nth_eq_iff_index_eq)
  have "putAppendLoop ?ask ?pargs (servers c) (length (servers c)) 0 (recentLeaderId c) = Inr (int j)"
    by (rule loops_find[OF j assms(3,4)])
      (simp add: servedByD(2)[OF assms(2)], rule servedByD(4)[OF assms(2) other, unfolded refuses_def])
  moreover have "snd (get t k srv ?args) = (OK, showNat t)"
    if "fst (get t k srv ?args)" "fst (snd (get t k srv ?args)) \<noteq> ErrWrongLeader" for k srv
    using servedByD(2,4)[OF assms(2)] that by (cases "srv = servers c ! j") (auto simp: refuses_def)
  ultimately show ?thesis
    using getLoop_write[of "get t" ?args "showNat t" "servers c" "length (servers c)" 0 "recentLeaderId c" ?pargs]
    by (simp add: clerkGet_def Let_def)
qed

text \<open>The client prints what it wrote, in the order of its keys, with two requests for each.\<close>

lemma caller_prints:
  assumes "distinct (servers c)" "\<forall>i<t. servedBy (lead i) (servers c) put get i"
    and "0 \<le> recentLeaderId c" "recentLeaderId c < int (length (servers c))"
  shows "\<exists>c'. callerLoop put get (length (servers c)) t c =
      Inr (map (\<lambda>i. ''Get x'' @ showNat i @ '': '' @ showNat i) (rev [0..<t]), c') \<and> requestId c' = requestId c + 2 * int t"
  using assms
proof (induction t arbitrary: c)
  case (Suc t)
  let ?c1 = "c\<lparr>requestId := requestId c + 1, recentLeaderId := int (lead t)\<rparr>"
  let ?c2 = "?c1\<lparr>requestId := requestId ?c1 + 1, recentLeaderId := int (lead t)\<rparr>"
  have s: "servedBy (lead t) (servers c) put get t" using Suc.prems(2) by simp
  then have l: "int (lead t) < int (length (servers c))" by (simp add: servedBy_def)
  have put: "clerkPut (put t) (length (servers c)) (''x'' @ showNat t) (showNat t) c = Inr ?c1"
    by (rule clerkPut_served[OF Suc.prems(1) s Suc.prems(3,4)])
  have get: "clerkGet (get t) (length (servers c)) (''x'' @ showNat t) ?c1 = Inr (showNat t, ?c2)"
    using clerkGet_served[of ?c1 "lead t" put get t] Suc.prems(1) s l by simp
  from Suc.IH[of ?c2] Suc.prems(1,2) l obtain c' where
    "callerLoop put get (length (servers c)) t ?c2 =
      Inr (map (\<lambda>i. ''Get x'' @ showNat i @ '': '' @ showNat i) (rev [0..<t]), c')" "requestId c' = requestId ?c2 + 2 * int t"
    by auto
  with put get show ?case by simp
qed simp

section \<open>Property\<close>

text \<open>C28: The launcher and the configuration file fit together only by the name \<^verbatim>\<open>test.conf\<close>: when it has started
  all its nodes and they have registered, whoever reads the configuration file it was given finds exactly the nodes
  0 to n - 1, with consecutive 16 bit ports and nothing left from an earlier cluster, if that file is \<^verbatim>\<open>test.conf\<close>; and no
  node at all if it is another one, because the providers do not know its name.\<close>

theorem launched_nodes_known:
  assumes "launcherMain 5 opts canOpen startPort pids fs = Some (nodes, True, fs1)"
    and "readOptions opts 0 '''' = Some (n, f)" and "n < 2147483646" and "plain ip" and "length ip \<le> 255"
  shows "nodes = map (\<lambda>k. (k, startPort + of_nat k)) [0..<nat n] \<and>
    nodeAddrs 0 (LoadConfigFile (registerAll ip nodes fs1 f) Map.empty) =
      Inr (if f = ''test.conf'' then map (\<lambda>k. (ip, startPort + of_nat k)) [0..<nat n] else [])"
proof -
  from assms(1,2) have l: "launchLoop startPort pids 0 (nat n) = (nodes, True)" and fs1: "fs1 f = Some ''''"
    by (auto simp: launcherMain_def split: if_splits prod.splits)
  have nodes: "nodes = map (\<lambda>k. (k, startPort + of_nat k)) [0..<nat n]" using launchLoop_all[OF l] by simp
  let ?rs = "map (\<lambda>k. (k, ip, startPort + of_nat k)) [0..<nat n]"
  have "nodeAddrs 0 (LoadConfigFile (registerAll ip nodes fs1 f) Map.empty) =
      Inr (if f = ''test.conf'' then map (\<lambda>k. (ip, startPort + of_nat k)) [0..<nat n] else [])"
  proof (cases "f = providerFile")
    case True
    then have reg: "registerAll ip nodes fs1 f = Some (fold registerNode ?rs '''')"
      using registerAll_provider[of fs1 "''''" ip nodes] fs1 by (simp add: nodes comp_def)
    have ok: "\<forall>r\<in>set ?rs. address_ok r" using assms(3-5) by (auto simp: address_ok_def)
    have "nodeAddrs 0 (map_of (concat (map entries ?rs))) = Inr (map (\<lambda>j. the (map_of ?rs j)) [0..<nat n])"
      by (rule nodeAddrs_map) (use assms(3,4) in \<open>auto simp: map_of_nodes plain_def\<close>)
    moreover have "map (\<lambda>j. the (map_of ?rs j)) [0..<nat n] = map (\<lambda>k. (ip, startPort + of_nat k)) [0..<nat n]"
      by (simp add: map_of_nodes)
    moreover have "LoadConfigFile (registerAll ip nodes fs1 f) Map.empty = map_of (concat (map entries ?rs))"
      unfolding reg LoadConfigFile_def option.case loadLines_registered[OF ok] by simp
    ultimately show ?thesis using True by (simp add: providerFile_def)
  next
    case False
    then have "registerAll ip nodes fs1 f = Some ''''" using fs1 by (simp add: registerAll_other)
    moreover have "loadLines '''' Map.empty = Map.empty" by (subst loadLines.simps) (simp add: fgets_def)
    moreover have "nodeAddrs 0 Map.empty = Inr []" by (subst nodeAddrs.simps) (simp add: Load_def)
    ultimately show ?thesis using False by (simp add: LoadConfigFile_def providerFile_def)
  qed
  with nodes show ?thesis by blast
qed

theorem launched_nodes_known_witness:
  "nodeAddrs 0 (LoadConfigFile (registerAll ''10.0.0.1'' [(0, 20000), (1, 20001), (2, 20002)] [''test.conf'' \<mapsto> ''''] ''test.conf'') Map.empty)
    = Inr [(''10.0.0.1'', 20000), (''10.0.0.1'', 20001), (''10.0.0.1'', 20002)]"
proof -
  let ?opts = "[(CHR ''n'', ''3''), (CHR ''f'', ''test.conf'')]"
  have "stoi ''3'' = Some 3" by (simp add: stoi_def isSpace_def isDigit_def digitsVal_def)
  then have o: "readOptions ?opts 0 '''' = Some (3, ''test.conf'')" by (simp add: atoi_def)
  have l: "launcherMain 5 ?opts (\<lambda>_. True) 20000 (\<lambda>_. 1) [''test.conf'' \<mapsto> ''node0ip=old''] =
      Some ([(0, 20000), (1, 20001), (2, 20002)], True, [''test.conf'' \<mapsto> ''''])"
    unfolding launcherMain_def o by (simp add: eval_nat_numeral)
  have "map (\<lambda>k. (''10.0.0.1'', (20000 :: 16 word) + of_nat k)) [0..<nat 3] =
      [(''10.0.0.1'', 20000), (''10.0.0.1'', 20001), (''10.0.0.1'', 20002)]" by (simp add: upt_rec)
  moreover have "plain ''10.0.0.1''" by (simp add: plain_def)
  ultimately show ?thesis using launched_nodes_known[OF l o, THEN conjunct2] by simp
qed

end
