(* ===== verification/EchoServer.thy ===== *)
theory EchoServer
  imports HookReady
begin

text \<open>
  The echo server of \<^verbatim>\<open>example/fiberExample/server.cpp\<close> on the event manager: the callback that accepts, the one that
  registers the listening socket again, and the loop that serves a client.  What the sockets answer is an argument.
\<close>

datatype echoCb = TestAccept | WatchIoRead | Serve int

text \<open>\<open>watch_io_read\<close> and \<open>test_accept\<close>, with the descriptor \<open>fd\<close> that \<^verbatim>\<open>accept\<close> returned.\<close>

definition watchIoRead :: "bool \<Rightarrow> nat \<times> fiberState \<Rightarrow> int \<Rightarrow> echoCb ioManager \<Rightarrow> echoCb ioManager res" where
  "watchIoRead ok self listen_sock m =
     andThen (addEvent ok self listen_sock READ (Some TestAccept) m) (\<lambda>(_, m1). Inr m1)"

definition testAccept :: "bool \<Rightarrow> nat \<times> fiberState \<Rightarrow> int \<Rightarrow> echoCb ioManager \<Rightarrow> echoCb ioManager res" where
  "testAccept ok self fd m =
     andThen (if fd < 0 then Inr m
              else andThen (addEvent ok self fd READ (Some (Serve fd)) m) (\<lambda>(_, m1). Inr m1)) (\<lambda>m1.
       Inr (iomSchedule (cbTask WatchIoRead) m1))"

text \<open>The loop that serves a client: what \<^verbatim>\<open>recv\<close> returns each time (with its \<^verbatim>\<open>errno\<close> and the bytes), what \<^verbatim>\<open>send\<close> returns
  when it is called, and \<^verbatim>\<open>errno\<close>, which only failing calls set.  The result is what was sent back, when the
  loop closes the descriptor.\<close>

fun echoLoop :: "(int \<times> int \<times> string) list \<Rightarrow> (int \<times> int) list \<Rightarrow> int \<Rightarrow> string list res" where
  "echoLoop [] snds errno = Inl NoReturn"
| "echoLoop ((ret, err, buf) # rcvs) snds errno =
     (if ret > 0
      then (case snds of
              [] \<Rightarrow> Inl NoReturn
            | (ret2, err2) # snds' \<Rightarrow>
                let errno2 = (if ret2 < 0 then err2 else errno)
                in if ret2 \<le> 0 \<and> errno2 \<noteq> EAGAIN then Inr [buf]
                   else andThen (echoLoop rcvs snds' errno2) (\<lambda>out. Inr (buf # out)))
      else
        let errno1 = (if ret < 0 then err else errno)
        in if errno1 = EAGAIN then echoLoop rcvs snds errno1 else Inr [])"

section \<open>Serving\<close>

text \<open>Everything received is sent back in order, however often \<^verbatim>\<open>recv\<close> had nothing, until it fails otherwise.\<close>

definition chunk :: "string option \<Rightarrow> int \<times> int \<times> string" where
  "chunk c = (case c of None \<Rightarrow> (-1, EAGAIN, '''') | Some s \<Rightarrow> (int (length s), 0, s))"

lemma chunk_simps [simp]: "chunk None = (-1, EAGAIN, '''')" "chunk (Some s) = (int (length s), 0, s)"
  by (simp_all add: chunk_def)

fun arrived :: "string option list \<Rightarrow> string list" where
  "arrived [] = []"
| "arrived (None # cs) = arrived cs"
| "arrived (Some s # cs) = s # arrived cs"

lemma echo_faithful:
  assumes "\<forall>s. Some s \<in> set cs \<longrightarrow> s \<noteq> []" and "err \<noteq> EAGAIN"
  shows "echoLoop (map chunk cs @ [(-1, err, '''')]) (map (\<lambda>s. (int (length s), 0)) (arrived cs)) errno = Inr (arrived cs)"
  using assms(1)
proof (induction cs arbitrary: errno rule: arrived.induct)
  case 1
  then show ?case using assms(2) by simp
next
  case (2 cs)
  then show ?case by simp
next
  case (3 s cs)
  then have "s \<noteq> []" by simp
  with 3 show ?case by (simp add: Let_def)
qed

text \<open>A client that closes the connection makes \<^verbatim>\<open>recv\<close> return 0, which does not set \<^verbatim>\<open>errno\<close>.  If that still holds
  \<^verbatim>\<open>EAGAIN\<close> from an earlier round, the loop never ends and never closes the descriptor.\<close>

lemma echo_eof_spins: "echoLoop (replicate n (0, 0, '''')) snds EAGAIN = Inl NoReturn"
  by (induction n) simp_all

lemma echo_eof_closes: "errno \<noteq> EAGAIN \<Longrightarrow> echoLoop ((0, 0, '''') # rcvs) snds errno = Inr []"
  by simp

text \<open>And it spins while it waits, too: the descriptor was set to non-blocking by the program, so the hooked calls hand
  everything to the kernel and never yield the fiber.\<close>

lemma echo_never_yields:
  assumes "ctxAt h fd c" and "userNonblock c" and "c2 \<noteq> Accept"
  shows "hookedCall ok self now p ((n, err) # raw) c2 fd h = Inr (IoDone n (h\<lparr>errnoOf := err\<rparr>))"
  using assms by (simp add: hookedCall_def doIo_def ctxAt_get direct_def finishCall_def)

section \<open>Accepting\<close>

lemma addEvent_other:
  assumes "iom_wf m" "0 \<le> fd" "fd < int (length (fdContexts m))" "addEvent ok self fd e cb m = Inr (r, m')"
    and "p \<noteq> fdContexts m ! nat fd"
  shows "ctxStore m' p = ctxStore m p"
proof -
  from iom_slot[OF assms(1-3)] obtain q where q: "q = fdContexts m ! nat fd" "findContext fd m = Inr (Some q)" by metis
  have "vecGet (fdContexts m) fd = Inr q" using assms(2,3) q(1) by (simp add: vecGet_in_range)
  with assms(4,5) q show ?thesis by (auto simp: addEvent_def andThen_eq_Inr Let_def split: option.splits)
qed

text \<open>The server goes on accepting: once the listening socket was reported, accepting a client (or failing to) and the
  task it schedules leave the client waited for and the listening socket registered again.\<close>

lemma accepts_again:
  assumes wf: "iom_wf m" and ls: "0 \<le> ls" "ls < int (length (fdContexts m))"
    and c: "0 \<le> fd" "fd < int (length (fdContexts m))" "fd \<noteq> ls"
    and free: "ctxStore m (fdContexts m ! nat ls) = Some lc" "READ \<notin> fcEvents lc"
      "ctxStore m (fdContexts m ! nat fd) = Some cc" "READ \<notin> fcEvents cc"
  shows "\<exists>m1 m2 lc2 cc2. testAccept True self fd m = Inr m1 \<and> tasks (iomSched m1) = tasks (iomSched m) @ [cbTask WatchIoRead] \<and>
    watchIoRead True self ls m1 = Inr m2 \<and> iom_wf m2 \<and>
    ctxStore m2 (fdContexts m2 ! nat ls) = Some lc2 \<and> READ \<in> fcEvents lc2 \<and> wakeTask READ lc2 = cbTask TestAccept \<and>
    ctxStore m2 (fdContexts m2 ! nat fd) = Some cc2 \<and> READ \<in> fcEvents cc2 \<and> wakeTask READ cc2 = cbTask (Serve fd)"
proof -
  let ?p = "fdContexts m ! nat fd" and ?q = "fdContexts m ! nat ls"
  have ne: "?q \<noteq> ?p" using iom_wfD(1)[OF wf] ls c by (auto simp: nth_eq_iff_index_eq nat_less_iff)
  from addEvent_at(2)[OF wf c(1,2) refl free(3,4), of "Some (Serve fd)" self] obtain m0 cc2 where
    a: "addEvent True self fd READ (Some (Serve fd)) m = Inr (0, m0)" "iom_wf m0" "fdContexts m0 = fdContexts m"
      "ctxStore m0 ?p = Some cc2" "fcEvents cc2 = insert READ (fcEvents cc)" "wakeTask READ cc2 = cbTask (Serve fd)"
      "iomSched m0 = iomSched m" by (auto simp: waiter_def)
  let ?m1 = "iomSchedule (cbTask WatchIoRead) m0"
  have t: "testAccept True self fd m = Inr ?m1" "tasks (iomSched ?m1) = tasks (iomSched m) @ [cbTask WatchIoRead]"
    using c(1) a(1,7) by (simp_all add: testAccept_def iomSchedule_tasks cbTask_def)
  have wf1: "iom_wf ?m1" using a(2) by (subst iom_wf_cong[of ?m1 m0]) simp_all
  have ls1: "ls < int (length (fdContexts ?m1))" "?q = fdContexts ?m1 ! nat ls" "ctxStore ?m1 ?q = Some lc"
    using ls(2) a(3) addEvent_other[OF wf c(1,2) a(1) ne] free(1) by simp_all
  from addEvent_at(2)[OF wf1 ls(1) ls1 free(2), of "Some TestAccept" self] obtain m2 lc2 where
    b: "addEvent True self ls READ (Some TestAccept) ?m1 = Inr (0, m2)" "iom_wf m2" "fdContexts m2 = fdContexts ?m1"
      "ctxStore m2 ?q = Some lc2" "fcEvents lc2 = insert READ (fcEvents lc)" "wakeTask READ lc2 = cbTask TestAccept"
    by (auto simp: waiter_def)
  have "?p \<noteq> fdContexts ?m1 ! nat ls" using ne ls1(2) by metis
  then have "ctxStore m2 ?p = Some cc2" using addEvent_other[OF wf1 ls(1) ls1(1) b(1)] a(4) by simp
  then show ?thesis
    using t a(3,5,6) b by (intro exI[of _ ?m1] exI[of _ m2] exI[of _ lc2] exI[of _ cc2]) (simp add: watchIoRead_def)
qed

end
