(* ===== verification/ThreadPool.thy ===== *)
theory ThreadPool
  imports SchedulerTheorems "HOL-Library.Multiset"
begin

text \<open>
  Several threads in one scheduler: \<^verbatim>\<open>Scheduler::run\<close> of \<^verbatim>\<open>src/fiber/scheduler.cpp\<close> with the idle fiber of
  \<^verbatim>\<open>src/fiber/io_manager.cpp\<close>.  The queue, the counters and the fiber objects are shared, and every thread is at a
  stage of its loop.  A step is what one thread does between two moments at which another can see the
  difference: a critical section of the scheduler's mutex, or one access to the state of a fiber or to a
  counter.  In particular \<^verbatim>\<open>yield\<close> is cut between the assignment to \<^verbatim>\<open>state_\<close> and \<^verbatim>\<open>swapcontext\<close>, and \<^verbatim>\<open>stopping\<close> between
  its test for pending events and its test of the scheduler.
\<close>

section \<open>State\<close>

datatype 'c stage =
  AtTop \<comment> \<open>before the search of the queue\<close>
| Took "'c schedulerTask" \<comment> \<open>before \<^verbatim>\<open>resume\<close>\<close>
| Executing nat
| Parking nat \<comment> \<open>the fiber registered with a timer or an event, before \<^verbatim>\<open>yield\<close>\<close>
| Switching nat \<comment> \<open>in \<^verbatim>\<open>yield\<close>, between the assignment to \<^verbatim>\<open>state_\<close> and \<^verbatim>\<open>swapcontext\<close>\<close>
| Returned \<comment> \<open>back in the loop, before the decrement of \<^verbatim>\<open>activeThreadCnt_\<close>\<close>
| NothingToDo
| Polling \<comment> \<open>in the idle fiber, before \<^verbatim>\<open>stopping\<close>\<close>
| Checked \<comment> \<open>in \<^verbatim>\<open>stopping\<close>, after no timer and no pending event was found\<close>
| Idling \<comment> \<open>in the idle fiber after \<^verbatim>\<open>epoll_wait\<close>\<close>
| Exited

text \<open>\<open>waiters\<close> are the fibers a registered event or a timer is going to schedule, \<open>armed\<close> the callbacks of
  the others.  \<open>accepted\<close> and \<open>started\<close> are histories: the callbacks that were put into the queue, and those
  that were given a fiber.\<close>

record 'c pool =
  poolSched :: "'c scheduler"
  poolFibers :: "nat \<rightharpoonup> 'c fiber"
  poolNext :: nat
  stages :: "int \<rightharpoonup> 'c stage"
  idleEnded :: "int set" \<comment> \<open>threads whose idle fiber is \<open>TERMINATED\<close>\<close>
  waiters :: "nat set"
  armed :: "'c multiset"
  accepted :: "'c multiset"
  started :: "'c multiset"

definition setStage :: "int \<Rightarrow> 'c stage \<Rightarrow> 'c pool \<Rightarrow> 'c pool" where
  "setStage tid s p = p\<lparr>stages := (stages p)(tid \<mapsto> s)\<rparr>"

definition putTask :: "'c schedulerTask \<Rightarrow> 'c pool \<Rightarrow> 'c pool" where
  "putTask t p = p\<lparr>poolSched := snd (schedule t (poolSched p))\<rparr>"

definition putCallback :: "'c \<Rightarrow> 'c pool \<Rightarrow> 'c pool" where
  "putCallback c p = putTask (cbTask c) (p\<lparr>accepted := add_mset c (accepted p)\<rparr>)"

definition setFiberState :: "nat \<Rightarrow> fiberState \<Rightarrow> 'c pool \<Rightarrow> 'c pool" where
  "setFiberState f st p = p\<lparr>poolFibers := (poolFibers p)(f := map_option (fstate_update (\<lambda>_. st)) (poolFibers p f))\<rparr>"

definition endFiber :: "nat \<Rightarrow> 'c pool \<Rightarrow> 'c pool" where
  \<comment> \<open>the end of \<open>mainFunc\<close>\<close>
  "endFiber f p = setFiberState f TERMINATED
     (p\<lparr>poolFibers := (poolFibers p)(f := map_option (fiberCb_update (\<lambda>_. None)) (poolFibers p f))\<rparr>)"

section \<open>What a thread does\<close>

text \<open>The critical section at the top of the loop.\<close>

definition takeTask :: "int \<Rightarrow> 'c pool \<Rightarrow> 'c pool res" where
  "takeTask tid p =
     andThen (pickTask tid (poolFibers p) (tasks (poolSched p))) (\<lambda>(task, ts, _). Inr (case task of
       Some t \<Rightarrow> setStage tid (Took t)
         (p\<lparr>poolSched := (poolSched p)\<lparr>tasks := ts, activeThreadCnt := Suc (activeThreadCnt (poolSched p))\<rparr>\<rparr>)
     | None \<Rightarrow> setStage tid NothingToDo p))"

definition resumeOn :: "int \<Rightarrow> nat \<Rightarrow> 'c pool \<Rightarrow> 'c pool res" where
  \<comment> \<open>\<open>resume\<close> with the assertion on the state it finds\<close>
  "resumeOn tid f p =
     andThen (derefOpt (poolFibers p f)) (\<lambda>b.
     andThen (myAssert (fstate b \<noteq> TERMINATED \<and> fstate b \<noteq> RUNNING)) (\<lambda>_.
       Inr (setStage tid (Executing f) (setFiberState f RUNNING p))))"

definition startTask :: "int \<Rightarrow> 'c schedulerTask \<Rightarrow> 'c pool \<Rightarrow> 'c pool res" where
  \<comment> \<open>a callback gets a new fiber\<close>
  "startTask tid t p =
     (case taskFiber t of
        Some f \<Rightarrow> resumeOn tid f p
      | None \<Rightarrow> andThen (derefOpt (taskCb t)) (\<lambda>cb.
          let f = poolNext p
          in resumeOn tid f (p\<lparr>poolFibers := (poolFibers p)(f \<mapsto>
               \<lparr>fstate = READY, hasStack = True, fiberCb = Some cb, isRunInScheduler = True\<rparr>),
             poolNext := Suc f, started := add_mset cb (started p)\<rparr>)))"

definition leaveTask :: "int \<Rightarrow> 'c pool \<Rightarrow> 'c pool" where
  "leaveTask tid p = setStage tid AtTop
     (p\<lparr>poolSched := (poolSched p)\<lparr>activeThreadCnt := activeThreadCnt (poolSched p) - 1\<rparr>\<rparr>)"

definition enterIdle :: "int \<Rightarrow> 'c pool \<Rightarrow> 'c pool" where
  "enterIdle tid p =
     (if tid \<in> idleEnded p then setStage tid Exited p
      else setStage tid Polling (p\<lparr>poolSched := (poolSched p)\<lparr>idleThreadCnt := Suc (idleThreadCnt (poolSched p))\<rparr>\<rparr>))"

definition leaveIdle :: "int \<Rightarrow> 'c pool \<Rightarrow> 'c pool" where
  "leaveIdle tid p = setStage tid AtTop
     (p\<lparr>poolSched := (poolSched p)\<lparr>idleThreadCnt := idleThreadCnt (poolSched p) - 1\<rparr>\<rparr>)"

text \<open>\<open>IOManager::stopping\<close>: first the timers and the counter of pending events, then, in a critical section,
  the scheduler itself.\<close>

definition nonePending :: "'c pool \<Rightarrow> bool" where
  "nonePending p \<longleftrightarrow> waiters p = {} \<and> armed p = {#}"

definition checkPending :: "int \<Rightarrow> 'c pool \<Rightarrow> 'c pool" where
  "checkPending tid p = setStage tid (if nonePending p then Checked else Idling) p"

definition checkStopping :: "int \<Rightarrow> 'c pool \<Rightarrow> 'c pool" where
  "checkStopping tid p =
     (if schedulerStopping (poolSched p) then leaveIdle tid (p\<lparr>idleEnded := insert tid (idleEnded p)\<rparr>)
      else setStage tid Idling p)"

text \<open>What a fiber and a triggered event do.\<close>

definition wait :: "int \<Rightarrow> nat \<Rightarrow> 'c pool \<Rightarrow> 'c pool" where
  "wait tid f p = setStage tid (Parking f) (p\<lparr>waiters := insert f (waiters p)\<rparr>)"

definition wake :: "nat \<Rightarrow> 'c pool \<Rightarrow> 'c pool" where
  "wake f p = putTask (fiberTask (Some f)) (p\<lparr>waiters := waiters p - {f}\<rparr>)"

definition fire :: "'c \<Rightarrow> 'c pool \<Rightarrow> 'c pool" where
  "fire c p = putCallback c (p\<lparr>armed := armed p - {#c#}\<rparr>)"

section \<open>Runs\<close>

text \<open>The number of threads \<^verbatim>\<open>Raft::init\<close> gives its manager, from \<^verbatim>\<open>src/common/include/config.hpp\<close>.\<close>

definition FIBER_THREAD_NUM :: nat where "FIBER_THREAD_NUM = 1"

text \<open>The threads that execute \<open>run\<close>, and the scheduler as its constructor leaves it.\<close>

definition newPool :: "int list \<Rightarrow> 'c scheduler \<Rightarrow> 'c pool" where
  "newPool tids s = \<lparr>poolSched = s, poolFibers = Map.empty, poolNext = 0,
     stages = (\<lambda>tid. if tid \<in> set tids then Some AtTop else None), idleEnded = {}, waiters = {}, armed = {#},
     accepted = {#}, started = {#}\<rparr>"

definition poolInit :: "int list \<Rightarrow> 'c pool \<Rightarrow> bool" where
  "poolInit tids p \<longleftrightarrow>
     (\<exists>useCaller caller s. newScheduler (length tids) useCaller caller = Inr s \<and> p = newPool tids s)"

text \<open>A fiber is parked when no thread is on its way out of it.\<close>

definition parked :: "nat \<Rightarrow> 'c pool \<Rightarrow> bool" where
  "parked f p \<longleftrightarrow> Some (Parking f) \<notin> range (stages p) \<and> Some (Switching f) \<notin> range (stages p)"

text \<open>Who can wake others: a fiber that executes, and an idle fiber after \<^verbatim>\<open>epoll_wait\<close>.\<close>

definition canWake :: "int \<Rightarrow> 'c pool \<Rightarrow> bool" where
  "canWake tid p \<longleftrightarrow> stages p tid = Some Idling \<or> (\<exists>g. stages p tid = Some (Executing g))"

text \<open>The steps; with \<open>early\<close> an event may come as soon as it is registered, as in the code, without it only when
  its fiber is parked.  Nothing is submitted from outside after \<open>stop\<close>.\<close>

inductive poolStep :: "bool \<Rightarrow> 'c pool \<Rightarrow> 'c pool \<Rightarrow> bool" for early where
  p_take: "stages p tid = Some AtTop \<Longrightarrow> takeTask tid p = Inr p' \<Longrightarrow> poolStep early p p'"
| p_start: "stages p tid = Some (Took t) \<Longrightarrow> startTask tid t p = Inr p' \<Longrightarrow> poolStep early p p'"
| p_wait: "stages p tid = Some (Executing f) \<Longrightarrow> poolStep early p (wait tid f p)"
| p_ready: "stages p tid = Some (Parking f) \<Longrightarrow>
    poolStep early p (setStage tid (Switching f) (setFiberState f READY p))"
| p_switch: "stages p tid = Some (Switching f) \<Longrightarrow> poolStep early p (setStage tid Returned p)"
| p_finish: "stages p tid = Some (Executing f) \<Longrightarrow>
    poolStep early p (setStage tid Returned (endFiber f p))"
| p_leave: "stages p tid = Some Returned \<Longrightarrow> poolStep early p (leaveTask tid p)"
| p_idle: "stages p tid = Some NothingToDo \<Longrightarrow> poolStep early p (enterIdle tid p)"
| p_pending: "stages p tid = Some Polling \<Longrightarrow> poolStep early p (checkPending tid p)"
| p_stopping: "stages p tid = Some Checked \<Longrightarrow> poolStep early p (checkStopping tid p)"
| p_unidle: "stages p tid = Some Idling \<Longrightarrow> poolStep early p (leaveIdle tid p)"
| p_wake: "canWake tid p \<Longrightarrow> f \<in> waiters p \<Longrightarrow> early \<or> parked f p \<Longrightarrow> poolStep early p (wake f p)"
| p_fire: "canWake tid p \<Longrightarrow> c \<in># armed p \<Longrightarrow> poolStep early p (fire c p)"
| p_arm: "stages p tid = Some (Executing f) \<Longrightarrow> poolStep early p (p\<lparr>armed := add_mset c (armed p)\<rparr>)"
| p_disarm: "stages p tid = Some (Executing f) \<Longrightarrow> poolStep early p (p\<lparr>armed := armed p - {#c#}\<rparr>)"
| p_schedule: "stages p tid = Some (Executing f) \<Longrightarrow> poolStep early p (putCallback c p)"
| p_submit: "\<not> isStopped (poolSched p) \<Longrightarrow> poolStep early p (putCallback c p)"
| p_stop: "poolStep early p (p\<lparr>poolSched := (poolSched p)\<lparr>isStopped := True\<rparr>\<rparr>)"

inductive_cases poolStepE: "poolStep early p p'"

end
