(* ===== verification/ThreadPoolInv.thy ===== *)
theory ThreadPoolInv
  imports ThreadPool
begin

text \<open>
  The invariant of a pool: every fiber is in one place at a time, with the state that belongs to the place, and the
  steps keep it as long as an event comes to a parked fiber.  What a pool does to a fiber object is what the
  operations of \<open>Fiber\<close> do.
\<close>

section \<open>Where a fiber is\<close>

definition stateOf :: "'c pool \<Rightarrow> nat \<Rightarrow> fiberState option" where
  "stateOf p f = map_option fstate (poolFibers p f)"

fun stageFiber :: "'c stage \<Rightarrow> nat option" where
  "stageFiber (Took t) = taskFiber t"
| "stageFiber (Executing f) = Some f"
| "stageFiber (Parking f) = Some f"
| "stageFiber (Switching f) = Some f"
| "stageFiber _ = None"

definition queued :: "'c pool \<Rightarrow> nat list" where
  "queued p = concat (map (\<lambda>t. case taskFiber t of None \<Rightarrow> [] | Some f \<Rightarrow> [f]) (tasks (poolSched p)))"

definition onThread :: "'c pool \<Rightarrow> nat \<Rightarrow> bool" where
  "onThread p f \<longleftrightarrow> (\<exists>tid s. stages p tid = Some s \<and> stageFiber s = Some f)"

fun stage_ok :: "'c pool \<Rightarrow> 'c stage \<Rightarrow> bool" where
  "stage_ok p (Took t) \<longleftrightarrow> (case taskFiber t of
      Some f \<Rightarrow> stateOf p f = Some READY \<and> f \<notin> waiters p
    | None \<Rightarrow> taskCb t \<noteq> None)"
| "stage_ok p (Executing f) \<longleftrightarrow> stateOf p f = Some RUNNING \<and> f \<notin> waiters p"
| "stage_ok p (Parking f) \<longleftrightarrow> stateOf p f = Some RUNNING \<and> f \<in> waiters p"
| "stage_ok p (Switching f) \<longleftrightarrow> stateOf p f = Some READY \<and> f \<in> waiters p"
| "stage_ok p _ \<longleftrightarrow> True"

definition pool_ok :: "'c pool \<Rightarrow> bool" where
  "pool_ok p \<longleftrightarrow>
     (\<forall>t\<in>set (tasks (poolSched p)). taskThread t = -1 \<and> (taskFiber t = None \<longrightarrow> taskCb t \<noteq> None)) \<and>
     distinct (queued p) \<and>
     (\<forall>f\<in>set (queued p). stateOf p f = Some READY \<and> f \<notin> waiters p \<and> \<not> onThread p f) \<and>
     (\<forall>tid s. stages p tid = Some s \<longrightarrow> stage_ok p s) \<and>
     (\<forall>t1 t2 s1 s2 f. stages p t1 = Some s1 \<longrightarrow> stages p t2 = Some s2 \<longrightarrow> stageFiber s1 = Some f \<longrightarrow>
        stageFiber s2 = Some f \<longrightarrow> t1 = t2) \<and>
     (\<forall>f\<in>waiters p. onThread p f \<or> stateOf p f = Some READY) \<and>
     (\<forall>f. poolFibers p f \<noteq> None \<longrightarrow> f < poolNext p)"

text \<open>A thread moves to another stage with the same fiber, or leaves it, or takes a fiber nobody has; only that
  fiber's state changes.\<close>

lemma pool_okD:
  assumes "pool_ok p"
  shows "t \<in> set (tasks (poolSched p)) \<Longrightarrow> taskThread t = -1 \<and> (taskFiber t = None \<longrightarrow> taskCb t \<noteq> None)"
    and "distinct (queued p)"
    and "f \<in> set (queued p) \<Longrightarrow> stateOf p f = Some READY \<and> f \<notin> waiters p \<and> \<not> onThread p f"
    and "stages p tid = Some s \<Longrightarrow> stage_ok p s"
    and "stages p t1 = Some s1 \<Longrightarrow> stages p t2 = Some s2 \<Longrightarrow> stageFiber s1 = Some f \<Longrightarrow> stageFiber s2 = Some f \<Longrightarrow> t1 = t2"
    and "f \<in> waiters p \<Longrightarrow> onThread p f \<or> stateOf p f = Some READY"
    and "poolFibers p f = Some b \<Longrightarrow> f < poolNext p"
  using assms unfolding pool_ok_def by blast+

lemma onThreadI: "stages p tid = Some s \<Longrightarrow> stageFiber s = Some f \<Longrightarrow> onThread p f"
  by (auto simp: onThread_def)

lemma stage_ok_cong:
  assumes "\<And>f. stageFiber s = Some f \<Longrightarrow> stateOf p' f = stateOf p f \<and> (f \<in> waiters p' \<longleftrightarrow> f \<in> waiters p)"
  shows "stage_ok p' s = stage_ok p s"
  using assms by (cases s) (auto split: option.splits)

lemma pool_ok_move:
  assumes ok: "pool_ok p" and old: "stages p tid = Some s0" and new: "stages p' = (stages p)(tid \<mapsto> s)"
    and held: "\<And>g. stageFiber s = Some g \<Longrightarrow> stageFiber s0 = Some g \<or> \<not> onThread p g"
    and s: "stage_ok p' s"
    and tasks: "set (tasks (poolSched p')) \<subseteq> set (tasks (poolSched p))" "distinct (queued p')" "set (queued p') \<subseteq> set (queued p)"
      "\<And>g. stageFiber s = Some g \<Longrightarrow> g \<notin> set (queued p')"
    and same: "\<And>g. stageFiber s0 \<noteq> Some g \<Longrightarrow> stageFiber s \<noteq> Some g \<Longrightarrow> stateOf p' g = stateOf p g \<and> (g \<in> waiters p' \<longleftrightarrow> g \<in> waiters p)"
    and left: "\<And>g. stageFiber s0 = Some g \<Longrightarrow> stageFiber s \<noteq> Some g \<Longrightarrow> g \<in> waiters p' \<Longrightarrow> stateOf p' g = Some READY"
    and dom: "\<And>g. poolFibers p' g \<noteq> None \<Longrightarrow> g < poolNext p'"
  shows "pool_ok p'"
proof -
  note D = pool_okD[OF ok]
  have on: "onThread p' g \<longleftrightarrow> stageFiber s = Some g \<or> (onThread p g \<and> stageFiber s0 \<noteq> Some g)" for g
  proof -
    have u: "t = tid" if "stages p t = Some u" "stageFiber u = Some g" "stageFiber s0 = Some g" for t u
      using D(5)[OF that(1) old that(2,3)] .
    have "stages p' t = Some u" if "stages p t = Some u" "stageFiber u = Some g" "stageFiber s0 \<noteq> Some g" for t u
      using that old new by auto
    then have "onThread p' g" if "onThread p g" "stageFiber s0 \<noteq> Some g"
      using that unfolding onThread_def by blast
    moreover have "onThread p' g" if "stageFiber s = Some g" using that new unfolding onThread_def by auto
    moreover have "stageFiber s = Some g \<or> (onThread p g \<and> stageFiber s0 \<noteq> Some g)" if "onThread p' g"
    proof -
      from that obtain t u' where "stages p' t = Some u'" "stageFiber u' = Some g" by (auto simp: onThread_def)
      then show ?thesis using u new by (cases "t = tid") (auto simp: onThread_def)
    qed
    ultimately show ?thesis by blast
  qed
  have inn: "stageFiber s0 = Some g \<Longrightarrow> onThread p g" for g using old by (auto simp: onThread_def)
  show ?thesis
    unfolding pool_ok_def
  proof (intro conjI allI impI ballI)
    fix t assume "t \<in> set (tasks (poolSched p'))"
    then show "taskThread t = -1" "taskFiber t = None \<Longrightarrow> taskCb t \<noteq> None" using D(1) tasks(1) by blast+
  next
    fix g assume g: "g \<in> set (queued p')"
    then have q: "g \<in> set (queued p)" "stageFiber s \<noteq> Some g" using tasks(3,4) by blast+
    have "stageFiber s0 \<noteq> Some g" using D(3)[OF q(1)] inn by blast
    with D(3)[OF q(1)] same[of g] q(2) on show "stateOf p' g = Some READY" "g \<notin> waiters p'" "\<not> onThread p' g" by auto
  next
    fix t u assume u: "stages p' t = Some u"
    show "stage_ok p' u"
    proof (cases "t = tid")
      case True
      then show ?thesis using u new s by simp
    next
      case False
      then have u': "stages p t = Some u" using u new by simp
      have "stageFiber s0 \<noteq> Some g \<and> stageFiber s \<noteq> Some g" if "stageFiber u = Some g" for g
        using D(5)[OF u' old that] held[of g] u' that False by (auto simp: onThread_def)
      then show ?thesis using stage_ok_cong[of u p' p] D(4)[OF u'] same by blast
    qed
  next
    fix t1 t2 s1 s2 g
    assume "stages p' t1 = Some s1" "stages p' t2 = Some s2" "stageFiber s1 = Some g" "stageFiber s2 = Some g"
    then show "t1 = t2"
      using D(5)[of t1 s1 t2 s2 g] D(5)[OF old, of _ _ g] held[of g] by (auto simp: new onThread_def split: if_splits)
  next
    fix g assume g: "g \<in> waiters p'"
    show "onThread p' g \<or> stateOf p' g = Some READY"
      using on[of g] same[of g] left[of g] D(6)[of g] g by metis
  qed (use tasks(2) dom in auto)
qed

section \<open>The steps\<close>

lemma setStage_fields [simp]:
  "poolSched (setStage tid s p) = poolSched p" "poolFibers (setStage tid s p) = poolFibers p"
  "poolNext (setStage tid s p) = poolNext p" "stages (setStage tid s p) = (stages p)(tid \<mapsto> s)"
  "idleEnded (setStage tid s p) = idleEnded p" "waiters (setStage tid s p) = waiters p"
  "armed (setStage tid s p) = armed p" "accepted (setStage tid s p) = accepted p" "started (setStage tid s p) = started p"
  by (simp_all add: setStage_def)

lemma setFiberState_fields [simp]:
  "poolSched (setFiberState f st p) = poolSched p" "poolNext (setFiberState f st p) = poolNext p"
  "stages (setFiberState f st p) = stages p" "idleEnded (setFiberState f st p) = idleEnded p"
  "waiters (setFiberState f st p) = waiters p" "armed (setFiberState f st p) = armed p"
  "accepted (setFiberState f st p) = accepted p" "started (setFiberState f st p) = started p"
  "stateOf (setFiberState f st p) g = (if g = f then map_option (\<lambda>_. st) (stateOf p f) else stateOf p g)"
  "dom (poolFibers (setFiberState f st p)) = dom (poolFibers p)"
  by (auto simp: setFiberState_def stateOf_def option.map_comp comp_def split: option.splits)

lemma endFiber_fields [simp]:
  "poolSched (endFiber f p) = poolSched p" "poolNext (endFiber f p) = poolNext p"
  "stages (endFiber f p) = stages p" "idleEnded (endFiber f p) = idleEnded p" "waiters (endFiber f p) = waiters p"
  "armed (endFiber f p) = armed p" "accepted (endFiber f p) = accepted p" "started (endFiber f p) = started p"
  "stateOf (endFiber f p) g = (if g = f then map_option (\<lambda>_. TERMINATED) (stateOf p f) else stateOf p g)"
  "dom (poolFibers (endFiber f p)) = dom (poolFibers p)"
  by (auto simp: endFiber_def setFiberState_def stateOf_def option.map_comp comp_def split: option.splits)

text \<open>What these do to the fiber objects is what the operations of one thread do.\<close>

lemma resumeOn_fiberResume:
  assumes "fiberResume f t = Inr t'" and "fibers t = poolFibers p"
  shows "\<exists>p'. resumeOn tid f p = Inr p' \<and> poolFibers p' = fibers t'"
  using assms by (auto simp: fiberResume_def resumeOn_def setState_def swapcontext_def setFiberState_def andThen_eq_Inr
      derefOpt_eq_Inr myAssert_eq_Inr Let_def)

lemma yield_fiberYield:
  assumes "fiberYield f t = Inr t'" and "fibers t = poolFibers p" and "stateOf p f = Some RUNNING"
  shows "poolFibers (setFiberState f READY p) = fibers t'"
  using assms by (auto simp: fiberYield_def setState_def swapcontext_def setFiberState_def stateOf_def andThen_eq_Inr
      derefOpt_eq_Inr Let_def)

lemma endFiber_fiberFinish:
  assumes "fiberFinish f t = Inr t'" and "fibers t = poolFibers p"
  shows "poolFibers (endFiber f p) = fibers t'"
  using assms by (auto simp: fiberFinish_def fiberYield_def setState_def swapcontext_def setFiberState_def endFiber_def
      andThen_eq_Inr derefOpt_eq_Inr Let_def)

lemma stateOf_setStage [simp]: "stateOf (setStage tid s p) = stateOf p"
  by (simp add: stateOf_def fun_eq_iff)

lemma setFiberState_known: "poolFibers (setFiberState f st p) g = Some b \<Longrightarrow> \<exists>b'. poolFibers p g = Some b'"
  by (auto simp: setFiberState_def split: if_splits)

lemma stateOf_cong: "poolFibers p' = poolFibers p \<Longrightarrow> stateOf p' = stateOf p"
  by (simp add: stateOf_def fun_eq_iff)

lemma stage_ok_view:
  assumes "poolFibers p' = poolFibers p" and "waiters p' = waiters p"
  shows "stage_ok p' s = stage_ok p s"
  by (rule stage_ok_cong) (simp add: stateOf_cong[OF assms(1)] assms(2))

text \<open>The steps of the loop itself: a thread moves between stages without a fiber, and only it and the counters change.\<close>

fun busy :: "'c stage \<Rightarrow> nat" where
  "busy (Took t) = 1" | "busy (Executing f) = 1" | "busy (Parking f) = 1" | "busy (Switching f) = 1" | "busy Returned = 1"
| "busy _ = 0"

definition loopMove :: "'c pool \<Rightarrow> 'c pool \<Rightarrow> bool" where
  "loopMove p p' \<longleftrightarrow> (\<exists>tid s0 s. stages p tid = Some s0 \<and> stages p' = (stages p)(tid \<mapsto> s) \<and>
     s0 \<in> {Returned, NothingToDo, Polling, Checked, Idling} \<and> s \<in> {AtTop, Exited, Polling, Checked, Idling} \<and>
     tasks (poolSched p') = tasks (poolSched p) \<and> poolFibers p' = poolFibers p \<and> poolNext p' = poolNext p \<and>
     waiters p' = waiters p \<and> accepted p' = accepted p \<and> started p' = started p \<and>
     activeThreadCnt (poolSched p') = activeThreadCnt (poolSched p) - busy s0)"

lemma loopMoveI:
  assumes "stages p tid = Some s0" and "stages p' = (stages p)(tid \<mapsto> s)"
    and "s0 \<in> {Returned, NothingToDo, Polling, Checked, Idling}" "s \<in> {AtTop, Exited, Polling, Checked, Idling}"
    and "tasks (poolSched p') = tasks (poolSched p)" "poolFibers p' = poolFibers p" "poolNext p' = poolNext p"
    and "waiters p' = waiters p" "accepted p' = accepted p" "started p' = started p"
    and "activeThreadCnt (poolSched p') = activeThreadCnt (poolSched p) - busy s0"
  shows "loopMove p p'"
  using assms unfolding loopMove_def by blast

lemma loop_moves:
  "stages p tid = Some Returned \<Longrightarrow> loopMove p (leaveTask tid p)"
  "stages p tid = Some NothingToDo \<Longrightarrow> loopMove p (enterIdle tid p)"
  "stages p tid = Some Polling \<Longrightarrow> loopMove p (checkPending tid p)"
  "stages p tid = Some Checked \<Longrightarrow> loopMove p (checkStopping tid p)"
  "stages p tid = Some Idling \<Longrightarrow> loopMove p (leaveIdle tid p)"
  subgoal by (rule loopMoveI[of p tid Returned _ AtTop]) (simp_all add: leaveTask_def)
  subgoal by (rule loopMoveI[of p tid NothingToDo _ "if tid \<in> idleEnded p then Exited else Polling"]) (simp_all add: enterIdle_def)
  subgoal by (rule loopMoveI[of p tid Polling _ "if nonePending p then Checked else Idling"]) (simp_all add: checkPending_def)
  subgoal by (rule loopMoveI[of p tid Checked _ "if schedulerStopping (poolSched p) then AtTop else Idling"])
    (simp_all add: checkStopping_def leaveIdle_def)
  subgoal by (rule loopMoveI[of p tid Idling _ AtTop]) (simp_all add: leaveIdle_def)
  done

lemma pool_ok_plain:
  assumes "pool_ok p" and "stages p tid = Some s0" and "stages p' = (stages p)(tid \<mapsto> s)"
    and "stageFiber s0 = None" and "stageFiber s = None" and "stage_ok p' s"
    and "tasks (poolSched p') = tasks (poolSched p)" and "poolFibers p' = poolFibers p" and "poolNext p' = poolNext p"
    and "waiters p' = waiters p"
  shows "pool_ok p'"
proof -
  have q: "queued p' = queued p" by (simp add: queued_def assms(7))
  note D = pool_okD[OF assms(1)]
  show ?thesis
    by (rule pool_ok_move[OF assms(1-3)])
      (use assms(4-10) D(2,7) q in \<open>auto simp: stateOf_cong[OF assms(8)]\<close>)
qed

lemma pool_ok_loop:
  assumes "pool_ok p" and "loopMove p p'"
  shows "pool_ok p'"
proof -
  from assms(2) obtain tid s0 s where m: "stages p tid = Some s0" "stages p' = (stages p)(tid \<mapsto> s)"
    "s0 \<in> {Returned, NothingToDo, Polling, Checked, Idling}" "s \<in> {AtTop, Exited, Polling, Checked, Idling}"
    "tasks (poolSched p') = tasks (poolSched p)" "poolFibers p' = poolFibers p" "poolNext p' = poolNext p"
    "waiters p' = waiters p" unfolding loopMove_def by blast
  show ?thesis by (rule pool_ok_plain[OF assms(1) m(1,2) _ _ _ m(5-8)]) (use m(3,4) in auto)
qed

lemma take_cases:
  assumes "takeTask tid p = Inr p'" and "\<forall>t\<in>set (tasks (poolSched p)). taskThread t = -1"
  shows "(tasks (poolSched p) = [] \<and> p' = setStage tid NothingToDo p) \<or>
    (\<exists>t ts. tasks (poolSched p) = t # ts \<and> p' = setStage tid (Took t)
       (p\<lparr>poolSched := (poolSched p)\<lparr>tasks := ts, activeThreadCnt := Suc (activeThreadCnt (poolSched p))\<rparr>\<rparr>))"
  using assms by (cases "tasks (poolSched p)") (auto simp: takeTask_def andThen_eq_Inr)

lemma queued_Cons:
  "tasks (poolSched p) = t # ts \<Longrightarrow>
   queued p = (case taskFiber t of None \<Rightarrow> [] | Some f \<Rightarrow> [f]) @ queued (p\<lparr>poolSched := (poolSched p)\<lparr>tasks := ts, activeThreadCnt := n\<rparr>\<rparr>)"
  by (simp add: queued_def)

lemma takeTask_ok:
  assumes "pool_ok p" and "stages p tid = Some AtTop" and "takeTask tid p = Inr p'"
  shows "pool_ok p'"
proof -
  note D = pool_okD[OF assms(1)]
  have "\<forall>t\<in>set (tasks (poolSched p)). taskThread t = -1" using D(1) by blast
  from take_cases[OF assms(3) this] show ?thesis
  proof (elim disjE conjE exE)
    assume "p' = setStage tid NothingToDo p"
    then show ?thesis using assms(1,2) by (intro pool_ok_plain[OF assms(1,2)]) auto
  next
    fix t ts assume ts: "tasks (poolSched p) = t # ts"
      and p': "p' = setStage tid (Took t) (p\<lparr>poolSched := (poolSched p)\<lparr>tasks := ts, activeThreadCnt := Suc (activeThreadCnt (poolSched p))\<rparr>\<rparr>)"
    have q: "queued p = (case taskFiber t of None \<Rightarrow> [] | Some f \<Rightarrow> [f]) @ queued p'"
      using ts by (simp add: queued_def p')
    have st: "stateOf p' = stateOf p" by (rule stateOf_cong) (simp add: p')
    have f: "stateOf p f = Some READY \<and> f \<notin> waiters p \<and> \<not> onThread p f \<and> f \<notin> set (queued p')" if "taskFiber t = Some f" for f
      using that D(2) D(3)[of f] q by auto
    have "taskFiber t = None \<longrightarrow> taskCb t \<noteq> None" using D(1)[of t] ts by simp
    then have "stage_ok p' (Took t)" using f st by (auto simp: p' split: option.splits)
    then show ?thesis
      by (rule pool_ok_move[OF assms(1,2), of p' "Took t", rotated 2])
        (use f st q D(2,7) ts in \<open>auto simp: p'\<close>)
  qed
qed

lemma stateOf_Some: "stateOf p f = Some st \<Longrightarrow> \<exists>b. poolFibers p f = Some b \<and> fstate b = st"
  by (auto simp: stateOf_def)

lemma known_fiber:
  assumes "pool_ok p" and "onThread p f \<or> f \<in> waiters p \<or> f \<in> set (queued p)"
  shows "f < poolNext p"
proof -
  note D = pool_okD[OF assms(1)]
  have "stateOf p f \<noteq> None" if st: "stages p tid = Some s" "stageFiber s = Some f" for tid s
    using D(4)[OF st(1)] st(2) by (cases s) auto
  then have "stateOf p f \<noteq> None" if "onThread p f" using that unfolding onThread_def by blast
  moreover have "stateOf p f \<noteq> None" if "f \<in> set (queued p)" using D(3)[OF that] by simp
  ultimately have "stateOf p f \<noteq> None" using assms(2) D(6)[of f] by fastforce
  then show ?thesis using D(7) by (auto simp: stateOf_def)
qed

lemma resumeOn_eq:
  "resumeOn tid f p = Inr p' \<longleftrightarrow> stateOf p f = Some READY \<and> p' = setStage tid (Executing f) (setFiberState f RUNNING p)"
  unfolding resumeOn_def stateOf_def
  by (cases "poolFibers p f") (auto simp: andThen_eq_Inr myAssert_def intro: fiberState.exhaust)

lemma start_ok:
  assumes "pool_ok p" and old: "stages p tid = Some (Took t)" and "startTask tid t p = Inr p'"
  shows "pool_ok p'"
proof -
  note D = pool_okD[OF assms(1)]
  note S = D(4)[OF old]
  show ?thesis
  proof (cases "taskFiber t")
    case (Some f)
    then have p': "p' = setStage tid (Executing f) (setFiberState f RUNNING p)" "stateOf p f = Some READY"
      using assms(3) by (simp_all add: startTask_def resumeOn_eq)
    have "f \<notin> set (queued p)" using D(3)[of f] onThreadI[OF old, of f] Some by auto
    then show ?thesis
      by (intro pool_ok_move[OF assms(1) old, of p' "Executing f"])
        (use Some S p' D(2,7) in \<open>auto simp: queued_def dest!: setFiberState_known\<close>)
  next
    case None
    let ?f = "poolNext p"
    obtain cb where cb: "taskCb t = Some cb" using S None by auto
    let ?p1 = "p\<lparr>poolFibers := (poolFibers p)(?f \<mapsto> \<lparr>fstate = READY, hasStack = True, fiberCb = Some cb, isRunInScheduler = True\<rparr>),
      poolNext := Suc ?f, started := add_mset cb (started p)\<rparr>"
    have p': "p' = setStage tid (Executing ?f) (setFiberState ?f RUNNING ?p1)"
      using assms(3) None cb by (simp add: startTask_def resumeOn_eq Let_def)
    have st: "stateOf p' g = (if g = ?f then Some RUNNING else stateOf p g)" for g
      by (simp add: p' stateOf_def setFiberState_def)
    have f: "stages p' = (stages p)(tid \<mapsto> Executing ?f)" "waiters p' = waiters p" "poolNext p' = Suc ?f"
      "tasks (poolSched p') = tasks (poolSched p)" "queued p' = queued p" by (simp_all add: p' queued_def)
    have new: "\<not> onThread p ?f" "?f \<notin> waiters p" "?f \<notin> set (queued p)" using known_fiber[OF assms(1), of ?f] by blast+
    have "g < Suc ?f" if "poolFibers p' g \<noteq> None" for g
      using that D(7)[of g] by (cases "g = ?f") (auto simp: p' setFiberState_def)
    then show ?thesis
      by (intro pool_ok_move[OF assms(1) old, of p' "Executing ?f"])
        (use None new st D(2) f in auto)
  qed
qed

text \<open>A fiber on its thread changes its state or registers.\<close>

lemma fiber_move_ok:
  assumes "pool_ok p" and old: "stages p tid = Some s0" "stageFiber s0 = Some f"
    and new: "stages p' = (stages p)(tid \<mapsto> s)" "stageFiber s = Some f \<or> stageFiber s = None"
    and "tasks (poolSched p') = tasks (poolSched p)" "poolNext p' = poolNext p"
    and st: "dom (poolFibers p') = dom (poolFibers p)" "\<And>g. g \<noteq> f \<Longrightarrow> stateOf p' g = stateOf p g \<and> (g \<in> waiters p' \<longleftrightarrow> g \<in> waiters p)"
    and s: "stage_ok p' s" "stageFiber s = None \<Longrightarrow> f \<in> waiters p' \<Longrightarrow> stateOf p' f = Some READY"
  shows "pool_ok p'"
proof -
  note D = pool_okD[OF assms(1)]
  have q: "queued p' = queued p" by (simp add: queued_def assms(6))
  have f: "f \<notin> set (queued p)" using D(3)[of f] onThreadI[OF old] by blast
  have dom: "g < poolNext p'" if "poolFibers p' g \<noteq> None" for g using that st(1) D(7)[of g] assms(7) by (auto simp: dom_def)
  show ?thesis
    by (rule pool_ok_move[OF assms(1) old(1) new(1) _ s(1) _ _ _ _ _ _ dom])
      (use old new(2) q f s(2) D(2) st(2) assms(6) in auto)
qed

lemma put_ok:
  assumes "pool_ok p" and "tasks (poolSched p') = tasks (poolSched p) @ [t]" and "stages p' = stages p"
    and "poolFibers p' = poolFibers p" "poolNext p' = poolNext p"
    and t: "taskThread t = -1" "taskFiber t = None \<Longrightarrow> taskCb t \<noteq> None"
      "\<And>g. taskFiber t = Some g \<Longrightarrow> g \<in> waiters p \<and> \<not> onThread p g" "waiters p' = waiters p - set_option (taskFiber t)"
  shows "pool_ok p'"
proof -
  note D = pool_okD[OF assms(1)]
  have q: "queued p' = queued p @ (case taskFiber t of None \<Rightarrow> [] | Some f \<Rightarrow> [f])" by (simp add: queued_def assms(2))
  have on: "onThread p' = onThread p" by (simp add: onThread_def fun_eq_iff assms(3))
  have st: "stateOf p' = stateOf p" by (rule stateOf_cong[OF assms(4)])
  have f: "g \<notin> set (queued p) \<and> \<not> onThread p g \<and> stateOf p g = Some READY" if "taskFiber t = Some g" for g
    using t(3)[OF that] D(3)[of g] D(6)[of g] by blast
  have "stage_ok p' s" if s: "stages p tid = Some s" for tid s
  proof -
    have "g \<in> waiters p' \<longleftrightarrow> g \<in> waiters p" if "stageFiber s = Some g" for g
      using t(3)[of g] t(4) onThreadI[OF s that] by (cases "taskFiber t") auto
    then show ?thesis using stage_ok_cong[of s p' p] D(4)[OF s] st by simp
  qed
  then have stg: "\<forall>tid s. stages p tid = Some s \<longrightarrow> stage_ok p' s" by blast
  have dist: "distinct (queued p')" using D(2) f by (auto simp: q split: option.splits)
  have qs: "stateOf p g = Some READY \<and> g \<notin> waiters p' \<and> \<not> onThread p g" if "g \<in> set (queued p')" for g
    using that f D(3)[of g] t(4) by (auto simp: q split: option.splits)
  have ws: "onThread p g \<or> stateOf p g = Some READY" if "g \<in> waiters p'" for g using that t(4) D(6) by blast
  have ts: "\<forall>t\<in>set (tasks (poolSched p) @ [t]). taskThread t = -1 \<and> (taskFiber t = None \<longrightarrow> taskCb t \<noteq> None)"
    using D(1) t(1,2) by auto
  have "\<forall>t1 t2 s1 s2 f. stages p t1 = Some s1 \<longrightarrow> stages p t2 = Some s2 \<longrightarrow> stageFiber s1 = Some f \<longrightarrow>
      stageFiber s2 = Some f \<longrightarrow> t1 = t2" using D(5) by blast
  moreover have "\<forall>f. poolFibers p f \<noteq> None \<longrightarrow> f < poolNext p" using D(7) by blast
  moreover have "\<forall>f\<in>set (queued p'). stateOf p f = Some READY \<and> f \<notin> waiters p' \<and> \<not> onThread p f" using qs by blast
  moreover have "\<forall>f\<in>waiters p'. onThread p f \<or> stateOf p f = Some READY" using ws by blast
  ultimately show ?thesis
    unfolding pool_ok_def on st assms(2-5) using dist stg ts by (intro conjI)
qed

text \<open>A waiting fiber that is parked is on no thread, and in a pool of one thread whoever can wake it finds it parked.\<close>

lemma parked_off:
  assumes "pool_ok p" and "f \<in> waiters p" and "parked f p"
  shows "\<not> onThread p f"
proof
  assume "onThread p f"
  then obtain tid s where s: "stages p tid = Some s" "stageFiber s = Some f" by (auto simp: onThread_def)
  then have "s \<noteq> Parking f" "s \<noteq> Switching f" using assms(3) rangeI[of "stages p" tid] by (auto simp: parked_def)
  with s pool_okD(4)[OF assms(1) s(1)] assms(2) show False by (cases s) auto
qed

lemma alone_off:
  assumes "pool_ok p" and "f \<in> waiters p" and "dom (stages p) \<subseteq> {t0}" and "canWake tid p"
  shows "\<not> onThread p f"
proof
  assume "onThread p f"
  then obtain t s where s: "stages p t = Some s" "stageFiber s = Some f" by (auto simp: onThread_def)
  from assms(4) obtain u where u: "stages p tid = Some u" "u = Idling \<or> (\<exists>g. u = Executing g)" by (auto simp: canWake_def)
  have "t = tid" using s(1) u(1) assms(3) by (auto simp: dom_def)
  with s u pool_okD(4)[OF assms(1) s(1)] assms(2) show False by auto
qed

lemma putTask_fields [simp]:
  "poolFibers (putTask t p) = poolFibers p" "poolNext (putTask t p) = poolNext p" "stages (putTask t p) = stages p"
  "idleEnded (putTask t p) = idleEnded p" "waiters (putTask t p) = waiters p" "armed (putTask t p) = armed p"
  "accepted (putTask t p) = accepted p" "started (putTask t p) = started p"
  "isStopped (poolSched (putTask t p)) = isStopped (poolSched p)"
  "activeThreadCnt (poolSched (putTask t p)) = activeThreadCnt (poolSched p)"
  "taskFiber t \<noteq> None \<or> taskCb t \<noteq> None \<Longrightarrow> tasks (poolSched (putTask t p)) = tasks (poolSched p) @ [t]"
  by (auto simp: putTask_def schedule_def)

lemma fiberTask_fields [simp]: "taskFiber (fiberTask f) = f" "taskCb (fiberTask f) = None" "taskThread (fiberTask f) = -1"
  by (simp_all add: fiberTask_def)

lemma wake_ok:
  assumes "pool_ok p" and "f \<in> waiters p" and "\<not> onThread p f"
  shows "pool_ok (wake f p)"
  by (rule put_ok[OF assms(1), of _ "fiberTask (Some f)"]) (use assms(2,3) in \<open>simp_all add: wake_def\<close>)

lemma putCallback_ok: "pool_ok p \<Longrightarrow> waiters q = waiters p \<Longrightarrow> poolSched q = poolSched p \<Longrightarrow> stages q = stages p \<Longrightarrow>
    poolFibers q = poolFibers p \<Longrightarrow> poolNext q = poolNext p \<Longrightarrow> pool_ok (putCallback c q)"
  by (rule put_ok[of p _ "cbTask c"]) (simp_all add: putCallback_def)

lemma pool_ok_same:
  assumes "pool_ok p" and "tasks (poolSched p') = tasks (poolSched p)" "stages p' = stages p" "poolFibers p' = poolFibers p"
    "poolNext p' = poolNext p" "waiters p' = waiters p"
  shows "pool_ok p'"
proof -
  have eq: "queued p' = queued p" "onThread p' = onThread p" "stateOf p' = stateOf p"
    using assms(2-4) by (simp_all add: queued_def onThread_def fun_eq_iff stateOf_def)
  have "stage_ok p' s = stage_ok p s" for s by (rule stage_ok_view[OF assms(4,6)])
  then show ?thesis using assms(1) unfolding pool_ok_def eq assms(2-6) by simp
qed

text \<open>The discipline: an event comes when its fiber is parked, or the pool has one thread.\<close>

lemma pool_step_ok:
  assumes ok: "pool_ok p" and alone: "early \<Longrightarrow> dom (stages p) \<subseteq> {t0}" and step: "poolStep early p p'"
  shows "pool_ok p'"
  using step
proof cases
  case (p_take tid)
  then show ?thesis using takeTask_ok[OF ok] by blast
next
  case (p_start tid t)
  then show ?thesis using start_ok[OF ok] by blast
next
  case (p_wait tid f)
  then show ?thesis
    by (intro fiber_move_ok[OF ok p_wait(2), of f p' "Parking f"])
      (use pool_okD(4)[OF ok p_wait(2)] in \<open>auto simp: wait_def stateOf_def\<close>)
next
  case (p_ready tid f)
  then show ?thesis
    by (intro fiber_move_ok[OF ok p_ready(2), of f p' "Switching f"])
      (use pool_okD(4)[OF ok p_ready(2)] in auto)
next
  case (p_switch tid f)
  then show ?thesis
    by (intro fiber_move_ok[OF ok p_switch(2), of f p' Returned])
      (use pool_okD(4)[OF ok p_switch(2)] in auto)
next
  case (p_finish tid f)
  then show ?thesis
    by (intro fiber_move_ok[OF ok p_finish(2), of f p' Returned])
      (use pool_okD(4)[OF ok p_finish(2)] in auto)
next
  case (p_wake tid f)
  then have "\<not> onThread p f"
    using parked_off[OF ok p_wake(3)] alone_off[OF ok p_wake(3) alone p_wake(2)] by blast
  then show ?thesis using wake_ok[OF ok] p_wake by simp
next
  case (p_fire tid c)
  then show ?thesis by (simp add: fire_def putCallback_ok[OF ok])
next
  case (p_schedule tid f c)
  then show ?thesis by (simp add: putCallback_ok[OF ok])
next
  case (p_submit c)
  then show ?thesis by (simp add: putCallback_ok[OF ok])
qed (simp_all add: pool_ok_same[OF ok] pool_ok_loop[OF ok] loop_moves)

end
