(* ===== verification/ThreadPoolCounts.thy ===== *)
theory ThreadPoolCounts
  imports ThreadPoolInv
begin

text \<open>
  What the threads of a pool keep together: the counter of active threads is the number of threads with a task,
  every callback that was accepted is in the queue, with a thread, or started, and every fiber that has not ended
  is with somebody.
\<close>

section \<open>Counting over the threads\<close>

definition overThreads :: "('c stage \<Rightarrow> 'm::comm_monoid_add) \<Rightarrow> 'c pool \<Rightarrow> 'm" where
  "overThreads w p = (\<Sum>tid\<in>dom (stages p). w (the (stages p tid)))"

lemma overThreads_move:
  assumes "finite (dom (stages p))" and "stages p tid = Some s0" and "stages p' = (stages p)(tid \<mapsto> s)"
  shows "overThreads w p' + w s0 = overThreads w p + w s"
proof -
  have d: "dom (stages p') = dom (stages p)" "tid \<in> dom (stages p)" using assms(2,3) by auto
  let ?rest = "\<Sum>t\<in>dom (stages p) - {tid}. w (the (stages p t))"
  have r: "(\<Sum>t\<in>dom (stages p) - {tid}. w (the (stages p' t))) = ?rest"
    by (rule sum.cong) (auto simp: assms(3))
  have "overThreads w p' = w s + ?rest"
    unfolding overThreads_def d(1) sum.remove[OF assms(1) d(2)] r by (simp add: assms(3))
  moreover have "overThreads w p = w s0 + ?rest"
    unfolding overThreads_def sum.remove[OF assms(1) d(2)] by (simp add: assms(2))
  ultimately show ?thesis by (simp add: ac_simps)
qed

lemma overThreads_same: "stages p' = stages p \<Longrightarrow> overThreads w p' = overThreads w p"
  by (simp add: overThreads_def)

definition callbackOf :: "'c schedulerTask \<Rightarrow> 'c multiset" where
  "callbackOf t = (if taskFiber t = None then (case taskCb t of None \<Rightarrow> {#} | Some c \<Rightarrow> {#c#}) else {#})"

fun takenCb :: "'c stage \<Rightarrow> 'c multiset" where
  "takenCb (Took t) = callbackOf t"
| "takenCb _ = {#}"

definition queuedCbs :: "'c pool \<Rightarrow> 'c multiset" where
  "queuedCbs p = sum_list (map callbackOf (tasks (poolSched p)))"

definition counts_ok :: "'c pool \<Rightarrow> bool" where
  "counts_ok p \<longleftrightarrow> finite (dom (stages p)) \<and>
     (\<forall>t\<in>set (tasks (poolSched p)). taskThread t = -1) \<and>
     (\<forall>tid t. stages p tid = Some (Took t) \<longrightarrow> taskFiber t = None \<longrightarrow> taskCb t \<noteq> None) \<and>
     (\<forall>t\<in>set (tasks (poolSched p)). taskFiber t = None \<longrightarrow> taskCb t \<noteq> None) \<and>
     activeThreadCnt (poolSched p) = overThreads busy p \<and>
     accepted p = queuedCbs p + overThreads takenCb p + started p"

lemma counts_move:
  assumes ok: "counts_ok p" and "stages p tid = Some s0" and "stages p' = (stages p)(tid \<mapsto> s)"
    and "set (tasks (poolSched p')) \<subseteq> set (tasks (poolSched p))"
    and "\<And>t. s = Took t \<Longrightarrow> taskFiber t = None \<Longrightarrow> taskCb t \<noteq> None"
    and "activeThreadCnt (poolSched p') + busy s0 = activeThreadCnt (poolSched p) + busy s"
    and "accepted p' = accepted p"
    and "queuedCbs p' + takenCb s + started p' = queuedCbs p + takenCb s0 + started p"
  shows "counts_ok p'"
proof -
  have fin: "finite (dom (stages p))" using ok by (simp add: counts_ok_def)
  have "overThreads busy p' + busy s0 = overThreads busy p + busy s" by (rule overThreads_move[OF fin assms(2,3)])
  then have act: "activeThreadCnt (poolSched p') = overThreads busy p'" using assms(6) ok by (simp add: counts_ok_def)
  have T: "overThreads takenCb p' + takenCb s0 = overThreads takenCb p + takenCb s" by (rule overThreads_move[OF fin assms(2,3)])
  have "(queuedCbs p' + overThreads takenCb p' + started p') + (takenCb s + takenCb s0) =
      (queuedCbs p' + takenCb s + started p') + (overThreads takenCb p' + takenCb s0)" by (simp only: union_ac)
  also have "\<dots> = (queuedCbs p + overThreads takenCb p + started p) + (takenCb s + takenCb s0)"
    unfolding assms(8) T by (simp only: union_ac)
  finally have "queuedCbs p' + overThreads takenCb p' + started p' = queuedCbs p + overThreads takenCb p + started p" by simp
  then have "accepted p' = queuedCbs p' + overThreads takenCb p' + started p'" using ok assms(7) by (simp add: counts_ok_def)
  moreover have "dom (stages p') = dom (stages p)" using assms(2,3) by auto
  moreover have "\<forall>t u. stages p' t = Some (Took u) \<longrightarrow> taskFiber u = None \<longrightarrow> taskCb u \<noteq> None"
    using ok assms(3,5) by (auto simp: counts_ok_def)
  ultimately show ?thesis using ok assms(4) act unfolding counts_ok_def by auto
qed

lemma counts_put:
  assumes ok: "counts_ok p" and "tasks (poolSched p') = tasks (poolSched p) @ [t]" and "stages p' = stages p"
    and "taskThread t = -1" "taskFiber t = None \<Longrightarrow> taskCb t \<noteq> None"
    and "activeThreadCnt (poolSched p') = activeThreadCnt (poolSched p)"
    and "accepted p' = accepted p + callbackOf t" "started p' = started p"
  shows "counts_ok p'"
proof -
  have "queuedCbs p' = queuedCbs p + callbackOf t" by (simp add: queuedCbs_def assms(2))
  then have "accepted p' = queuedCbs p' + overThreads takenCb p + started p" using ok assms(7) by (simp add: counts_ok_def)
  then show ?thesis using ok assms(2,4-6,8) unfolding counts_ok_def overThreads_same[OF assms(3)] assms(3) by auto
qed


lemma take_counts:
  assumes ok: "counts_ok p" and at: "stages p tid = Some AtTop" and "takeTask tid p = Inr p'"
  shows "counts_ok p'"
proof -
  have u: "\<forall>t\<in>set (tasks (poolSched p)). taskThread t = -1" using ok by (simp add: counts_ok_def)
  from take_cases[OF assms(3) u] show ?thesis
  proof (elim disjE conjE exE)
    assume "p' = setStage tid NothingToDo p"
    then show ?thesis by (intro counts_move[OF ok at, of p' NothingToDo]) (auto simp: queuedCbs_def)
  next
    fix t ts assume ts: "tasks (poolSched p) = t # ts"
      and p': "p' = setStage tid (Took t) (p\<lparr>poolSched := (poolSched p)\<lparr>tasks := ts, activeThreadCnt := Suc (activeThreadCnt (poolSched p))\<rparr>\<rparr>)"
    have "taskFiber t = None \<Longrightarrow> taskCb t \<noteq> None" using ok ts by (simp add: counts_ok_def)
    then show ?thesis
      by (intro counts_move[OF ok at, of p' "Took t"]) (use ts in \<open>auto simp: p' queuedCbs_def\<close>)
  qed
qed

lemma start_counts:
  assumes ok: "counts_ok p" and at: "stages p tid = Some (Took t)" and "startTask tid t p = Inr p'"
  shows "counts_ok p'"
proof (cases "taskFiber t")
  case (Some f)
  then have "p' = setStage tid (Executing f) (setFiberState f RUNNING p)"
    using assms(3) by (simp add: startTask_def resumeOn_eq)
  then show ?thesis
    by (intro counts_move[OF ok at, of p' "Executing f"]) (use Some in \<open>auto simp: queuedCbs_def callbackOf_def\<close>)
next
  case None
  then obtain cb where cb: "taskCb t = Some cb" using ok at unfolding counts_ok_def by blast
  then have p': "stages p' = (stages p)(tid \<mapsto> Executing (poolNext p))" "poolSched p' = poolSched p" "accepted p' = accepted p"
    "started p' = add_mset cb (started p)"
    using assms(3) None by (auto simp: startTask_def resumeOn_eq Let_def)
  then show ?thesis
    by (intro counts_move[OF ok at p'(1)]) (use None cb in \<open>auto simp: queuedCbs_def callbackOf_def\<close>)
qed

lemma putCallback_counts:
  assumes "counts_ok p" and "poolSched q = poolSched p" "stages q = stages p" "accepted q = accepted p" "started q = started p"
  shows "counts_ok (putCallback c q)"
  by (rule counts_put[of p _ "cbTask c"]) (use assms in \<open>simp_all add: putCallback_def callbackOf_def\<close>)

lemma counts_same:
  assumes "counts_ok p" and "tasks (poolSched p') = tasks (poolSched p)" "stages p' = stages p"
    "activeThreadCnt (poolSched p') = activeThreadCnt (poolSched p)" "accepted p' = accepted p" "started p' = started p"
  shows "counts_ok p'"
  using assms(1) unfolding counts_ok_def queuedCbs_def overThreads_same[OF assms(3)] assms(2-6) .

lemma overThreads_pos:
  assumes "finite (dom (stages p))" and "stages p tid = Some s"
  shows "(w s :: nat) \<le> overThreads w p"
proof -
  have "tid \<in> dom (stages p)" using assms(2) by blast
  from member_le_sum[OF this _ assms(1), of "\<lambda>t. w (the (stages p t))"] show ?thesis
    using assms(2) by (simp add: overThreads_def)
qed

lemma counts_loop:
  assumes ok: "counts_ok p" and "loopMove p p'"
  shows "counts_ok p'"
proof -
  from assms(2) obtain tid s0 s where m: "stages p tid = Some s0" "stages p' = (stages p)(tid \<mapsto> s)"
    "s0 \<in> {Returned, NothingToDo, Polling, Checked, Idling}" "s \<in> {AtTop, Exited, Polling, Checked, Idling}"
    "tasks (poolSched p') = tasks (poolSched p)" "accepted p' = accepted p" "started p' = started p"
    "activeThreadCnt (poolSched p') = activeThreadCnt (poolSched p) - busy s0" unfolding loopMove_def by blast
  have "busy s0 \<le> activeThreadCnt (poolSched p)"
    using ok overThreads_pos[OF _ m(1), of busy] by (simp add: counts_ok_def)
  then show ?thesis
    using m(3-8) by (intro counts_move[OF ok m(1,2)]) (auto simp: queuedCbs_def)
qed

lemma counts_step:
  assumes ok: "counts_ok p" and step: "poolStep early p p'"
  shows "counts_ok p'"
  using step
proof cases
  case (p_take tid)
  then show ?thesis using take_counts[OF ok] by blast
next
  case (p_start tid t)
  then show ?thesis using start_counts[OF ok] by blast
next
  case (p_wait tid f)
  then show ?thesis by (intro counts_move[OF ok p_wait(2), of p' "Parking f"]) (auto simp: wait_def queuedCbs_def)
next
  case (p_ready tid f)
  then show ?thesis by (intro counts_move[OF ok p_ready(2), of p' "Switching f"]) (auto simp: queuedCbs_def)
next
  case (p_switch tid f)
  then show ?thesis by (intro counts_move[OF ok p_switch(2), of p' Returned]) (auto simp: queuedCbs_def)
next
  case (p_finish tid f)
  then show ?thesis by (intro counts_move[OF ok p_finish(2), of p' Returned]) (auto simp: queuedCbs_def)
next
  case (p_wake tid f)
  then show ?thesis
    by (intro counts_put[OF ok, of p' "fiberTask (Some f)"]) (simp_all add: wake_def callbackOf_def)
next
  case (p_fire tid c)
  then show ?thesis by (simp add: fire_def putCallback_counts[OF ok])
next
  case (p_schedule tid f c)
  then show ?thesis by (simp add: putCallback_counts[OF ok])
next
  case (p_submit c)
  then show ?thesis by (simp add: putCallback_counts[OF ok])
qed (simp_all add: counts_same[OF ok] counts_loop[OF ok] loop_moves)

section \<open>Nothing is left behind\<close>

text \<open>Every fiber has ended, or somebody has it: a thread, the queue, or the event or timer it waits for.\<close>

definition placed :: "'c pool \<Rightarrow> bool" where
  "placed p \<longleftrightarrow> (\<forall>f. stateOf p f = None \<or> stateOf p f = Some TERMINATED \<or> onThread p f \<or> f \<in> set (queued p) \<or> f \<in> waiters p)"

lemma onThread_other:
  assumes "stages p tid = Some s0" and "stages p' = (stages p)(tid \<mapsto> s)"
    and "stageFiber s = Some g \<or> (onThread p g \<and> stageFiber s0 \<noteq> Some g)"
  shows "onThread p' g"
proof (cases "stageFiber s = Some g")
  case True
  then show ?thesis by (intro onThreadI[of p' tid s]) (simp_all add: assms(2))
next
  case False
  with assms(3) obtain t u where u: "stages p t = Some u" "stageFiber u = Some g" "stageFiber s0 \<noteq> Some g"
    by (auto simp: onThread_def)
  then have "t \<noteq> tid" using assms(1) by auto
  then show ?thesis using u by (intro onThreadI[of p' t u]) (simp_all add: assms(2))
qed

lemma placed_move:
  assumes "placed p" and at: "stages p tid = Some s0" and new: "stages p' = (stages p)(tid \<mapsto> s)"
    and "\<And>g. stageFiber s0 = Some g \<Longrightarrow> stageFiber s = Some g \<or> stateOf p' g = Some TERMINATED \<or> g \<in> waiters p'"
    and "\<And>g. g \<in> set (queued p) \<Longrightarrow> g \<in> set (queued p') \<or> stageFiber s = Some g" and "waiters p \<subseteq> waiters p'"
    and "\<And>g. stageFiber s \<noteq> Some g \<Longrightarrow> stageFiber s0 \<noteq> Some g \<Longrightarrow> stateOf p' g = stateOf p g"
  shows "placed p'"
  unfolding placed_def
proof
  fix g
  show "stateOf p' g = None \<or> stateOf p' g = Some TERMINATED \<or> onThread p' g \<or> g \<in> set (queued p') \<or> g \<in> waiters p'"
  proof (cases "stageFiber s = Some g \<or> stageFiber s0 = Some g")
    case True
    then show ?thesis using assms(4)[of g] onThread_other[OF at new, of g] by blast
  next
    case False
    then have "stateOf p' g = stateOf p g" using assms(7) by blast
    moreover have "stateOf p g = None \<or> stateOf p g = Some TERMINATED \<or> onThread p g \<or> g \<in> set (queued p) \<or> g \<in> waiters p"
      using assms(1) by (simp add: placed_def)
    ultimately show ?thesis using False assms(5)[of g] assms(6) onThread_other[OF at new, of g] by auto
  qed
qed

lemma placed_put:
  assumes "placed p" and "tasks (poolSched p') = tasks (poolSched p) @ ts" and "stages p' = stages p"
    and "poolFibers p' = poolFibers p" and "\<And>g. g \<in> waiters p \<Longrightarrow> g \<in> waiters p' \<or> g \<in> set (queued p')"
  shows "placed p'"
proof -
  have "set (queued p) \<subseteq> set (queued p')" by (auto simp: queued_def assms(2))
  moreover have "onThread p' = onThread p" by (simp add: onThread_def fun_eq_iff assms(3))
  ultimately show ?thesis using assms(1,5) unfolding placed_def stateOf_cong[OF assms(4)] by (metis subsetD)
qed

lemma take_placed:
  assumes "placed p" and at: "stages p tid = Some AtTop" and "takeTask tid p = Inr p'" and "pool_ok p"
  shows "placed p'"
proof -
  have u: "\<forall>t\<in>set (tasks (poolSched p)). taskThread t = -1" using pool_okD(1)[OF assms(4)] by blast
  from take_cases[OF assms(3) u] show ?thesis
  proof (elim disjE conjE exE)
    assume "p' = setStage tid NothingToDo p"
    then show ?thesis by (intro placed_move[OF assms(1) at, of p' NothingToDo]) (auto simp: queued_def)
  next
    fix t ts assume ts: "tasks (poolSched p) = t # ts"
      and p': "p' = setStage tid (Took t) (p\<lparr>poolSched := (poolSched p)\<lparr>tasks := ts, activeThreadCnt := Suc (activeThreadCnt (poolSched p))\<rparr>\<rparr>)"
    have "stateOf p' = stateOf p" by (rule stateOf_cong) (simp add: p')
    then show ?thesis
      by (intro placed_move[OF assms(1) at, of p' "Took t"])
        (use ts in \<open>auto simp: p' queued_def split: option.splits\<close>)
  qed
qed

lemma start_placed:
  assumes "placed p" and at: "stages p tid = Some (Took t)" and st: "startTask tid t p = Inr p'" and "pool_ok p"
  shows "placed p'"
proof -
  have "\<exists>f. stages p' = (stages p)(tid \<mapsto> Executing f) \<and> (taskFiber t = None \<or> taskFiber t = Some f) \<and> poolSched p' = poolSched p \<and>
      waiters p' = waiters p \<and> (\<forall>g. g \<noteq> f \<longrightarrow> stateOf p' g = stateOf p g)"
  proof (cases "taskFiber t")
    case (Some f)
    then show ?thesis using st by (intro exI[of _ f]) (simp add: startTask_def resumeOn_eq)
  next
    case None
    then show ?thesis using st
      by (intro exI[of _ "poolNext p"]) (auto simp: startTask_def andThen_eq_Inr resumeOn_eq Let_def stateOf_def setFiberState_def)
  qed
  then obtain f where f: "stages p' = (stages p)(tid \<mapsto> Executing f)" "taskFiber t = None \<or> taskFiber t = Some f"
    "poolSched p' = poolSched p" "waiters p' = waiters p" "\<forall>g. g \<noteq> f \<longrightarrow> stateOf p' g = stateOf p g" by blast
  show ?thesis by (rule placed_move[OF assms(1) at f(1)]) (use f in \<open>auto simp: queued_def\<close>)
qed

lemma placed_loop:
  assumes "placed p" and "loopMove p p'"
  shows "placed p'"
proof -
  from assms(2) obtain tid s0 s where m: "stages p tid = Some s0" "stages p' = (stages p)(tid \<mapsto> s)"
    "s0 \<in> {Returned, NothingToDo, Polling, Checked, Idling}" "s \<in> {AtTop, Exited, Polling, Checked, Idling}"
    "tasks (poolSched p') = tasks (poolSched p)" "poolFibers p' = poolFibers p" "waiters p' = waiters p"
    unfolding loopMove_def by blast
  have "queued p' = queued p" "stageFiber s0 = None" "stageFiber s = None" using m(3-5) by (auto simp: queued_def)
  then show ?thesis
    by (intro placed_move[OF assms(1) m(1,2)]) (simp_all add: m(7) stateOf_cong[OF m(6)])
qed

lemma placed_step:
  assumes ok: "placed p" "pool_ok p" and step: "poolStep early p p'"
  shows "placed p'"
  using step
proof cases
  case (p_take tid)
  then show ?thesis using take_placed[OF ok(1) _ _ ok(2)] by blast
next
  case (p_start tid t)
  then show ?thesis using start_placed[OF ok(1) _ _ ok(2)] by blast
next
  case (p_wait tid f)
  then show ?thesis
    by (intro placed_move[OF ok(1) p_wait(2), of p' "Parking f"]) (auto simp: wait_def queued_def stateOf_def)
next
  case (p_ready tid f)
  then show ?thesis by (intro placed_move[OF ok(1) p_ready(2), of p' "Switching f"]) (auto simp: queued_def)
next
  case (p_switch tid f)
  then show ?thesis
    by (intro placed_move[OF ok(1) p_switch(2), of p' Returned])
      (use pool_okD(4)[OF ok(2) p_switch(2)] in \<open>auto simp: queued_def\<close>)
next
  case (p_finish tid f)
  then show ?thesis
    by (intro placed_move[OF ok(1) p_finish(2), of p' Returned])
      (use pool_okD(4)[OF ok(2) p_finish(2)] in \<open>auto simp: queued_def\<close>)
next
  case (p_wake tid f)
  then show ?thesis
    by (intro placed_put[OF ok(1), of p' "[fiberTask (Some f)]"]) (auto simp: wake_def queued_def)
next
  case (p_fire tid c)
  then show ?thesis
    by (intro placed_put[OF ok(1), of p' "[cbTask c]"]) (auto simp: fire_def putCallback_def)
next
  case (p_schedule tid f c)
  then show ?thesis by (intro placed_put[OF ok(1), of p' "[cbTask c]"]) (auto simp: putCallback_def)
next
  case (p_submit c)
  then show ?thesis by (intro placed_put[OF ok(1), of p' "[cbTask c]"]) (auto simp: putCallback_def)
qed (simp_all add: placed_loop[OF ok(1)] loop_moves placed_put[OF ok(1), of _ "[]"])

end
