(* ===== verification/ThreadPoolTheorems.thy ===== *)
theory ThreadPoolTheorems
  imports ThreadPoolCounts
begin

text \<open>
  What several threads in one scheduler do together: every callback is started once, a stopped pool has emptied
  its queue, and what goes wrong when an event comes while its fiber is still on the way out of its thread.
\<close>

section \<open>The end of a pool\<close>

text \<open>A thread is live when it searches the queue before it leaves the loop.\<close>

definition live :: "'c pool \<Rightarrow> int \<Rightarrow> bool" where
  "live p tid \<longleftrightarrow> (\<exists>s. stages p tid = Some s \<and> s \<noteq> Exited \<and> (s = NothingToDo \<longrightarrow> tid \<notin> idleEnded p))"

definition drain_ok :: "'c pool \<Rightarrow> bool" where
  "drain_ok p \<longleftrightarrow> dom (stages p) \<noteq> {} \<and>
     (\<forall>t\<in>set (tasks (poolSched p)). taskThread t = -1) \<and>
     (idleEnded p \<noteq> {} \<longrightarrow> isStopped (poolSched p)) \<and>
     (\<forall>tid. stages p tid = Some Exited \<longrightarrow> tid \<in> idleEnded p) \<and>
     (\<forall>tid\<in>idleEnded p. stages p tid \<notin> {Some Polling, Some Checked, Some Idling}) \<and>
     (tasks (poolSched p) \<noteq> [] \<longrightarrow> (\<exists>tid. live p tid))"

lemma drain_okD:
  assumes "drain_ok p"
  shows "dom (stages p) \<noteq> {}" "\<forall>t\<in>set (tasks (poolSched p)). taskThread t = -1"
    "idleEnded p \<noteq> {} \<Longrightarrow> isStopped (poolSched p)" "stages p tid = Some Exited \<Longrightarrow> tid \<in> idleEnded p"
    "tid \<in> idleEnded p \<Longrightarrow> stages p tid \<notin> {Some Polling, Some Checked, Some Idling}"
    "tasks (poolSched p) \<noteq> [] \<Longrightarrow> \<exists>tid. live p tid"
  using assms unfolding drain_ok_def by blast+

text \<open>A thread moves; it stays live, or was not live, or the queue is empty.\<close>

lemma drain_move:
  assumes ok: "drain_ok p" and at: "stages p tid = Some s0" and new: "stages p' = (stages p)(tid \<mapsto> s)"
    and "idleEnded p' = idleEnded p" "isStopped (poolSched p') = isStopped (poolSched p)"
    and "set (tasks (poolSched p')) \<subseteq> set (tasks (poolSched p))"
    and "s = Exited \<Longrightarrow> tid \<in> idleEnded p" "s \<in> {Polling, Checked, Idling} \<Longrightarrow> tid \<notin> idleEnded p"
    and "live p' tid \<or> \<not> live p tid \<or> tasks (poolSched p') = []"
  shows "drain_ok p'"
proof -
  note D = drain_okD[OF ok]
  have others: "live p' t \<longleftrightarrow> live p t" if "t \<noteq> tid" for t using that by (simp add: live_def new assms(4))
  have "\<exists>t. live p' t" if ne: "tasks (poolSched p') \<noteq> []"
  proof -
    have "tasks (poolSched p) \<noteq> []" using ne assms(6) by (cases "tasks (poolSched p)") auto
    then obtain t where t: "live p t" using D(6) by blast
    show ?thesis
    proof (cases "t = tid")
      case True
      then show ?thesis using t assms(9) ne by blast
    next
      case False
      then show ?thesis using t others[of t] by blast
    qed
  qed
  then show ?thesis
    using D(2-5) assms(4-8) new unfolding drain_ok_def by auto
qed

lemma drain_put:
  assumes ok: "drain_ok p" and "tasks (poolSched p') = tasks (poolSched p) @ [t]" "taskThread t = -1" and "stages p' = stages p"
    and "idleEnded p' = idleEnded p" "isStopped (poolSched p') = isStopped (poolSched p)" and "\<exists>tid. live p tid"
  shows "drain_ok p'"
  using ok assms(2-7) unfolding drain_ok_def live_def by auto

lemma busy_live: "canWake tid p \<or> stages p tid = Some (Executing f) \<Longrightarrow> live p tid"
  by (auto simp: live_def canWake_def)

lemma open_live:
  assumes "drain_ok p" and "\<not> isStopped (poolSched p)"
  shows "\<exists>tid. live p tid"
proof -
  note D = drain_okD[OF assms(1)]
  obtain tid s where "stages p tid = Some s" using D(1) by (auto simp: dom_def)
  moreover have "idleEnded p = {}" using D(3) assms(2) by blast
  ultimately show ?thesis using D(4)[of tid] by (auto simp: live_def)
qed

lemma take_drain:
  assumes ok: "drain_ok p" and at: "stages p tid = Some AtTop" and "takeTask tid p = Inr p'"
  shows "drain_ok p'"
proof -
  from take_cases[OF assms(3) drain_okD(2)[OF ok]] show ?thesis
  proof (elim disjE conjE exE)
    assume "tasks (poolSched p) = []" "p' = setStage tid NothingToDo p"
    then show ?thesis by (intro drain_move[OF ok at, of p' NothingToDo]) auto
  next
    fix t ts assume "tasks (poolSched p) = t # ts"
      "p' = setStage tid (Took t) (p\<lparr>poolSched := (poolSched p)\<lparr>tasks := ts, activeThreadCnt := Suc (activeThreadCnt (poolSched p))\<rparr>\<rparr>)"
    then show ?thesis by (intro drain_move[OF ok at, of p' "Took t"]) (auto simp: live_def)
  qed
qed

lemma startTask_fields:
  assumes "startTask tid t p = Inr p'"
  shows "\<exists>f. stages p' = (stages p)(tid \<mapsto> Executing f)" "poolSched p' = poolSched p" "idleEnded p' = idleEnded p"
    "waiters p' = waiters p" "armed p' = armed p"
  using assms by (auto simp: startTask_def resumeOn_eq andThen_eq_Inr Let_def split: option.splits)

lemma stop_drain:
  assumes ok: "drain_ok p" and at: "stages p tid = Some Checked"
  shows "drain_ok (checkStopping tid p)"
proof (cases "schedulerStopping (poolSched p)")
  case True
  then have "tasks (poolSched p) = []" "isStopped (poolSched p)" by (simp_all add: schedulerStopping_def)
  then show ?thesis
    using drain_okD(4,5)[OF ok] True unfolding drain_ok_def by (auto simp: checkStopping_def leaveIdle_def)
next
  case False
  then show ?thesis
    by (intro drain_move[OF ok at, of _ Idling])
      (use drain_okD(5)[OF ok, of tid] at in \<open>auto simp: checkStopping_def live_def\<close>)
qed

lemma drain_step:
  assumes ok: "drain_ok p" and step: "poolStep early p p'"
  shows "drain_ok p'"
  using step
proof cases
  case (p_take tid)
  then show ?thesis using take_drain[OF ok] by blast
next
  case (p_start tid t)
  then obtain f where "stages p' = (stages p)(tid \<mapsto> Executing f)" using startTask_fields(1) by blast
  then show ?thesis
    by (intro drain_move[OF ok p_start(1), of p' "Executing f"]) (use startTask_fields(2,3)[OF p_start(2)] in \<open>auto simp: live_def\<close>)
next
  case (p_wait tid f)
  then show ?thesis by (intro drain_move[OF ok p_wait(2), of p' "Parking f"]) (auto simp: wait_def live_def)
next
  case (p_ready tid f)
  then show ?thesis by (intro drain_move[OF ok p_ready(2), of p' "Switching f"]) (auto simp: live_def)
next
  case (p_switch tid f)
  then show ?thesis by (intro drain_move[OF ok p_switch(2), of p' Returned]) (auto simp: live_def)
next
  case (p_finish tid f)
  then show ?thesis by (intro drain_move[OF ok p_finish(2), of p' Returned]) (auto simp: live_def)
next
  case (p_leave tid)
  then show ?thesis by (intro drain_move[OF ok p_leave(2), of p' AtTop]) (auto simp: leaveTask_def live_def)
next
  case (p_idle tid)
  then show ?thesis
    by (intro drain_move[OF ok p_idle(2), of p' "if tid \<in> idleEnded p then Exited else Polling"])
      (auto simp: enterIdle_def live_def split: if_splits)
next
  case (p_pending tid)
  then show ?thesis
    by (intro drain_move[OF ok p_pending(2), of p' "if nonePending p then Checked else Idling"])
      (use drain_okD(5)[OF ok, of tid] in \<open>auto simp: checkPending_def live_def split: if_splits\<close>)
next
  case (p_stopping tid)
  then show ?thesis using stop_drain[OF ok] by blast
next
  case (p_unidle tid)
  then show ?thesis by (intro drain_move[OF ok p_unidle(2), of p' AtTop]) (auto simp: leaveIdle_def live_def)
next
  case (p_wake tid f)
  then show ?thesis
    by (intro drain_put[OF ok, of p' "fiberTask (Some f)"]) (auto simp: wake_def intro: busy_live)
next
  case (p_fire tid c)
  then show ?thesis
    by (intro drain_put[OF ok, of p' "cbTask c"]) (auto simp: fire_def putCallback_def intro: busy_live)
next
  case (p_schedule tid f c)
  then show ?thesis by (intro drain_put[OF ok, of p' "cbTask c"]) (auto simp: putCallback_def intro: busy_live)
next
  case (p_submit c)
  then show ?thesis
    using open_live[OF ok] by (intro drain_put[OF ok, of p' "cbTask c"]) (auto simp: putCallback_def)
qed (use ok in \<open>auto simp: drain_ok_def live_def\<close>)

text \<open>A pool of one thread: once its idle fiber ended, nothing waits and nothing comes any more.\<close>

definition lone_ok :: "int \<Rightarrow> 'c pool \<Rightarrow> bool" where
  "lone_ok t0 p \<longleftrightarrow> dom (stages p) \<subseteq> {t0} \<and> (stages p t0 = Some Checked \<longrightarrow> nonePending p) \<and>
     (t0 \<in> idleEnded p \<longrightarrow> nonePending p \<and> tasks (poolSched p) = [] \<and> isStopped (poolSched p) \<and>
        stages p t0 \<in> {Some AtTop, Some NothingToDo, Some Exited})"

lemma lone_move:
  assumes "lone_ok t0 p" and "stages p tid = Some s0" and "stages p' = (stages p)(tid \<mapsto> s)"
    and "t0 \<in> idleEnded p' \<Longrightarrow> nonePending p' \<and> tasks (poolSched p') = [] \<and> isStopped (poolSched p') \<and>
      s \<in> {AtTop, NothingToDo, Exited}" and "s = Checked \<Longrightarrow> nonePending p'"
  shows "lone_ok t0 p'"
  using assms unfolding lone_ok_def by (auto simp: dom_def split: if_splits)

lemma lone_tid: "lone_ok t0 p \<Longrightarrow> stages p tid = Some s \<Longrightarrow> tid = t0"
  by (auto simp: lone_ok_def)

lemma lone_open:
  assumes "lone_ok t0 p" and "canWake tid p \<or> stages p tid = Some (Executing f) \<or> \<not> isStopped (poolSched p)"
  shows "t0 \<notin> idleEnded p" "stages p t0 \<noteq> Some Checked \<or> \<not> isStopped (poolSched p)"
  using assms lone_tid[OF assms(1), of tid] unfolding lone_ok_def canWake_def by auto

lemma lone_take:
  assumes ok: "lone_ok t0 p" and at: "stages p tid = Some AtTop" and "takeTask tid p = Inr p'"
    and "\<forall>t\<in>set (tasks (poolSched p)). taskThread t = -1"
  shows "lone_ok t0 p'"
  using take_cases[OF assms(3,4)]
proof (elim disjE conjE exE)
  assume "p' = setStage tid NothingToDo p"
  then show ?thesis
    using ok by (intro lone_move[OF ok at, of p' NothingToDo]) (auto simp: lone_ok_def nonePending_def)
next
  fix t ts assume "tasks (poolSched p) = t # ts"
    "p' = setStage tid (Took t) (p\<lparr>poolSched := (poolSched p)\<lparr>tasks := ts, activeThreadCnt := Suc (activeThreadCnt (poolSched p))\<rparr>\<rparr>)"
  then show ?thesis using ok by (intro lone_move[OF ok at, of p' "Took t"]) (auto simp: lone_ok_def)
qed

lemma lone_step:
  assumes ok: "lone_ok t0 p" and un: "\<forall>t\<in>set (tasks (poolSched p)). taskThread t = -1" and step: "poolStep early p p'"
  shows "lone_ok t0 p'"
  using step
proof cases
  case (p_take tid)
  then show ?thesis using lone_take[OF ok _ _ un] by blast
next
  case (p_start tid t)
  then obtain f where "stages p' = (stages p)(tid \<mapsto> Executing f)" using startTask_fields(1) by blast
  then show ?thesis
    by (intro lone_move[OF ok p_start(1), of p' "Executing f"])
      (use startTask_fields(3)[OF p_start(2)] ok p_start(1) lone_tid[OF ok p_start(1)] in \<open>auto simp: lone_ok_def\<close>)
next
  case (p_wait tid f)
  then show ?thesis
    by (intro lone_move[OF ok p_wait(2), of p' "Parking f"])
      (use ok lone_tid[OF ok p_wait(2)] in \<open>auto simp: wait_def lone_ok_def\<close>)
next
  case (p_ready tid f)
  then show ?thesis
    by (intro lone_move[OF ok p_ready(2), of p' "Switching f"]) (use ok lone_tid[OF ok p_ready(2)] in \<open>auto simp: lone_ok_def\<close>)
next
  case (p_switch tid f)
  then show ?thesis
    by (intro lone_move[OF ok p_switch(2), of p' Returned]) (use ok lone_tid[OF ok p_switch(2)] in \<open>auto simp: lone_ok_def\<close>)
next
  case (p_finish tid f)
  then show ?thesis
    by (intro lone_move[OF ok p_finish(2), of p' Returned]) (use ok lone_tid[OF ok p_finish(2)] in \<open>auto simp: lone_ok_def\<close>)
next
  case (p_leave tid)
  then show ?thesis
    by (intro lone_move[OF ok p_leave(2), of p' AtTop])
      (use ok lone_tid[OF ok p_leave(2)] in \<open>auto simp: leaveTask_def lone_ok_def\<close>)
next
  case (p_idle tid)
  then show ?thesis
    by (intro lone_move[OF ok p_idle(2), of p' "if tid \<in> idleEnded p then Exited else Polling"])
      (use ok lone_tid[OF ok p_idle(2)] in \<open>auto simp: enterIdle_def lone_ok_def nonePending_def split: if_splits\<close>)
next
  case (p_pending tid)
  then show ?thesis
    by (intro lone_move[OF ok p_pending(2), of p' "if nonePending p then Checked else Idling"])
      (use ok lone_tid[OF ok p_pending(2)] in \<open>auto simp: checkPending_def lone_ok_def nonePending_def split: if_splits\<close>)
next
  case (p_stopping tid)
  then show ?thesis
    by (intro lone_move[OF ok p_stopping(2), of p' "if schedulerStopping (poolSched p) then AtTop else Idling"])
      (use ok lone_tid[OF ok p_stopping(2)] in
        \<open>auto simp: checkStopping_def leaveIdle_def lone_ok_def nonePending_def schedulerStopping_def split: if_splits\<close>)
next
  case (p_unidle tid)
  then show ?thesis
    by (intro lone_move[OF ok p_unidle(2), of p' AtTop])
      (use ok lone_tid[OF ok p_unidle(2)] in \<open>auto simp: leaveIdle_def lone_ok_def\<close>)
next
  case (p_wake tid f)
  then show ?thesis using ok lone_open(1)[OF ok, of tid] by (auto simp: wake_def lone_ok_def nonePending_def)
next
  case (p_fire tid c)
  then show ?thesis using ok lone_open(1)[OF ok, of tid] by (auto simp: fire_def putCallback_def lone_ok_def nonePending_def)
next
  case (p_arm tid f c)
  then show ?thesis
    using ok lone_open(1)[OF ok, of tid f] lone_tid[OF ok p_arm(2)] by (auto simp: lone_ok_def nonePending_def)
next
  case (p_disarm tid f c)
  then show ?thesis
    using ok lone_open(1)[OF ok, of tid f] lone_tid[OF ok p_disarm(2)] by (auto simp: lone_ok_def nonePending_def)
next
  case (p_schedule tid f c)
  then show ?thesis
    using ok lone_open(1)[OF ok, of tid f] by (auto simp: putCallback_def lone_ok_def nonePending_def)
next
  case (p_submit c)
  then show ?thesis
    using ok lone_open(1)[OF ok] by (auto simp: putCallback_def lone_ok_def nonePending_def)
next
  case p_stop
  then show ?thesis using ok by (auto simp: lone_ok_def nonePending_def)
qed

section \<open>All invariants together\<close>

definition pool_inv :: "int list \<Rightarrow> bool \<Rightarrow> 'c pool \<Rightarrow> bool" where
  "pool_inv tids early p \<longleftrightarrow> dom (stages p) = set tids \<and> counts_ok p \<and> drain_ok p \<and>
     ((early \<longrightarrow> length tids = 1) \<longrightarrow> pool_ok p \<and> placed p) \<and> (length tids = 1 \<longrightarrow> lone_ok (hd tids) p)"

lemma stages_dom:
  assumes "poolStep early p p'" and "counts_ok p"
  shows "dom (stages p') = dom (stages p)"
  using assms(1)
proof cases
  case (p_take tid)
  have "\<forall>t\<in>set (tasks (poolSched p)). taskThread t = -1" using assms(2) by (simp add: counts_ok_def)
  from take_cases[OF p_take(2) this] p_take(1) show ?thesis by (auto split: if_splits)
next
  case (p_start tid t)
  then show ?thesis using startTask_fields(1)[OF p_start(2)] by (auto split: if_splits)
qed (auto simp: wait_def leaveTask_def enterIdle_def checkPending_def checkStopping_def leaveIdle_def wake_def fire_def
    putCallback_def split: if_splits)

lemma pool_inv_init:
  assumes "poolInit tids p"
  shows "pool_inv tids early p"
proof -
  from assms obtain s useCaller caller where s: "newScheduler (length tids) useCaller caller = Inr s" "p = newPool tids s"
    by (auto simp: poolInit_def)
  then have f: "tids \<noteq> []" "tasks s = []" "activeThreadCnt s = 0" "\<not> isStopped s"
    by (auto simp: newScheduler_def andThen_eq_Inr)
  have dom: "dom (stages p) = set tids" by (auto simp: s(2) newPool_def split: if_splits)
  have at: "stages p tid = Some u \<Longrightarrow> u = AtTop" for tid u by (auto simp: s(2) newPool_def split: if_splits)
  have zero: "overThreads w p = 0" if "w AtTop = 0" for w :: "'a stage \<Rightarrow> 'm::comm_monoid_add"
    unfolding overThreads_def by (rule sum.neutral) (use at that in \<open>force simp: dom_def\<close>)
  show ?thesis
    using f dom at zero[of busy] zero[of takenCb]
    by (auto simp: pool_inv_def counts_ok_def drain_ok_def pool_ok_def placed_def lone_ok_def queuedCbs_def queued_def
        onThread_def stateOf_def s(2) newPool_def live_def length_Suc_conv neq_Nil_conv split: if_splits)
qed

lemma pool_inv_step:
  assumes inv: "pool_inv tids early p" and step: "poolStep early p p'"
  shows "pool_inv tids early p'"
proof -
  have i: "dom (stages p) = set tids" "counts_ok p" "drain_ok p" using inv by (simp_all add: pool_inv_def)
  have u: "\<forall>t\<in>set (tasks (poolSched p)). taskThread t = -1" using i(2) by (simp add: counts_ok_def)
  have "pool_ok p' \<and> placed p'" if d: "early \<longrightarrow> length tids = 1"
  proof -
    have ok: "pool_ok p" "placed p" using inv d by (simp_all add: pool_inv_def)
    have "dom (stages p) \<subseteq> {hd tids}" if early using that d i(1) by (cases tids) auto
    then show ?thesis using pool_step_ok[OF ok(1) _ step] placed_step[OF ok(2,1) step] by blast
  qed
  moreover have "lone_ok (hd tids) p'" if "length tids = 1"
    using lone_step[OF _ u step] inv that by (simp add: pool_inv_def)
  ultimately show ?thesis
    using stages_dom[OF step i(2)] i(1) counts_step[OF i(2) step] drain_step[OF i(3) step] by (simp add: pool_inv_def)
qed

interpretation threads: invariant_of "poolInit tids" "poolStep early" "pool_inv tids early" for tids early
  by unfold_locales (auto intro: pool_inv_init pool_inv_step)

section \<open>Evaluated runs\<close>

text \<open>The steps as a function, for runs on concrete pools.\<close>

datatype 'c move = Go int | Wait int | Finish int | Wake int nat | Submit 'c | Stop

fun goOn :: "int \<Rightarrow> 'c stage \<Rightarrow> 'c pool \<Rightarrow> 'c pool res" where
  "goOn tid AtTop p = takeTask tid p"
| "goOn tid (Took t) p = startTask tid t p"
| "goOn tid (Parking f) p = Inr (setStage tid (Switching f) (setFiberState f READY p))"
| "goOn tid (Switching f) p = Inr (setStage tid Returned p)"
| "goOn tid Returned p = Inr (leaveTask tid p)"
| "goOn tid NothingToDo p = Inr (enterIdle tid p)"
| "goOn tid Polling p = Inr (checkPending tid p)"
| "goOn tid Checked p = Inr (checkStopping tid p)"
| "goOn tid Idling p = Inr (leaveIdle tid p)"
| "goOn tid _ p = Inl NoReturn"

fun playMove :: "bool \<Rightarrow> int list \<Rightarrow> 'c move \<Rightarrow> 'c pool \<Rightarrow> 'c pool res" where
  "playMove early tids (Go tid) p = andThen (derefOpt (stages p tid)) (\<lambda>s. goOn tid s p)"
| "playMove early tids (Wait tid) p = (case stages p tid of Some (Executing f) \<Rightarrow> Inr (wait tid f p) | _ \<Rightarrow> Inl NoReturn)"
| "playMove early tids (Finish tid) p =
     (case stages p tid of Some (Executing f) \<Rightarrow> Inr (setStage tid Returned (endFiber f p)) | _ \<Rightarrow> Inl NoReturn)"
| "playMove early tids (Wake tid f) p =
     (if (case stages p tid of Some Idling \<Rightarrow> True | Some (Executing g) \<Rightarrow> True | _ \<Rightarrow> False) \<and> f \<in> waiters p \<and>
         (early \<or> (\<forall>t\<in>set tids. stages p t \<noteq> Some (Parking f) \<and> stages p t \<noteq> Some (Switching f)))
      then Inr (wake f p) else Inl NoReturn)"
| "playMove early tids (Submit c) p = (if isStopped (poolSched p) then Inl NoReturn else Inr (putCallback c p))"
| "playMove early tids Stop p = Inr (p\<lparr>poolSched := (poolSched p)\<lparr>isStopped := True\<rparr>\<rparr>)"

lemma goOn_step: "stages p tid = Some s \<Longrightarrow> goOn tid s p = Inr p' \<Longrightarrow> poolStep early p p'"
  by (cases s) (auto intro: poolStep.intros)

lemma playMove_step:
  assumes "playMove early tids mv p = Inr p'" and "dom (stages p) \<subseteq> set tids"
  shows "poolStep early p p'"
proof (cases mv)
  case (Wake tid f)
  then have "canWake tid p" "f \<in> waiters p" "p' = wake f p"
    "early \<or> (\<forall>t\<in>set tids. stages p t \<noteq> Some (Parking f) \<and> stages p t \<noteq> Some (Switching f))"
    using assms(1) by (auto simp: canWake_def split: if_splits option.splits stage.splits)
  moreover have "Some s \<notin> range (stages p)" if "\<forall>t\<in>set tids. stages p t \<noteq> Some s" for s
  proof
    assume "Some s \<in> range (stages p)"
    then obtain t where "stages p t = Some s" by (metis rangeE)
    then show False using that assms(2) by auto
  qed
  then have "early \<or> parked f p" using calculation(4) unfolding parked_def by blast
  ultimately show ?thesis by (auto intro: p_wake)
qed (use assms(1) in \<open>auto simp: andThen_eq_Inr derefOpt_eq_Inr intro: goOn_step poolStep.intros split: if_splits option.splits stage.splits\<close>)

lemma play_reach:
  assumes "foldR (playMove early tids) ms p = Inr p'" and "reach (poolInit tids) (poolStep early) p"
  shows "reach (poolInit tids) (poolStep early) p'"
  using assms
proof (induction ms arbitrary: p)
  case (Cons mv ms)
  then obtain q where q: "playMove early tids mv p = Inr q" "foldR (playMove early tids) ms q = Inr p'"
    by (auto simp: andThen_eq_Inr)
  have "dom (stages p) = set tids" using threads.reach_inv[OF Cons.prems(2)] by (simp add: pool_inv_def)
  then have "poolStep early p q" using playMove_step[OF q(1)] by blast
  then show ?case using Cons.IH[OF q(2)] Cons.prems(2) by (blast intro: reach_step)
qed simp

definition samplePool :: "int list \<Rightarrow> string pool" where
  "samplePool tids = newPool tids \<lparr>tasks = [], threadPool = [], threadIds = [], isStopped = False, threadCnt = length tids,
     activeThreadCnt = 0, idleThreadCnt = 0, isUserCaller = False, rootThreadId = -1\<rparr>"

lemma samplePool_reach: "tids \<noteq> [] \<Longrightarrow> reach (poolInit tids) (poolStep early) (samplePool tids)"
  by (rule reach_init)
    (auto simp: poolInit_def samplePool_def newScheduler_def intro!: exI[of _ False] exI[of _ 0])

lemmas play_simps = samplePool_def newPool_def putCallback_def putTask_def schedule_def takeTask_def cbTask_def fiberTask_def
  setStage_def startTask_def resumeOn_def setFiberState_def endFiber_def wait_def enterIdle_def checkPending_def nonePending_def
  leaveIdle_def leaveTask_def checkStopping_def schedulerStopping_def wake_def Let_def

text \<open>An event that comes before its fiber left thread 1: before the assignment to \<^verbatim>\<open>state_\<close>, and behind it.\<close>

definition earlyRun :: "string move list" where
  "earlyRun = [Submit ''c'', Go 1, Go 1, Wait 1, Go 2, Go 2, Go 2, Wake 2 0, Go 2]"

lemma earlyRun_ends:
  "\<exists>p q. foldR (playMove True [1,2]) earlyRun (samplePool [1,2]) = Inr p \<and> stages p 2 = Some AtTop \<and>
     stages p 1 = Some (Parking 0) \<and> takeTask 2 p = Inl AssertFail \<and>
     foldR (playMove True [1,2]) [Go 1, Go 2, Go 2] p = Inr q \<and> stages q 1 = Some (Switching 0) \<and> stages q 2 = Some (Executing 0)"
  by (simp add: earlyRun_def play_simps del: setStage_fields setFiberState_fields endFiber_fields putTask_fields cong: if_cong)

text \<open>Thread 2 finds no pending event while a fiber executes on thread 1, and looks at the scheduler when that fiber
  waits; then the threads change their parts.\<close>

definition lostRun :: "string move list" where
  "lostRun = [Submit ''c'', Go 1, Go 1, Go 2, Go 2, Go 2, Stop, Wait 1, Go 1, Go 1, Go 1, Go 2,
     Go 1, Go 1, Go 1, Wake 1 0, Go 2, Go 2, Go 1, Go 1, Go 1, Go 1, Wait 2, Go 2, Go 2, Go 2, Go 1,
     Go 1, Go 1, Go 2, Go 2]"

lemma lostRun_ends:
  "\<exists>p. foldR (playMove False [1,2]) lostRun (samplePool [1,2]) = Inr p \<and> stages p 1 = Some Exited \<and>
     stages p 2 = Some Exited \<and> waiters p = {0}"
  by (simp add: lostRun_def play_simps del: setStage_fields setFiberState_fields endFiber_fields putTask_fields)

definition fullRun :: "string move list" where
  "fullRun = [Submit ''c'', Submit ''d'', Go 1, Go 1, Wait 1, Go 1, Go 1, Go 1, Go 1, Go 1, Finish 1, Go 1, Stop,
     Go 1, Go 1, Go 1, Wake 1 0, Go 1, Go 1, Go 1, Finish 1, Go 1, Go 1, Go 1, Go 1, Go 1, Go 1, Go 1]"

lemma fullRun_ends:
  "\<exists>p. foldR (playMove True [1]) fullRun (samplePool [1]) = Inr p \<and> stages p 1 = Some Exited \<and>
     started p = {#''c'', ''d''#}"
  by (simp add: fullRun_def play_simps del: setStage_fields setFiberState_fields endFiber_fields putTask_fields)

section \<open>Properties\<close>

lemma take_returns:
  assumes "pool_ok p"
  shows "returns (takeTask tid p)"
proof (cases "tasks (poolSched p)")
  case (Cons t ts)
  note D = pool_okD[OF assms]
  have "taskThread t = -1" "taskFiber t \<noteq> None \<or> taskCb t \<noteq> None" using D(1)[of t] Cons by auto
  moreover have "\<exists>b. poolFibers p f = Some b \<and> fstate b = READY" if "taskFiber t = Some f" for f
    using D(3)[of f] that stateOf_Some[of p f READY] by (auto simp: queued_def Cons)
  ultimately show ?thesis
    using Cons by (cases "taskFiber t") (auto simp: takeTask_def)
qed (simp add: takeTask_def)

lemma start_returns:
  assumes "pool_ok p" and "stages p tid = Some (Took t)"
  shows "returns (startTask tid t p)"
proof (cases "taskFiber t")
  case (Some f)
  then show ?thesis using pool_okD(4)[OF assms] by (simp add: startTask_def returns_iff resumeOn_eq)
next
  case None
  then obtain c where "taskCb t = Some c" using pool_okD(4)[OF assms] by auto
  then show ?thesis using None by (simp add: startTask_def returns_iff resumeOn_eq Let_def stateOf_def)
qed

text \<open>C9: Threads that share a scheduler: in every reachable state of a pool in which an event comes only when its fiber
  is parked (or which has one thread, as Raft's has), no thread fails when it searches the queue or resumes what it
  took, no fiber is on two threads, the counter of active threads is exact, and every callback that was scheduled is
  in the queue, with a thread, or was started: none is lost and none runs twice.\<close>

theorem threads_share_queue:
  assumes "reach (poolInit tids) (poolStep early) p" and "early \<longrightarrow> length tids = FIBER_THREAD_NUM"
  shows "(\<forall>tid. returns (takeTask tid p)) \<and> (\<forall>tid t. stages p tid = Some (Took t) \<longrightarrow> returns (startTask tid t p)) \<and>
    (\<forall>t1 t2 s1 s2 f. stages p t1 = Some s1 \<and> stages p t2 = Some s2 \<and> stageFiber s1 = Some f \<and> stageFiber s2 = Some f \<longrightarrow> t1 = t2) \<and>
    activeThreadCnt (poolSched p) = overThreads busy p \<and>
    accepted p = queuedCbs p + overThreads takenCb p + started p"
proof -
  have "pool_ok p" "counts_ok p" using threads.reach_inv[OF assms(1)] assms(2) by (simp_all add: pool_inv_def FIBER_THREAD_NUM_def)
  then show ?thesis
    using take_returns start_returns pool_okD(5)[of p] unfolding counts_ok_def by blast
qed

theorem threads_share_queue_witness:
  "\<exists>p. foldR (playMove False [1,2]) [Submit ''c'', Submit ''d'', Go 1, Go 2, Go 1] (samplePool [1,2]) = Inr p \<and>
     returns (startTask 2 (cbTask ''d'') p) \<and> activeThreadCnt (poolSched p) = overThreads busy p"
proof -
  have "\<exists>p. foldR (playMove False [1,2]) [Submit ''c'', Submit ''d'', Go 1, Go 2, Go 1] (samplePool [1,2]) = Inr p \<and>
      stages p 2 = Some (Took (cbTask ''d''))"
    by (simp add: play_simps del: setStage_fields setFiberState_fields endFiber_fields putTask_fields)
  then obtain p where p: "foldR (playMove False [1,2]) [Submit ''c'', Submit ''d'', Go 1, Go 2, Go 1] (samplePool [1,2]) = Inr p"
    "stages p 2 = Some (Took (cbTask ''d''))" by blast
  have "reach (poolInit [1,2]) (poolStep False) p" using play_reach[OF p(1) samplePool_reach] by simp
  from threads_share_queue[OF this] p show ?thesis by blast
qed

text \<open>Nothing is left to do: every thread can leave its loop by its own steps.\<close>

definition quiet :: "'c pool \<Rightarrow> bool" where
  "quiet p \<longleftrightarrow> schedulerStopping (poolSched p) \<and> nonePending p"

lemma quiet_setStage [simp]: "quiet (setStage tid s p) = quiet p"
  by (simp add: quiet_def nonePending_def)

lemma quiet_steps:
  assumes "quiet p"
  shows "stages p tid = Some AtTop \<Longrightarrow> poolStep early p (setStage tid NothingToDo p)"
    and "stages p tid = Some Polling \<Longrightarrow> poolStep early p (setStage tid Checked p)"
    and "stages p tid = Some Checked \<Longrightarrow> poolStep early p (leaveIdle tid (p\<lparr>idleEnded := insert tid (idleEnded p)\<rparr>))"
    and "quiet (leaveIdle tid p)" "quiet (p\<lparr>idleEnded := E\<rparr>)" "quiet (enterIdle tid p)"
  using assms p_take[of p tid "setStage tid NothingToDo p" early] p_pending[of p tid early] p_stopping[of p tid early]
  by (simp_all add: quiet_def takeTask_def schedulerStopping_def checkPending_def checkStopping_def leaveIdle_def
      enterIdle_def nonePending_def)

text \<open>A thread with its idle fiber ended, and one that has still to look.\<close>

abbreviation othersKept :: "int \<Rightarrow> 'c pool \<Rightarrow> 'c pool \<Rightarrow> bool" where
  "othersKept tid p p' \<equiv> quiet p' \<and> (\<forall>t. t \<noteq> tid \<longrightarrow> stages p' t = stages p t)"

lemma ended_leaves:
  fixes p :: "'c pool"
  assumes "quiet p" and "tid \<in> idleEnded p" and "stages p tid \<in> {Some AtTop, Some NothingToDo}"
  shows "\<exists>p'. (poolStep early)\<^sup>*\<^sup>* p p' \<and> stages p' tid = Some Exited \<and> othersKept tid p p'"
proof -
  have last: "\<exists>p'. (poolStep early)\<^sup>*\<^sup>* q p' \<and> stages p' tid = Some Exited \<and> othersKept tid q p'"
    if "quiet q" "tid \<in> idleEnded q" "stages q tid = Some NothingToDo" for q :: "'c pool"
    using that p_idle[of q tid early] by (intro exI[of _ "enterIdle tid q"]) (auto simp: enterIdle_def)
  show ?thesis
  proof (cases "stages p tid = Some AtTop")
    case True
    from last[of "setStage tid NothingToDo p"] assms(1,2) obtain p' where
      "(poolStep early)\<^sup>*\<^sup>* (setStage tid NothingToDo p) p'" "stages p' tid = Some Exited"
      "othersKept tid (setStage tid NothingToDo p) p'" by auto
    with quiet_steps(1)[OF assms(1) True] show ?thesis by (intro exI[of _ p']) (auto intro: converse_rtranclp_into_rtranclp)
  qed (use last[OF assms(1,2)] assms(3) in auto)
qed

lemma checked_leaves:
  assumes "quiet p" and "stages p tid = Some Checked"
  shows "\<exists>p'. (poolStep early)\<^sup>*\<^sup>* p p' \<and> stages p' tid = Some Exited \<and> othersKept tid p p'"
proof -
  let ?q = "leaveIdle tid (p\<lparr>idleEnded := insert tid (idleEnded p)\<rparr>)"
  have "quiet ?q" using quiet_steps(4)[OF quiet_steps(5)[OF assms(1)]] .
  from ended_leaves[OF this, of tid] obtain p' where "(poolStep early)\<^sup>*\<^sup>* ?q p'" "stages p' tid = Some Exited" "othersKept tid ?q p'"
    by (auto simp: leaveIdle_def)
  with quiet_steps(3)[OF assms] show ?thesis
    by (intro exI[of _ p']) (auto simp: leaveIdle_def intro: converse_rtranclp_into_rtranclp)
qed

text \<open>A thread that is nowhere near its end first comes to its next check.\<close>

lemma comes_to_check:
  fixes p :: "'c pool"
  assumes "quiet p" and "tid \<notin> idleEnded p" and "stages p tid \<in> {Some AtTop, Some NothingToDo, Some Polling, Some Idling}"
  shows "\<exists>p'. (poolStep early)\<^sup>*\<^sup>* p p' \<and> stages p' tid = Some Checked \<and> othersKept tid p p'"
proof -
  have polling: "\<exists>p'. (poolStep early)\<^sup>*\<^sup>* q p' \<and> stages p' tid = Some Checked \<and> othersKept tid q p'"
    if "quiet q" "stages q tid = Some Polling" for q :: "'c pool"
    using that quiet_steps(2)[OF that(1), of tid early] by (intro exI[of _ "setStage tid Checked q"]) auto
  have none_left: "\<exists>p'. (poolStep early)\<^sup>*\<^sup>* q p' \<and> stages p' tid = Some Checked \<and> othersKept tid q p'"
    if "quiet q" "tid \<notin> idleEnded q" "stages q tid = Some NothingToDo" for q :: "'c pool"
  proof -
    from polling[OF quiet_steps(6)[OF that(1), of tid]] that(2) obtain p' where "(poolStep early)\<^sup>*\<^sup>* (enterIdle tid q) p'"
      "stages p' tid = Some Checked" "othersKept tid (enterIdle tid q) p'" by (auto simp: enterIdle_def)
    with p_idle[OF that(3), of early] that(2) show ?thesis
      by (intro exI[of _ p']) (auto simp: enterIdle_def intro: converse_rtranclp_into_rtranclp)
  qed
  have top: "\<exists>p'. (poolStep early)\<^sup>*\<^sup>* q p' \<and> stages p' tid = Some Checked \<and> othersKept tid q p'"
    if "quiet q" "tid \<notin> idleEnded q" "stages q tid = Some AtTop" for q :: "'c pool"
  proof -
    let ?q = "setStage tid NothingToDo q"
    have "\<exists>p'. (poolStep early)\<^sup>*\<^sup>* ?q p' \<and> stages p' tid = Some Checked \<and> othersKept tid ?q p'"
      by (rule none_left) (use that in simp_all)
    then obtain p' where "(poolStep early)\<^sup>*\<^sup>* ?q p'" "stages p' tid = Some Checked" "othersKept tid ?q p'" by blast
    with quiet_steps(1)[OF that(1,3), of early] show ?thesis
      by (intro exI[of _ p']) (auto intro: converse_rtranclp_into_rtranclp)
  qed
  have idling: "\<exists>p'. (poolStep early)\<^sup>*\<^sup>* p p' \<and> stages p' tid = Some Checked \<and> othersKept tid p p'"
    if "stages p tid = Some Idling"
  proof -
    from top[OF quiet_steps(4)[OF assms(1), of tid]] assms(2) obtain p' where "(poolStep early)\<^sup>*\<^sup>* (leaveIdle tid p) p'"
      "stages p' tid = Some Checked" "othersKept tid (leaveIdle tid p) p'" by (auto simp: leaveIdle_def)
    with p_unidle[OF that, of early] show ?thesis
      by (intro exI[of _ p']) (auto simp: leaveIdle_def intro: converse_rtranclp_into_rtranclp)
  qed
  show ?thesis using assms top none_left polling idling by auto
qed

lemma thread_leaves:
  assumes "quiet p" and "stages p tid = Some s" and "busy s = 0" and "drain_ok p"
  shows "\<exists>p'. (poolStep early)\<^sup>*\<^sup>* p p' \<and> stages p' tid = Some Exited \<and> othersKept tid p p'"
proof (cases "s = Exited")
  case True
  then show ?thesis using assms(1,2) by (intro exI[of _ p]) auto
next
  case False
  show ?thesis
  proof (cases "tid \<in> idleEnded p")
    case True
    then have "stages p tid \<in> {Some AtTop, Some NothingToDo}"
      using drain_okD(5)[OF assms(4) True] False assms(2,3) by (cases s) auto
    then show ?thesis using ended_leaves[OF assms(1) True] by blast
  next
    case no: False
    have "\<exists>q. (poolStep early)\<^sup>*\<^sup>* p q \<and> stages q tid = Some Checked \<and> othersKept tid p q"
    proof (cases "s = Checked")
      case True
      then show ?thesis using assms(1,2) by (intro exI[of _ p]) auto
    next
      case other: False
      then have "stages p tid \<in> {Some AtTop, Some NothingToDo, Some Polling, Some Idling}"
        using False assms(2,3) by (cases s) auto
      then show ?thesis using comes_to_check[OF assms(1) no] by blast
    qed
    then obtain q where q: "(poolStep early)\<^sup>*\<^sup>* p q" "stages q tid = Some Checked" "othersKept tid p q" by blast
    then have "quiet q" by blast
    from checked_leaves[OF this q(2), of early] obtain p' where
      "(poolStep early)\<^sup>*\<^sup>* q p'" "stages p' tid = Some Exited" "othersKept tid q p'" by blast
    with q show ?thesis by (intro exI[of _ p']) auto
  qed
qed

lemma steps_reach:
  assumes "(poolStep early)\<^sup>*\<^sup>* p p'" and "reach (poolInit tids) (poolStep early) p"
  shows "reach (poolInit tids) (poolStep early) p'"
  using assms by (induction rule: rtranclp_induct) (auto intro: reach_step)

lemma all_leave:
  assumes "reach (poolInit tids) (poolStep early) p" and "quiet p" and "set ts \<subseteq> set tids"
    and "\<forall>tid s. stages p tid = Some s \<longrightarrow> busy s = 0"
  shows "\<exists>p'. (poolStep early)\<^sup>*\<^sup>* p p' \<and> quiet p' \<and> (\<forall>tid\<in>set ts. stages p' tid = Some Exited) \<and>
    (\<forall>tid. tid \<notin> set ts \<longrightarrow> stages p' tid = stages p tid)"
  using assms(3)
proof (induction ts)
  case Nil
  then show ?case using assms(2) by (intro exI[of _ p]) simp
next
  case (Cons t ts)
  then obtain q where q: "(poolStep early)\<^sup>*\<^sup>* p q" "quiet q" "\<forall>tid\<in>set ts. stages q tid = Some Exited"
    "\<forall>tid. tid \<notin> set ts \<longrightarrow> stages q tid = stages p tid" by auto
  note inv = threads.reach_inv[OF steps_reach[OF q(1) assms(1)]]
  then obtain s where s: "stages q t = Some s" using Cons.prems by (auto simp: pool_inv_def dom_def)
  have "busy s = 0"
  proof (cases "t \<in> set ts")
    case True
    then show ?thesis using q(3) s by simp
  next
    case False
    then show ?thesis using q(4) s assms(4) by simp
  qed
  from thread_leaves[OF q(2) s this, of early] inv obtain p' where
    "(poolStep early)\<^sup>*\<^sup>* q p'" "stages p' t = Some Exited" "othersKept t q p'" by (auto simp: pool_inv_def)
  with q show ?case by (intro exI[of _ p']) auto
qed

lemma pool_can_leave:
  assumes r: "reach (poolInit tids) (poolStep early) p" and "quiet p"
  shows "\<exists>p'. (poolStep early)\<^sup>*\<^sup>* p p' \<and> (\<forall>tid\<in>set tids. stages p' tid = Some Exited)"
proof -
  have "counts_ok p" using threads.reach_inv[OF r] by (simp add: pool_inv_def)
  then have "overThreads busy p = 0" "finite (dom (stages p))"
    using assms(2) by (simp_all add: counts_ok_def quiet_def schedulerStopping_def)
  then have "\<forall>tid s. stages p tid = Some s \<longrightarrow> busy s = 0" using overThreads_pos[of p _ _ busy] by fastforce
  from all_leave[OF r assms(2) order_refl this] show ?thesis by blast
qed

lemma left_pool:
  assumes "reach (poolInit tids) (poolStep early) p" and "\<forall>tid\<in>set tids. stages p tid = Some Exited"
  shows "isStopped (poolSched p) \<and> tasks (poolSched p) = [] \<and> activeThreadCnt (poolSched p) = 0 \<and> started p = accepted p \<and>
    (length tids = 1 \<longrightarrow> nonePending p \<and> (\<forall>f b. poolFibers p f = Some b \<longrightarrow> fstate b = TERMINATED))"
proof -
  have i: "dom (stages p) = set tids" "counts_ok p" "drain_ok p"
    and one: "length tids = 1 \<Longrightarrow> pool_ok p \<and> placed p \<and> lone_ok (hd tids) p"
    using threads.reach_inv[OF assms(1)] by (auto simp: pool_inv_def)
  have ex: "s = Exited" if "stages p tid = Some s" for tid s
  proof -
    have "tid \<in> set tids" using that i(1) by blast
    then show ?thesis using assms(2) that by simp
  qed
  note D = drain_okD[OF i(3)]
  obtain t0 s0 where "stages p t0 = Some s0" using D(1) by (auto simp: dom_def)
  then have t0: "t0 \<in> set tids" "t0 \<in> idleEnded p" using ex D(4)[of t0] i(1) by auto
  have "\<not> live p tid" for tid using ex by (auto simp: live_def)
  then have tasks: "tasks (poolSched p) = []" using D(6) by blast
  have zero: "overThreads busy p = 0" "overThreads takenCb p = {#}"
    unfolding overThreads_def by (rule sum.neutral, use ex in force)+
  have "activeThreadCnt (poolSched p) = 0" "started p = accepted p"
    using i(2) zero tasks by (simp_all add: counts_ok_def queuedCbs_def)
  moreover have "nonePending p \<and> (\<forall>f b. poolFibers p f = Some b \<longrightarrow> fstate b = TERMINATED)" if "length tids = 1"
  proof -
    note O = one[OF that]
    have "t0 = hd tids" using that t0(1) by (cases tids) auto
    then have np: "nonePending p" using O t0(2) by (auto simp: lone_ok_def)
    have "fstate b = TERMINATED" if "poolFibers p f = Some b" for f b
    proof -
      have "\<not> onThread p f" using ex unfolding onThread_def by fastforce
      moreover have "f \<notin> set (queued p)" "f \<notin> waiters p" using tasks np by (simp_all add: queued_def nonePending_def)
      moreover have "stateOf p f = None \<or> stateOf p f = Some TERMINATED \<or> onThread p f \<or> f \<in> set (queued p) \<or> f \<in> waiters p"
        using O unfolding placed_def by blast
      ultimately show ?thesis using that by (simp add: stateOf_def)
    qed
    with np show ?thesis by blast
  qed
  ultimately show ?thesis using D(3) t0(2) tasks by blast
qed

text \<open>C10: A pool that was stopped and has nothing to do can always end: its threads reach their ends from whatever
  stage they are at.  And when all threads have left their loops, the pool was stopped, its queue is empty, and every callback
  that was ever scheduled was given a fiber; in a pool of one thread, nothing waits for an event or a timer any more
  either, and every fiber has run to its end.\<close>

theorem pool_drained:
  assumes "reach (poolInit tids) (poolStep early) p"
  shows "(schedulerStopping (poolSched p) \<and> nonePending p \<longrightarrow>
      (\<exists>p'. (poolStep early)\<^sup>*\<^sup>* p p' \<and> (\<forall>tid\<in>set tids. stages p' tid = Some Exited))) \<and>
    ((\<forall>tid\<in>set tids. stages p tid = Some Exited) \<longrightarrow>
      isStopped (poolSched p) \<and> tasks (poolSched p) = [] \<and> started p = accepted p \<and>
      (length tids = 1 \<longrightarrow> nonePending p \<and> (\<forall>f b. poolFibers p f = Some b \<longrightarrow> fstate b = TERMINATED)))"
  using pool_can_leave[OF assms] left_pool[OF assms] by (simp add: quiet_def)

theorem pool_drained_witness:
  "\<exists>p. foldR (playMove True [1]) fullRun (samplePool [1]) = Inr p \<and> accepted p = {#''c'', ''d''#} \<and> nonePending p"
proof -
  from fullRun_ends obtain p where p: "foldR (playMove True [1]) fullRun (samplePool [1]) = Inr p" "stages p 1 = Some Exited"
    "started p = {#''c'', ''d''#}" by blast
  have r: "reach (poolInit [1]) (poolStep True) p" using play_reach[OF p(1) samplePool_reach] by simp
  from pool_drained[OF r] p show ?thesis by simp
qed

text \<open>C26: With two threads the code fails when an event is faster than the fiber that registered for it: the other thread
  can schedule the fiber before it has left its thread.  If it is taken before the assignment of \<^verbatim>\<open>yield\<close> to its state, the
  assertion of the search ends the process; if it is taken behind it, the fiber executes on two threads at once, while
  its context is not stored yet.\<close>

theorem early_event_fails:
  "\<exists>(p :: string pool) (q :: string pool). reach (poolInit [1,2]) (poolStep True) p \<and> stages p 2 = Some AtTop \<and> stages p 1 = Some (Parking 0) \<and>
     takeTask 2 p = Inl AssertFail \<and>
     reach (poolInit [1,2]) (poolStep True) q \<and> stages q 1 = Some (Switching 0) \<and> stages q 2 = Some (Executing 0)"
proof -
  from earlyRun_ends obtain p q where p: "foldR (playMove True [1,2]) earlyRun (samplePool [1,2]) = Inr p"
    "stages p 2 = Some AtTop" "stages p 1 = Some (Parking 0)" "takeTask 2 p = Inl AssertFail"
    "foldR (playMove True [1,2]) [Go 1, Go 2, Go 2] p = Inr q" "stages q 1 = Some (Switching 0)" "stages q 2 = Some (Executing 0)"
    by blast
  have r: "reach (poolInit [1,2]) (poolStep True) p" using play_reach[OF p(1) samplePool_reach] by simp
  have "reach (poolInit [1,2]) (poolStep True) q" using play_reach[OF p(5) r] .
  with r p show ?thesis by (intro exI[of _ p] exI[of _ q]) simp
qed

text \<open>C27: With two threads a stopped pool can leave a fiber behind that still waits: \<^verbatim>\<open>stopping\<close> reads the counter of pending
  events and the state of the scheduler one after the other, and between the two a fiber registers and leaves its
  thread.  Also when no event comes early, all threads can end while a fiber waits that nobody will ever resume.\<close>

theorem stop_loses_waiter:
  "\<exists>p :: string pool. reach (poolInit [1,2]) (poolStep False) p \<and> stages p 1 = Some Exited \<and> stages p 2 = Some Exited \<and>
     0 \<in> waiters p"
proof -
  from lostRun_ends obtain p where p: "foldR (playMove False [1,2]) lostRun (samplePool [1,2]) = Inr p"
    "stages p 1 = Some Exited" "stages p 2 = Some Exited" "waiters p = {0}" by blast
  have "reach (poolInit [1,2]) (poolStep False) p" using play_reach[OF p(1) samplePool_reach] by simp
  with p show ?thesis by blast
qed

end
