(* ===== verification/Archives.thy ===== *)
theory Archives
  imports KvTheorems
begin

text \<open>
  What the program adds to the Boost archives: the order in which its \<^verbatim>\<open>serialize\<close> functions pass their members,
  and what happens when reading stops.  The archive itself is a parameter, member by member: the text its
  constructor writes and checks, and how strings, numbers, vectors of strings and tables of request numbers are
  written and read.  Reading a member gives the rest of the text, or \<open>None\<close> when it throws.
\<close>

section \<open>The library\<close>

record archive =
  header :: string
  openIn :: "string \<Rightarrow> string option"
  putStr :: "string \<Rightarrow> string"
  getStr :: "string \<Rightarrow> (string \<times> string) option"
  putInt :: "int \<Rightarrow> string"
  getInt :: "string \<Rightarrow> (int \<times> string) option"
  putStrs :: "string list \<Rightarrow> string"
  getStrs :: "string \<Rightarrow> (string list \<times> string) option"
  putIds :: "(string \<times> int) list \<Rightarrow> string"
  getIds :: "string \<Rightarrow> ((string \<times> int) list \<times> string) option"

text \<open>A member is written behind a separator, and read back as far as it was written.\<close>

definition atToken :: "string \<Rightarrow> bool" where
  "atToken s \<longleftrightarrow> s = [] \<or> hd s = CHR '' ''"

definition field_ok :: "('a \<Rightarrow> string) \<Rightarrow> (string \<Rightarrow> ('a \<times> string) option) \<Rightarrow> bool" where
  "field_ok put get \<longleftrightarrow> (\<forall>x s. atToken s \<longrightarrow> get (put x @ s) = Some (x, s)) \<and> (\<forall>x s. atToken (put x @ s))"

definition archive_laws :: "archive \<Rightarrow> bool" where
  "archive_laws A \<longleftrightarrow> header A \<noteq> [] \<and> (\<forall>s. atToken s \<longrightarrow> openIn A (header A @ s) = Some s) \<and>
     field_ok (putStr A) (getStr A) \<and> field_ok (putInt A) (getInt A) \<and> field_ok (putStrs A) (getStrs A) \<and>
     field_ok (putIds A) (getIds A)"

section \<open>Commands\<close>

definition asString :: "archive \<Rightarrow> op \<Rightarrow> string" where
  "asString A p = header A @ putStr A (Operation p) @ putStr A (Key p) @ putStr A (Value p) @ putStr A (ClientId p) @
     putInt A (RequestId p)"

text \<open>Reading assigns the members one after the other; the flag tells whether it came to the end.\<close>

definition readMembers :: "archive \<Rightarrow> string \<Rightarrow> op \<Rightarrow> bool \<times> op" where
  "readMembers A s0 p0 =
     (case getStr A s0 of None \<Rightarrow> (False, p0)
      | Some (x, s1) \<Rightarrow> let p1 = p0\<lparr>Operation := x\<rparr> in
     (case getStr A s1 of None \<Rightarrow> (False, p1)
      | Some (x, s2) \<Rightarrow> let p2 = p1\<lparr>Key := x\<rparr> in
     (case getStr A s2 of None \<Rightarrow> (False, p2)
      | Some (x, s3) \<Rightarrow> let p3 = p2\<lparr>Value := x\<rparr> in
     (case getStr A s3 of None \<Rightarrow> (False, p3)
      | Some (x, s4) \<Rightarrow> let p4 = p3\<lparr>ClientId := x\<rparr> in
     (case getInt A s4 of None \<Rightarrow> (False, p4)
      | Some (i, _) \<Rightarrow> (True, p4\<lparr>RequestId := i\<rparr>))))))"

text \<open>The constructor of the input archive stands before the \<^verbatim>\<open>try\<close>.\<close>

definition parseFromString :: "archive \<Rightarrow> string \<Rightarrow> op \<Rightarrow> (bool \<times> op) res" where
  "parseFromString A str p =
     (case openIn A str of None \<Rightarrow> Inl ArchiveError | Some s \<Rightarrow> Inr (readMembers A s p))"

section \<open>The other archived objects\<close>

definition writeNode :: "archive \<Rightarrow> persistNode \<Rightarrow> string" where
  "writeNode A n = header A @ putInt A (pn_currentTerm n) @ putInt A (pn_votedFor n) @
     putInt A (pn_lastSnapshotIncludeIndex n) @ putInt A (pn_lastSnapshotIncludeTerm n) @ putStrs A (pn_logs n)"

definition readNode :: "archive \<Rightarrow> string \<Rightarrow> persistNode option" where
  "readNode A str =
     Option.bind (openIn A str) (\<lambda>s. Option.bind (getInt A s) (\<lambda>(t, s). Option.bind (getInt A s) (\<lambda>(v, s).
     Option.bind (getInt A s) (\<lambda>(i, s). Option.bind (getInt A s) (\<lambda>(it, s). Option.bind (getStrs A s) (\<lambda>(l, _).
       Some \<lparr>pn_currentTerm = t, pn_votedFor = v, pn_lastSnapshotIncludeIndex = i, pn_lastSnapshotIncludeTerm = it,
             pn_logs = l\<rparr>))))))"

definition writeDump :: "archive \<Rightarrow> (string, string) dump \<Rightarrow> string" where
  "writeDump A d = header A @ putStrs A (fst d) @ putStrs A (snd d)"

definition readDump :: "archive \<Rightarrow> string \<Rightarrow> (string, string) dump option" where
  "readDump A str =
     Option.bind (openIn A str) (\<lambda>s. Option.bind (getStrs A s) (\<lambda>(ks, s). Option.bind (getStrs A s) (\<lambda>(vs, _). Some (ks, vs))))"

definition writeServer :: "archive \<Rightarrow> string \<times> (string \<times> int) list \<Rightarrow> string" where
  "writeServer A x = header A @ putStr A (fst x) @ putIds A (snd x)"

definition readServer :: "archive \<Rightarrow> string \<Rightarrow> (string \<times> (string \<times> int) list) option" where
  "readServer A str =
     Option.bind (openIn A str) (\<lambda>s. Option.bind (getStr A s) (\<lambda>(d, s). Option.bind (getIds A s) (\<lambda>(m, _). Some (d, m))))"

definition codecOf :: "archive \<Rightarrow> (logEntry \<Rightarrow> string) \<Rightarrow> (string \<Rightarrow> logEntry) \<Rightarrow> op \<Rightarrow> kvcodec" where
  \<comment> \<open>the records of functions the other theories use; \<open>p\<close>: the members of a new \<open>Op\<close>\<close>
  "codecOf A ser parse p =
     \<lparr>raftCodec = \<lparr>entrySer = ser, entryParse = parse, nodeOar = writeNode A, nodeIar = readNode A\<rparr>,
      dumpOar = writeDump A, dumpIar = readDump A, kvOar = writeServer A, kvIar = readServer A,
      opSer = asString A, opParse = (\<lambda>s. case parseFromString A s p of Inr (True, q) \<Rightarrow> Some q | _ \<Rightarrow> None)\<rparr>"

section \<open>Round trips\<close>

lemma archive_lawsD:
  assumes "archive_laws A"
  shows "header A \<noteq> []" "atToken s \<Longrightarrow> openIn A (header A @ s) = Some s"
    "atToken s \<Longrightarrow> getStr A (putStr A x @ s) = Some (x, s)" "atToken (putStr A x @ s)"
    "atToken s \<Longrightarrow> getInt A (putInt A i @ s) = Some (i, s)" "atToken (putInt A i @ s)"
    "atToken s \<Longrightarrow> getStrs A (putStrs A xs @ s) = Some (xs, s)" "atToken (putStrs A xs @ s)"
    "atToken s \<Longrightarrow> getIds A (putIds A m @ s) = Some (m, s)" "atToken (putIds A m @ s)"
  using assms by (simp_all add: archive_laws_def field_ok_def)

lemma archive_last:
  assumes "archive_laws A"
  shows "getInt A (putInt A i) = Some (i, [])" "getStrs A (putStrs A xs) = Some (xs, [])" "getIds A (putIds A m) = Some (m, [])"
    "atToken (putInt A i)" "atToken (putStrs A xs)" "atToken (putIds A m)"
  using archive_lawsD(5,7,9)[OF assms, of "[]"] archive_lawsD(6,8,10)[OF assms, of _ "[]"] by (simp_all add: atToken_def)

lemma op_round_trip:
  assumes "archive_laws A"
  shows "parseFromString A (asString A p) q = Inr (True, p)"
  by (simp add: parseFromString_def asString_def readMembers_def archive_lawsD[OF assms] archive_last[OF assms])

text \<open>Every codec the other theories assume is given by the laws of the archive and of protobuf.\<close>

theorem archives_give_codec:
  assumes A: "archive_laws A" and "\<And>e. parse (ser e) = e"
  shows "kvcodec_ok (codecOf A ser parse p)"
proof -
  note L = archive_lawsD[OF A] archive_last[OF A]
  have "readNode A (writeNode A n) = Some n \<and> writeNode A n \<noteq> []" for n
    by (simp add: readNode_def writeNode_def L)
  moreover have "readDump A (writeDump A d) = Some d \<and> writeDump A d \<noteq> []" for d
    by (simp add: readDump_def writeDump_def L)
  moreover have "readServer A (writeServer A x) = Some x \<and> writeServer A x \<noteq> []" for x
    by (simp add: readServer_def writeServer_def L)
  ultimately show ?thesis
    using assms(2) by (simp add: kvcodec_ok_def codec_ok_def archive_ok_def codecOf_def op_round_trip[OF A])
qed

section \<open>Where it falls short\<close>

text \<open>A text that is not an archive makes the constructor throw, out of \<^verbatim>\<open>parseFromString\<close>; a text that ends too early
  leaves the members that were read.\<close>

lemma parse_throws: "openIn A str = None \<Longrightarrow> parseFromString A str p = Inl ArchiveError"
  by (simp add: parseFromString_def)

lemma parse_partial:
  assumes A: "archive_laws A" and "getStr A [] = None"
  shows "parseFromString A (header A @ putStr A ''Put'' @ putStr A k) p = Inr (False, p\<lparr>Operation := ''Put'', Key := k\<rparr>)"
proof -
  have "getStr A (putStr A k) = Some (k, [])" "atToken (putStr A k)"
    using archive_lawsD(3)[OF A, of "[]"] archive_lawsD(4)[OF A, of _ "[]"] by (simp_all add: atToken_def)
  then show ?thesis
    using assms(2) by (simp add: parseFromString_def readMembers_def archive_lawsD[OF A])
qed

section \<open>An archive that obeys the laws\<close>

definition putTally :: "'a::countable \<Rightarrow> string" where
  "putTally x = CHR '' '' # replicate (to_nat x) CHR ''1''"

definition getTally :: "string \<Rightarrow> ('a::countable \<times> string) option" where
  "getTally s = (case s of [] \<Rightarrow> None | c # t \<Rightarrow>
     Some (from_nat (length (takeWhile (\<lambda>c. c = CHR ''1'') t)), dropWhile (\<lambda>c. c = CHR ''1'') t))"

lemma tally_ok: "field_ok (putTally :: 'a::countable \<Rightarrow> string) getTally"
proof -
  have "takeWhile (\<lambda>c. c = CHR ''1'') s = []" "dropWhile (\<lambda>c. c = CHR ''1'') s = s" if "atToken s" for s
    using that by (cases s; auto simp: atToken_def)+
  then show ?thesis
    by (auto simp: field_ok_def putTally_def getTally_def takeWhile_append dropWhile_append atToken_def)
qed

definition tallyArchive :: archive where
  "tallyArchive = \<lparr>header = ''h'', openIn = (\<lambda>s. case s of [] \<Rightarrow> None | c # t \<Rightarrow> if c = CHR ''h'' then Some t else None),
     putStr = putTally, getStr = getTally, putInt = putTally, getInt = getTally, putStrs = putTally, getStrs = getTally,
     putIds = putTally, getIds = getTally\<rparr>"

lemma tallyArchive_laws: "archive_laws tallyArchive" "getStr tallyArchive [] = None" "openIn tallyArchive ''x'' = None"
  by (simp_all add: archive_laws_def tallyArchive_def tally_ok) (simp add: getTally_def)

end
