(* ===== verification/HookInit.thy ===== *)
theory HookInit
  imports Hook
begin

text \<open>
  How the hooks find the functions they replace: \<^verbatim>\<open>hook_init\<close> of \<^verbatim>\<open>src/fiber/hook.cpp\<close> and the function pointers of
  \<^verbatim>\<open>src/fiber/include/hook.hpp\<close>.  \<open>dlsym name\<close> is the address the loader knows, null if there is none.
\<close>

section \<open>The table of original functions\<close>

text \<open>The names the macro \<^verbatim>\<open>HOOK_FUNC\<close> lists.\<close>

definition hookNames :: "string list" where
  "hookNames = [''sleep'', ''usleep'', ''nanosleep'', ''socket'', ''connect'', ''accept'', ''read'', ''readv'', ''recv'',
     ''recvfrom'', ''recvmsg'', ''write'', ''writev'', ''send'', ''sendto'', ''sendmsg'', ''close'', ''fcntl'', ''ioctl'',
     ''getsockopt'', ''setsockopt'']"

text \<open>The variables \<open>sleep_f\<close> to \<open>setsockopt_f\<close>, by name, the flag of \<open>hook_init\<close> and the timeout of \<open>connect\<close>.\<close>

record hookTable =
  originals :: "string \<rightharpoonup> nat"
  isInit :: bool
  connectTimeout :: "64 word"

definition newHookTable :: hookTable where
  \<comment> \<open>before the first constructor of a static object runs\<close>
  "newHookTable = \<lparr>originals = Map.empty, isInit = False, connectTimeout = - 1\<rparr>"

definition hookInit :: "(string \<Rightarrow> nat option) \<Rightarrow> hookTable \<Rightarrow> hookTable" where
  "hookInit dlsym h =
     (if isInit h then h
      else h\<lparr>isInit := True, originals := fold (\<lambda>name m. m(name := dlsym name)) hookNames (originals h)\<rparr>)"

definition hookIniter :: "(string \<Rightarrow> nat option) \<Rightarrow> hookTable \<Rightarrow> hookTable" where
  \<comment> \<open>the constructor of \<^verbatim>\<open>_HOOKIniter\<close>\<close>
  "hookIniter dlsym h = (hookInit dlsym h)\<lparr>connectTimeout := 5000\<rparr>"

definition callOriginal :: "string \<Rightarrow> hookTable \<Rightarrow> nat res" where
  \<comment> \<open>the function a hook goes on with\<close>
  "callOriginal name h = derefOpt (originals h name)"

text \<open>\<open>getsockopt\<close> only goes on with the original function.\<close>

definition hookedGetsockopt :: "hookTable \<Rightarrow> nat res" where
  "hookedGetsockopt h = callOriginal ''getsockopt'' h"

section \<open>What it leaves\<close>

lemma fold_update: "fold (\<lambda>x m. m(x := g x)) xs m = (\<lambda>x. if x \<in> set xs then g x else m x)"
  by (induction xs arbitrary: m) (auto simp: fun_eq_iff)

lemma hookInit_twice: "hookInit dlsym' (hookInit dlsym h) = hookInit dlsym h" if "\<not> isInit h"
  using that by (simp add: hookInit_def)

text \<open>Before \<open>main\<close>, every hooked name has the address the loader gave; a hook fails exactly if there is none.\<close>

lemma hookIniter_resolves:
  assumes "name \<in> set hookNames"
  shows "callOriginal name (hookIniter dlsym newHookTable) = derefOpt (dlsym name)"
  using assms by (simp add: callOriginal_def hookIniter_def hookInit_def newHookTable_def fold_update)

lemma hookIniter_timeout: "connectTimeout (hookIniter dlsym newHookTable) = s_connect_timeout"
  by (simp add: hookIniter_def s_connect_timeout_def)

text \<open>A hook that is called by the constructor of another static object, before the table is filled, follows a null pointer.\<close>

lemma early_call_fails: "callOriginal name newHookTable = Inl BadAccess"
  by (simp add: callOriginal_def newHookTable_def)

end
